(* ===== verification/Prelude.thy ===== *)
theory Prelude
  imports Complex_Main "HOL-Library.Word" "HOL-Library.AList" "HOL-Library.Sublist" "HOL-Library.Log_Nat" "HOL-Library.Code_Target_Nat"
begin

text \<open>
  Shared vocabulary of the development: machine integer widths, time, the operations of
  Rust's \<open>str\<close> the program uses, decimal printing and parsing, and the collections of
  rewrite rules the component theories extend.

  A Rust \<open>String\<close> is a sequence of UTF-8 bytes and is modelled as a \<open>string\<close>, a list of
  8-bit \<open>char\<close>s. Every separator the program searches for is an ASCII character, which never
  occurs inside a multi-byte UTF-8 sequence, so searching bytes is searching characters.
  A \<open>Duration\<close> and an \<open>Instant\<close> are counted in nanoseconds; \<open>Instant::duration_since\<close>
  saturates at zero, which is subtraction on \<open>nat\<close>.
\<close>

section \<open>Types\<close>

type_synonym u16 = "16 word"
type_synonym u32 = "32 word"
type_synonym u64 = "64 word"
type_synonym duration = nat
type_synonym instant = nat
type_synonym bytes = string

named_theorems health_simps "effect of the counter operations of an origin"
named_theorems route_simps "effect of the router constructors"
named_theorems proj_simps "fields a state transformer leaves alone or sets"

abbreviation nanos_per_sec :: nat where
  "nanos_per_sec \<equiv> 1000000000"

section \<open>Strings\<close>

definition starts_with :: "string \<Rightarrow> string \<Rightarrow> bool" where
  "starts_with s p = prefix p s"

definition ends_with :: "string \<Rightarrow> string \<Rightarrow> bool" where
  "ends_with s p = suffix p s"

text \<open>\<open>str::split(c)\<close>: the pieces between the separators, at least one piece.\<close>

fun split_on :: "char \<Rightarrow> string \<Rightarrow> string list" where
  "split_on c [] = [[]]"
| "split_on c (x # xs) =
     (if x = c then [] # split_on c xs
      else (case split_on c xs of [] \<Rightarrow> [[x]] | p # ps \<Rightarrow> (x # p) # ps))"

text \<open>\<open>str::trim_end_matches(c)\<close>: every trailing \<open>c\<close> removed.\<close>

definition trim_end_matches :: "char \<Rightarrow> string \<Rightarrow> string" where
  "trim_end_matches c s = rev (dropWhile (\<lambda>x. x = c) (rev s))"

lemma split_on_not_Nil [simp]: "split_on c s \<noteq> []"
  by (induction s) (auto split: list.splits)

lemma split_on_absent: "c \<notin> set s \<Longrightarrow> split_on c s = [s]"
  by (induction s) auto

lemma split_on_append:
  "c \<notin> set p \<Longrightarrow> split_on c (p @ c # s) = p # split_on c s"
  by (induction p) (auto split: list.splits)

lemma length_split_on: "length (split_on c s) = Suc (count_list s c)"
  by (induction s) (auto split: list.splits)

lemma trim_end_matches_snoc [simp]:
  "trim_end_matches c (s @ [c]) = trim_end_matches c s"
  by (simp add: trim_end_matches_def)

lemma trim_end_matches_id: "s = [] \<or> last s \<noteq> c \<Longrightarrow> trim_end_matches c s = s"
  by (cases s rule: rev_cases) (auto simp: trim_end_matches_def)

lemma trim_end_matches_last: "trim_end_matches c s \<noteq> [] \<Longrightarrow> last (trim_end_matches c s) \<noteq> c"
  by (induction s rule: rev_induct) (auto simp: trim_end_matches_def)

lemma trim_end_matches_neq:
  "s \<noteq> [] \<Longrightarrow> last s = c \<Longrightarrow> trim_end_matches c t \<noteq> s"
  using trim_end_matches_last by blast

section \<open>Decimal numbers\<close>

definition digit_char :: "nat \<Rightarrow> char" where
  "digit_char d = char_of (48 + d)"

fun show_nat :: "nat \<Rightarrow> string" where
  "show_nat n = (if n < 10 then [digit_char n] else show_nat (n div 10) @ [digit_char (n mod 10)])"

declare show_nat.simps [simp del]

definition is_digit :: "char \<Rightarrow> bool" where
  "is_digit c \<longleftrightarrow> 48 \<le> (of_char c :: nat) \<and> (of_char c :: nat) \<le> 57"

text \<open>
  \<open>u16::from_str\<close> and its kin: an optional \<open>+\<close>, then at least one digit, every
  intermediate value below the bound of the type.
\<close>

fun digits_value :: "nat \<Rightarrow> nat \<Rightarrow> string \<Rightarrow> nat option" where
  "digits_value bound acc [] = Some acc"
| "digits_value bound acc (c # cs) =
     (if is_digit c
      then (let v = acc * 10 + (of_char c - 48)
            in if v < bound then digits_value bound v cs else None)
      else None)"

definition parse_uint :: "nat \<Rightarrow> string \<Rightarrow> nat option" where
  "parse_uint bound s =
     (case s of
        [] \<Rightarrow> None
      | c # cs \<Rightarrow>
          if c = CHR ''+'' then (if cs = [] then None else digits_value bound 0 cs)
          else digits_value bound 0 s)"

lemma of_char_digit [simp]: "d < 10 \<Longrightarrow> (of_char (digit_char d) :: nat) = 48 + d"
  by (simp add: digit_char_def)

lemma is_digit_digit_char [simp]: "d < 10 \<Longrightarrow> is_digit (digit_char d)"
  by (simp add: is_digit_def)

lemma digits_value_append:
  "digits_value b acc (xs @ ys) =
     (case digits_value b acc xs of None \<Rightarrow> None | Some v \<Rightarrow> digits_value b v ys)"
  by (induction b acc xs rule: digits_value.induct) (auto simp: Let_def)

lemma digits_value_less: "digits_value b acc xs = Some v \<Longrightarrow> acc < b \<Longrightarrow> v < b"
  by (induction b acc xs rule: digits_value.induct) (auto simp: Let_def split: if_splits)

lemma digits_value_show_nat: "n < b \<Longrightarrow> digits_value b 0 (show_nat n) = Some n"
proof (induction n rule: show_nat.induct)
  case (1 n)
  show ?case
  proof (cases "n < 10")
    case True
    with 1 show ?thesis by (subst show_nat.simps) simp
  next
    case False
    with 1 have "digits_value b 0 (show_nat (n div 10)) = Some (n div 10)" by simp
    with False 1 show ?thesis
      by (subst show_nat.simps) (simp add: digits_value_append)
  qed
qed

lemma show_nat_not_Nil [simp]: "show_nat n \<noteq> []"
  by (subst show_nat.simps) simp

lemma show_nat_digits: "\<forall>c \<in> set (show_nat n). is_digit c"
proof (induction n rule: show_nat.induct)
  case (1 n)
  then show ?case by (subst show_nat.simps) auto
qed

lemma parse_show_nat: "n < b \<Longrightarrow> parse_uint b (show_nat n) = Some n"
proof -
  assume n: "n < b"
  obtain c cs where s: "show_nat n = c # cs" by (cases "show_nat n") auto
  then have "is_digit c" using show_nat_digits [of n] by simp
  then have "c \<noteq> CHR ''+''" by (auto simp: is_digit_def)
  with s n digits_value_show_nat [of n b] show ?thesis by (simp add: parse_uint_def)
qed

lemma digits_value_Cons_less: "digits_value b acc (c # cs) = Some v \<Longrightarrow> v < b"
  by (auto simp: Let_def split: if_splits intro: digits_value_less)

lemma parse_uint_less: "parse_uint b s = Some v \<Longrightarrow> v < b"
  by (auto simp: parse_uint_def neq_Nil_conv dest: digits_value_Cons_less
      simp del: digits_value.simps split: list.splits if_splits)

lemma digits_value_mono:
  "digits_value b acc s = Some v \<Longrightarrow> b \<le> b' \<Longrightarrow> digits_value b' acc s = Some v"
  by (induction b acc s rule: digits_value.induct) (auto simp: Let_def split: if_splits)

lemma parse_uint_mono: "parse_uint b s = Some v \<Longrightarrow> b \<le> b' \<Longrightarrow> parse_uint b' s = Some v"
  unfolding parse_uint_def by (auto split: list.splits if_splits simp del: digits_value.simps intro: digits_value_mono)

lemma parse_show_nat_iff: "parse_uint b (show_nat n) = (if n < b then Some n else None)"
proof (cases "parse_uint b (show_nat n)")
  case (Some v)
  then have "v < b" and "parse_uint (b + Suc n) (show_nat n) = Some v"
    by (auto intro: parse_uint_less parse_uint_mono)
  with Some parse_show_nat [of n "b + Suc n"] show ?thesis by auto
qed (use parse_show_nat [of n b] in auto)

lemma inj_show_nat:
  assumes "show_nat m = show_nat n"
  shows "m = n"
proof -
  have "parse_uint (Suc (m + n)) (show_nat m) = Some m" by (rule parse_show_nat) simp
  moreover have "parse_uint (Suc (m + n)) (show_nat n) = Some n" by (rule parse_show_nat) simp
  ultimately have "Some m = Some n" by (simp only: assms)
  then show ?thesis by simp
qed

section \<open>Lists\<close>

lemma find_Some_set: "List.find P xs = Some x \<Longrightarrow> x \<in> set xs \<and> P x"
  by (auto simp: find_Some_iff)

lemma concat_map_eq_foldr:
  "concat (map f xs) = foldr (\<lambda>x acc. f x @ acc) xs []"
  by (induction xs) auto

end
