(* ===== verification/Urls.thy ===== *)
theory Urls
  imports Prelude
begin

text \<open>
  \<open>Url\<close> of the \<open>url\<close> crate is not part of the repository: its values are a type variable and
  the four operations the program calls are the fields of a record passed to every definition
  that uses them. What the program relies on of the crate is stated where it is used, as a
  hypothesis; \<open>sample_urls\<close> is a concrete instance the witnesses evaluate.
\<close>

record 'u url_ops =
  url_to_string :: "'u \<Rightarrow> string"         \<comment> \<open>\<open>Url::to_string\<close> and \<open>Url::as_str\<close>\<close>
  url_scheme :: "'u \<Rightarrow> string"            \<comment> \<open>\<open>Url::scheme\<close>\<close>
  url_authority :: "'u \<Rightarrow> string"         \<comment> \<open>\<open>Url::authority\<close>\<close>
  url_parse :: "string \<Rightarrow> 'u option"      \<comment> \<open>\<open>Url::parse\<close>\<close>

definition sample_scheme :: "string \<Rightarrow> string" where
  "sample_scheme s = takeWhile (\<lambda>c. c \<noteq> CHR '':'') s"

definition sample_authority :: "string \<Rightarrow> string" where
  "sample_authority s = takeWhile (\<lambda>c. c \<noteq> CHR ''/'') (drop (length (sample_scheme s) + 3) s)"

text \<open>
  A URL is its own serialisation. Parsing accepts \<open>http\<close> and \<open>https\<close> and gives an empty
  path its slash, as the crate documents for special schemes.
\<close>

definition sample_parse :: "string \<Rightarrow> string option" where
  "sample_parse s =
     (if starts_with s ''http://'' \<or> starts_with s ''https://''
      then Some (if CHR ''/'' \<in> set (drop (length (sample_scheme s) + 3) s) then s else s @ ''/'')
      else None)"

definition sample_urls :: "string url_ops" where
  "sample_urls = \<lparr>url_to_string = (\<lambda>s. s), url_scheme = sample_scheme,
     url_authority = sample_authority, url_parse = sample_parse\<rparr>"

lemma sample_urls_simps [simp]:
  "url_to_string sample_urls s = s"
  "url_scheme sample_urls s = sample_scheme s"
  "url_authority sample_urls s = sample_authority s"
  "url_parse sample_urls s = sample_parse s"
  by (simp_all add: sample_urls_def)

end
