(* ===== verification/Addresses.thy ===== *)
theory Addresses
  imports Prelude
begin

text \<open>
  Socket addresses as text, as the standard library prints and parses them: \<open>Display\<close> for the two
  kinds of address, and \<open>from_str\<close> for the IPv4 ones, which \<open>default_listen\<close> and
  \<open>default_metrics_addr\<close> of \<open>src/src/config/parser.rs\<close> apply to their literals.
\<close>

datatype ip_addr = IpV4 "32 word" | IpV6 "128 word"

record socket_addr =
  sa_ip :: ip_addr
  sa_port :: u16

section \<open>Printing\<close>

definition show_word :: "'a::len word \<Rightarrow> string" where
  "show_word w = show_nat (unat w)"

definition ipv4_octets :: "32 word \<Rightarrow> nat list" where
  "ipv4_octets a = map (\<lambda>i. unat a div 256 ^ i mod 256) [3, 2, 1, 0]"

fun join :: "string \<Rightarrow> string list \<Rightarrow> string" where
  "join sep [] = []"
| "join sep [p] = p"
| "join sep (p # q # ps) = p @ sep @ join sep (q # ps)"

definition show_ipv4 :: "32 word \<Rightarrow> string" where
  "show_ipv4 a = join ''.'' (map show_nat (ipv4_octets a))"

definition ipv6_segments :: "128 word \<Rightarrow> nat list" where
  "ipv6_segments a = map (\<lambda>i. unat a div 65536 ^ i mod 65536) [7, 6, 5, 4, 3, 2, 1, 0]"

definition hex_char :: "nat \<Rightarrow> char" where
  "hex_char d = (if d < 10 then digit_char d else char_of (87 + d))"

fun show_hex :: "nat \<Rightarrow> string" where
  "show_hex n = (if n < 16 then [hex_char n] else show_hex (n div 16) @ [hex_char (n mod 16)])"

declare show_hex.simps [simp del]

text \<open>The first longest run of zero segments: its start and length.\<close>

fun longest_zeros :: "nat \<Rightarrow> nat \<times> nat \<Rightarrow> nat \<times> nat \<Rightarrow> nat list \<Rightarrow> nat \<times> nat" where
  "longest_zeros i current longest [] = longest"
| "longest_zeros i (cstart, clen) (lstart, llen) (seg # segs) =
     (if seg = 0 then
        (let cstart' = (if clen = 0 then i else cstart);
             clen' = clen + 1
         in longest_zeros (Suc i) (cstart', clen') (if llen < clen' then (cstart', clen') else (lstart, llen)) segs)
      else longest_zeros (Suc i) (0, 0) (lstart, llen) segs)"

definition show_ipv6 :: "128 word \<Rightarrow> string" where
  "show_ipv6 a =
     (let segs = ipv6_segments a in
      if take 6 segs = [0, 0, 0, 0, 0, 65535]
      then ''::ffff:'' @ show_ipv4 (ucast a)
      else (let (start, len) = longest_zeros 0 (0, 0) (0, 0) segs;
                show_segs = (\<lambda>xs. join '':'' (map show_hex xs))
            in if 1 < len
               then show_segs (take start segs) @ ''::'' @ show_segs (drop (start + len) segs)
               else show_segs segs))"

definition show_socket_addr :: "socket_addr \<Rightarrow> string" where
  "show_socket_addr a =
     (case sa_ip a of
        IpV4 ip \<Rightarrow> show_ipv4 ip @ '':'' @ show_word (sa_port a)
      | IpV6 ip \<Rightarrow> ''['' @ show_ipv6 ip @ '']:'' @ show_word (sa_port a))"

section \<open>Parsing\<close>

text \<open>An octet has at most three digits and no leading zero.\<close>

definition parse_octet :: "string \<Rightarrow> nat option" where
  "parse_octet s =
     (if s \<noteq> [] \<and> list_all is_digit s \<and> length s \<le> 3 \<and> (1 < length s \<longrightarrow> hd s \<noteq> CHR ''0'')
      then digits_value 256 0 s else None)"

definition parse_port :: "string \<Rightarrow> nat option" where
  "parse_port s = (if s \<noteq> [] \<and> list_all is_digit s then digits_value 65536 0 s else None)"

definition parse_ipv4 :: "string \<Rightarrow> 32 word option" where
  "parse_ipv4 s =
     (case map parse_octet (split_on (CHR ''.'') s) of
        [Some a, Some b, Some c, Some d] \<Rightarrow> Some (of_nat (((a * 256 + b) * 256 + c) * 256 + d))
      | _ \<Rightarrow> None)"

definition parse_socket_addr_v4 :: "string \<Rightarrow> socket_addr option" where
  "parse_socket_addr_v4 s =
     (case split_on (CHR '':'') s of
        [ip, port] \<Rightarrow>
          (case (parse_ipv4 ip, parse_port port) of
             (Some a, Some p) \<Rightarrow> Some \<lparr>sa_ip = IpV4 a, sa_port = of_nat p\<rparr>
           | _ \<Rightarrow> None)
      | _ \<Rightarrow> None)"

section \<open>Round trip\<close>

lemma show_nat_length: "length (show_nat n) \<le> k \<longleftrightarrow> 0 < k \<and> n < 10 ^ k"
proof (induction k arbitrary: n)
  case (Suc k)
  show ?case
  proof (cases "n < 10")
    case True
    moreover have "(10::nat) \<le> 10 ^ Suc k" by simp
    ultimately have "n < 10 ^ Suc k" by linarith
    with True show ?thesis by (simp add: show_nat.simps [of n])
  next
    case False
    then have "length (show_nat n) \<le> Suc k \<longleftrightarrow> length (show_nat (n div 10)) \<le> k"
      by (simp add: show_nat.simps [of n])
    also have "\<dots> \<longleftrightarrow> 0 < k \<and> n div 10 < 10 ^ k" by (rule Suc.IH)
    also have "\<dots> \<longleftrightarrow> n < 10 ^ Suc k"
      using False by (cases k) (auto simp: div_less_iff_less_mult mult.commute)
    finally show ?thesis by simp
  qed
qed simp

lemma hd_show_nat: "10 \<le> n \<Longrightarrow> hd (show_nat n) \<noteq> CHR ''0''"
proof (induction n rule: show_nat.induct)
  case (1 n)
  then have hd: "hd (show_nat n) = hd (show_nat (n div 10))" by (simp add: show_nat.simps [of n])
  show ?case
  proof (cases "n div 10 < 10")
    case True
    have "(of_char (digit_char (n div 10)) :: nat) \<noteq> of_char (CHR ''0'')" using True 1(2) by simp
    then have "digit_char (n div 10) \<noteq> CHR ''0''" by metis
    with True show ?thesis by (simp add: hd show_nat.simps [of "n div 10"])
  next
    case False
    with 1 show ?thesis by (simp add: hd)
  qed
qed

lemma parse_octet_show: "n < 256 \<Longrightarrow> parse_octet (show_nat n) = Some n"
proof -
  assume n: "n < 256"
  have "length (show_nat n) \<le> 3" using n by (simp add: show_nat_length)
  moreover have "hd (show_nat n) \<noteq> CHR ''0''" if "1 < length (show_nat n)"
  proof -
    have "\<not> length (show_nat n) \<le> 1" using that by simp
    then have "10 \<le> n" by (simp add: show_nat_length)
    then show ?thesis by (rule hd_show_nat)
  qed
  ultimately show ?thesis
    using show_nat_digits [of n] n by (simp add: parse_octet_def list_all_iff digits_value_show_nat)
qed

lemma parse_port_show: "n < 65536 \<Longrightarrow> parse_port (show_nat n) = Some n"
  using show_nat_digits [of n] by (simp add: parse_port_def list_all_iff digits_value_show_nat)

lemma show_nat_absent: "\<not> is_digit c \<Longrightarrow> c \<notin> set (show_nat n)"
  using show_nat_digits by blast

lemma split_on_join:
  "ps \<noteq> [] \<Longrightarrow> list_all (\<lambda>p. c \<notin> set p) ps \<Longrightarrow> split_on c (join [c] ps) = ps"
  by (induction "[c]" ps rule: join.induct) (simp_all add: split_on_append split_on_absent)

lemma octets_value:
  fixes n :: nat
  assumes "n < 2 ^ 32"
  shows "((n div 256 ^ 3 mod 256 * 256 + n div 256 ^ 2 mod 256) * 256 + n div 256 ^ 1 mod 256) * 256
    + n div 256 ^ 0 mod 256 = n"
proof -
  have "n div 256 ^ 3 < 256" using assms by (simp add: div_less_iff_less_mult)
  then have "n div 256 ^ 3 mod 256 = n div 256 div 256 div 256" by (simp add: div_mult2_eq [symmetric])
  moreover have "n div 256 ^ 2 = n div 256 div 256" by (simp add: div_mult2_eq [symmetric])
  ultimately show ?thesis by (simp add: div_mult_mod_eq)
qed

lemma parse_show_ipv4: "parse_ipv4 (show_ipv4 a) = Some a"
proof -
  have "CHR ''.'' \<notin> set (show_nat n)" for n by (rule show_nat_absent) (simp add: is_digit_def)
  then have "split_on (CHR ''.'') (show_ipv4 a) = map show_nat (ipv4_octets a)"
    unfolding show_ipv4_def by (intro split_on_join) (simp_all add: ipv4_octets_def)
  then have octets: "map parse_octet (split_on (CHR ''.'') (show_ipv4 a)) = map Some (ipv4_octets a)"
    by (simp add: ipv4_octets_def parse_octet_show)
  have n: "unat a < 2 ^ 32" using unsigned_less [of a, where ?'a = nat] by simp
  obtain o3 o2 o1 o0 where o: "ipv4_octets a = [o3, o2, o1, o0]"
    "o3 = unat a div 256 ^ 3 mod 256" "o2 = unat a div 256 ^ 2 mod 256"
    "o1 = unat a div 256 ^ 1 mod 256" "o0 = unat a div 256 ^ 0 mod 256"
    by (simp only: ipv4_octets_def list.map)
  then have "((o3 * 256 + o2) * 256 + o1) * 256 + o0 = unat a" using octets_value [OF n] by (simp only:)
  then show ?thesis using octets o(1) by (simp add: parse_ipv4_def del: of_nat_add of_nat_mult)
qed

text \<open>What the summary prints for an IPv4 socket address parses to the same address.\<close>

lemma parse_show_socket_addr:
  "parse_socket_addr_v4 (show_socket_addr \<lparr>sa_ip = IpV4 a, sa_port = p\<rparr>) = Some \<lparr>sa_ip = IpV4 a, sa_port = p\<rparr>"
proof -
  have absent: "CHR '':'' \<notin> set (show_nat n)" for n by (rule show_nat_absent) (simp add: is_digit_def)
  then have "CHR '':'' \<notin> set (show_ipv4 a)" by (simp add: show_ipv4_def ipv4_octets_def)
  with absent have "split_on (CHR '':'') (show_ipv4 a @ '':'' @ show_word p) = [show_ipv4 a, show_word p]"
    by (simp add: split_on_append split_on_absent show_word_def)
  moreover have "unat p < 65536" using unsigned_less [of p, where ?'a = nat] by simp
  ultimately show "parse_socket_addr_v4 (show_socket_addr \<lparr>sa_ip = IpV4 a, sa_port = p\<rparr>)
      = Some \<lparr>sa_ip = IpV4 a, sa_port = p\<rparr>"
    by (simp add: parse_socket_addr_v4_def show_socket_addr_def parse_show_ipv4 parse_port_show show_word_def)
qed

end
