(* ===== verification/Config.thy ===== *)
theory Config
  imports Urls Addresses
begin

text \<open>
  \<open>src/src/config/parser.rs\<close>: the configuration types, their defaults, and
  \<open>ProxyConfig::validate\<close>. The TOML deserialiser and the file system are parameters. The
  main result is that \<open>validate\<close> accepts exactly the well-formed configurations, and that
  the error it returns otherwise names a defect the configuration has.
\<close>

section \<open>Data\<close>

datatype config_error =
    RouteHasNoPools string
  | PoolHasNoOrigins string string
  | InvalidOriginUrl string string string string
  | HttpsNotSupported string string string
  | InvalidRateLimit
  | DuplicateRouteMatch "string option" "string option"
  | InvalidSocketAddr string string
  | ErrorPagesDirectoryNotFound string

datatype lb_algorithm = RoundRobin | WeightedLatency | WeightedMetrics

record 'u origin_config =
  oc_url :: 'u
  oc_weight :: "u32 option"
  oc_health_check_path :: "string option"

record 'u pool_ref =
  pl_name :: string
  pl_origins :: "'u origin_config list"

record rate_limit_config =
  rl_rate :: u32
  rl_burst :: u32

record 'u route_config =
  match_host :: "string option"
  match_path :: "string option"
  pools :: "'u pool_ref list"
  lb_algorithm :: lb_algorithm
  rt_ratelimit :: "rate_limit_config option"

record active_health_config =
  ah_enabled :: bool
  ah_interval :: duration
  ah_timeout :: duration
  healthy_threshold :: u32
  unhealthy_threshold :: u32

record passive_health_config =
  ph_enabled :: bool
  failure_threshold :: u32
  success_threshold :: u32
  observation_window :: duration

record health_config =
  hc_active :: active_health_config
  hc_passive :: passive_health_config

record kubernetes_config =
  namespace :: "string option"
  label_selector :: "string option"
  poll_interval :: duration

record error_page =
  page_code :: u16
  page_file :: string

record error_pages_config =
  directory :: string
  ep_pages :: "error_page list"

record 'u proxy_config =
  listen :: socket_addr
  metrics_addr :: socket_addr
  routes :: "'u route_config list"
  ratelimit :: "rate_limit_config option"
  health :: health_config
  kubernetes :: "kubernetes_config option"
  cfg_error_pages :: "error_pages_config option"

section \<open>Defaults\<close>

definition from_secs :: "nat \<Rightarrow> duration" where
  "from_secs n = n * nanos_per_sec"

text \<open>Both parse a literal and \<open>unwrap\<close>; \<open>default_addresses\<close> shows that they cannot panic.\<close>

definition default_listen :: socket_addr where
  "default_listen = the (parse_socket_addr_v4 ''0.0.0.0:8080'')"

definition default_metrics_addr :: socket_addr where
  "default_metrics_addr = the (parse_socket_addr_v4 ''0.0.0.0:9090'')"

lemma default_addresses:
  "parse_socket_addr_v4 ''0.0.0.0:8080'' = Some default_listen"
  "parse_socket_addr_v4 ''0.0.0.0:9090'' = Some default_metrics_addr"
  "default_listen = \<lparr>sa_ip = IpV4 0, sa_port = 8080\<rparr>"
  "default_metrics_addr = \<lparr>sa_ip = IpV4 0, sa_port = 9090\<rparr>"
  by code_simp+

definition default_lb_algorithm :: lb_algorithm where
  "default_lb_algorithm = RoundRobin"

definition default_active_health :: active_health_config where
  "default_active_health = \<lparr>ah_enabled = True, ah_interval = from_secs 10,
     ah_timeout = from_secs 5, healthy_threshold = 2, unhealthy_threshold = 3\<rparr>"

definition default_passive_health :: passive_health_config where
  "default_passive_health = \<lparr>ph_enabled = True, failure_threshold = 5,
     success_threshold = 2, observation_window = from_secs 60\<rparr>"

definition default_health :: health_config where
  "default_health = \<lparr>hc_active = default_active_health, hc_passive = default_passive_health\<rparr>"

definition default_poll_interval :: duration where
  "default_poll_interval = from_secs 30"

section \<open>Loading\<close>

definition quoted :: "string \<Rightarrow> string" where
  "quoted s = CHR 0x27 # s @ [CHR 0x27]"

text \<open>\<open>read\<close> is the file system, \<open>from_str\<close> the TOML deserialiser.\<close>

definition load ::
  "(string \<Rightarrow> string option) \<Rightarrow> (string \<Rightarrow> 'u proxy_config option) \<Rightarrow> string
     \<Rightarrow> string + 'u proxy_config" where
  "load read from_str path =
     (case read path of
        None \<Rightarrow> Inl (''failed to read config from '' @ quoted path)
      | Some contents \<Rightarrow>
          (case from_str contents of
             None \<Rightarrow> Inl (''failed to parse TOML from '' @ quoted path)
           | Some config \<Rightarrow> Inr config))"

section \<open>Validation\<close>

definition route_name :: "nat \<Rightarrow> 'u route_config \<Rightarrow> string" where
  "route_name idx r =
     (case match_host r of Some h \<Rightarrow> h
      | None \<Rightarrow> (case match_path r of Some p \<Rightarrow> p | None \<Rightarrow> ''index-'' @ show_nat idx))"

definition match_key :: "'u route_config \<Rightarrow> string option \<times> string option" where
  "match_key r = (match_host r, match_path r)"

definition bad_rate_limit :: "rate_limit_config option \<Rightarrow> bool" where
  "bad_rate_limit rl = (case rl of None \<Rightarrow> False | Some l \<Rightarrow> rl_rate l = 0 \<or> rl_burst l = 0)"

fun check_origins ::
  "'u url_ops \<Rightarrow> string \<Rightarrow> string \<Rightarrow> 'u origin_config list \<Rightarrow> config_error + unit" where
  "check_origins U rn pn [] = Inr ()"
| "check_origins U rn pn (og # ogs) =
     (let scheme = url_scheme U (oc_url og) in
      if scheme \<noteq> ''http'' then
        if scheme = ''https'' then Inl (HttpsNotSupported rn pn (url_to_string U (oc_url og)))
        else Inl (InvalidOriginUrl rn pn (url_to_string U (oc_url og))
                    (''invalid scheme '' @ quoted scheme))
      else check_origins U rn pn ogs)"

fun check_pools :: "'u url_ops \<Rightarrow> string \<Rightarrow> 'u pool_ref list \<Rightarrow> config_error + unit" where
  "check_pools U rn [] = Inr ()"
| "check_pools U rn (p # ps) =
     (if pl_origins p = [] then Inl (PoolHasNoOrigins rn (pl_name p))
      else (case check_origins U rn (pl_name p) (pl_origins p) of
              Inl e \<Rightarrow> Inl e
            | Inr _ \<Rightarrow> check_pools U rn ps))"

fun check_routes ::
  "'u url_ops \<Rightarrow> nat \<Rightarrow> (string option \<times> string option) list \<Rightarrow> 'u route_config list
     \<Rightarrow> config_error + unit" where
  "check_routes U idx seen [] = Inr ()"
| "check_routes U idx seen (r # rs) =
     (if match_key r \<in> set seen then Inl (DuplicateRouteMatch (match_host r) (match_path r))
      else if pools r = [] then Inl (RouteHasNoPools (route_name idx r))
      else (case check_pools U (route_name idx r) (pools r) of
              Inl e \<Rightarrow> Inl e
            | Inr _ \<Rightarrow>
                if bad_rate_limit (rt_ratelimit r) then Inl InvalidRateLimit
                else check_routes U (Suc idx) (seen @ [match_key r]) rs))"

text \<open>\<open>path_exists\<close> is \<open>Path::exists\<close> of the error page directory.\<close>

definition validate ::
  "'u url_ops \<Rightarrow> (string \<Rightarrow> bool) \<Rightarrow> 'u proxy_config \<Rightarrow> config_error + unit" where
  "validate U path_exists c =
     (case check_routes U 0 [] (routes c) of
        Inl e \<Rightarrow> Inl e
      | Inr _ \<Rightarrow>
          if bad_rate_limit (ratelimit c) then Inl InvalidRateLimit
          else (case cfg_error_pages c of
                  None \<Rightarrow> Inr ()
                | Some pg \<Rightarrow>
                    if \<not> path_exists (directory pg)
                    then Inl (ErrorPagesDirectoryNotFound (directory pg))
                    else Inr ()))"

section \<open>What validation means\<close>

definition origin_ok :: "'u url_ops \<Rightarrow> 'u origin_config \<Rightarrow> bool" where
  "origin_ok U og \<longleftrightarrow> url_scheme U (oc_url og) = ''http''"

definition pool_ok :: "'u url_ops \<Rightarrow> 'u pool_ref \<Rightarrow> bool" where
  "pool_ok U p \<longleftrightarrow> pl_origins p \<noteq> [] \<and> list_all (origin_ok U) (pl_origins p)"

definition route_ok :: "'u url_ops \<Rightarrow> 'u route_config \<Rightarrow> bool" where
  "route_ok U r \<longleftrightarrow> pools r \<noteq> [] \<and> list_all (pool_ok U) (pools r) \<and> \<not> bad_rate_limit (rt_ratelimit r)"

definition config_ok :: "'u url_ops \<Rightarrow> (string \<Rightarrow> bool) \<Rightarrow> 'u proxy_config \<Rightarrow> bool" where
  "config_ok U path_exists c \<longleftrightarrow>
     distinct (map match_key (routes c)) \<and> list_all (route_ok U) (routes c) \<and>
     \<not> bad_rate_limit (ratelimit c) \<and>
     (case cfg_error_pages c of None \<Rightarrow> True | Some pg \<Rightarrow> path_exists (directory pg))"

text \<open>The defect an error claims, stated on the configuration.\<close>

fun has_defect :: "'u url_ops \<Rightarrow> (string \<Rightarrow> bool) \<Rightarrow> 'u proxy_config \<Rightarrow> config_error \<Rightarrow> bool" where
  "has_defect U ex c (RouteHasNoPools n) =
     (\<exists>i < length (routes c). pools (routes c ! i) = [] \<and> n = route_name i (routes c ! i))"
| "has_defect U ex c (PoolHasNoOrigins n pn) =
     (\<exists>i < length (routes c). n = route_name i (routes c ! i) \<and>
        (\<exists>p \<in> set (pools (routes c ! i)). pl_name p = pn \<and> pl_origins p = []))"
| "has_defect U ex c (InvalidOriginUrl n pn og reason) =
     (\<exists>i < length (routes c). n = route_name i (routes c ! i) \<and>
        (\<exists>p \<in> set (pools (routes c ! i)). pl_name p = pn \<and>
           (\<exists>x \<in> set (pl_origins p). og = url_to_string U (oc_url x) \<and>
              url_scheme U (oc_url x) \<notin> {''http'', ''https''} \<and>
              reason = ''invalid scheme '' @ quoted (url_scheme U (oc_url x)))))"
| "has_defect U ex c (HttpsNotSupported n pn og) =
     (\<exists>i < length (routes c). n = route_name i (routes c ! i) \<and>
        (\<exists>p \<in> set (pools (routes c ! i)). pl_name p = pn \<and>
           (\<exists>x \<in> set (pl_origins p). og = url_to_string U (oc_url x) \<and>
              url_scheme U (oc_url x) = ''https'')))"
| "has_defect U ex c InvalidRateLimit =
     (bad_rate_limit (ratelimit c) \<or> (\<exists>r \<in> set (routes c). bad_rate_limit (rt_ratelimit r)))"
| "has_defect U ex c (DuplicateRouteMatch h p) =
     (\<exists>i j. i < j \<and> j < length (routes c) \<and> match_key (routes c ! i) = (h, p)
        \<and> match_key (routes c ! j) = (h, p))"
| "has_defect U ex c (InvalidSocketAddr a r) = False"
| "has_defect U ex c (ErrorPagesDirectoryNotFound d) =
     (\<exists>pg. cfg_error_pages c = Some pg \<and> d = directory pg \<and> \<not> ex d)"

section \<open>Correctness of validation\<close>

lemma check_origins_ok: "check_origins U rn pn ogs = Inr () \<longleftrightarrow> list_all (origin_ok U) ogs"
  by (induction ogs) (auto simp: origin_ok_def Let_def)

lemma check_pools_ok: "check_pools U rn ps = Inr () \<longleftrightarrow> list_all (pool_ok U) ps"
proof (induction ps)
  case (Cons p ps)
  with check_origins_ok [of U rn "pl_name p" "pl_origins p"] show ?case
    by (cases "check_origins U rn (pl_name p) (pl_origins p)") (auto simp: pool_ok_def)
qed simp

lemma check_routes_ok:
  "check_routes U idx seen rs = Inr () \<longleftrightarrow>
     distinct (map match_key rs) \<and> set (map match_key rs) \<inter> set seen = {} \<and> list_all (route_ok U) rs"
proof (induction rs arbitrary: idx seen)
  case (Cons r rs)
  have "check_pools U (route_name idx r) (pools r) = Inr () \<longleftrightarrow> list_all (pool_ok U) (pools r)"
    by (rule check_pools_ok)
  with Cons show ?case
    by (cases "check_pools U (route_name idx r) (pools r)") (auto simp: route_ok_def)
qed simp

lemma validate_ok_iff: "validate U path_exists c = Inr () \<longleftrightarrow> config_ok U path_exists c"
  using check_routes_ok [of U 0 "[]" "routes c"]
  by (cases "check_routes U 0 [] (routes c)")
     (auto simp: validate_def config_ok_def split: option.splits)

text \<open>
  C14. Validation is sound and complete: a configuration is accepted exactly when its route
  matches are pairwise different, every route has a pool, every pool an origin, every origin
  an \<open>http\<close> URL, every rate limit is positive and the error page directory exists.
\<close>

theorem validate_accepts_iff: "validate U path_exists c = Inr () \<longleftrightarrow> config_ok U path_exists c"
  by (rule validate_ok_iff)

lemma check_origins_Inl:
  "check_origins U rn pn ogs = Inl e \<Longrightarrow>
     (\<exists>x \<in> set ogs. url_scheme U (oc_url x) = ''https'' \<and>
        e = HttpsNotSupported rn pn (url_to_string U (oc_url x))) \<or>
     (\<exists>x \<in> set ogs. url_scheme U (oc_url x) \<notin> {''http'', ''https''} \<and>
        e = InvalidOriginUrl rn pn (url_to_string U (oc_url x))
              (''invalid scheme '' @ quoted (url_scheme U (oc_url x))))"
  by (induction ogs) (auto simp: Let_def split: if_splits)

lemma check_pools_Inl:
  "check_pools U rn ps = Inl e \<Longrightarrow>
     (\<exists>p \<in> set ps. (pl_origins p = [] \<and> e = PoolHasNoOrigins rn (pl_name p)) \<or>
        check_origins U rn (pl_name p) (pl_origins p) = Inl e)"
  by (induction ps) (auto split: if_splits sum.splits)

text \<open>The loop over the routes, with the routes already passed as a prefix.\<close>

lemma check_routes_Inl:
  assumes "check_routes U (length pre) (map match_key pre) rs = Inl e"
    and "routes c = pre @ rs"
  shows "has_defect U ex c e"
  using assms
proof (induction rs arbitrary: pre)
  case (Cons r rs)
  have nth: "routes c ! length pre = r" and len: "length pre < length (routes c)"
    using Cons.prems(2) by simp_all
  show ?case
  proof (cases "match_key r \<in> set (map match_key pre)")
    case True
    then obtain i where "i < length pre" "match_key (pre ! i) = match_key r"
      by (auto simp: in_set_conv_nth)
    with nth len Cons.prems(2)
    have "\<exists>i j. i < j \<and> j < length (routes c) \<and> match_key (routes c ! i) = match_key r
        \<and> match_key (routes c ! j) = match_key r"
      by (intro exI [of _ i] exI [of _ "length pre"]) (simp add: nth_append)
    moreover have "e = DuplicateRouteMatch (match_host r) (match_path r)"
      using True Cons.prems(1) by simp
    ultimately show ?thesis by (simp add: match_key_def)
  next
    case new: False
    consider (no_pools) "pools r = []"
      | (bad_pool) e' where "pools r \<noteq> []" "check_pools U (route_name (length pre) r) (pools r) = Inl e'"
      | (good) u where "pools r \<noteq> []" "check_pools U (route_name (length pre) r) (pools r) = Inr u"
      by (cases "check_pools U (route_name (length pre) r) (pools r)") auto
    then show ?thesis
    proof cases
      case no_pools
      with new Cons.prems(1) have "e = RouteHasNoPools (route_name (length pre) r)" by simp
      with no_pools nth len show ?thesis by auto
    next
      case bad_pool
      with new Cons.prems(1) have "e = e'" by simp
      with check_pools_Inl [OF bad_pool(2)] nth len show ?thesis
        by (fastforce dest!: check_origins_Inl)
    next
      case good
      show ?thesis
      proof (cases "bad_rate_limit (rt_ratelimit r)")
        case True
        with good new Cons.prems show ?thesis by auto
      next
        case False
        with good new Cons.prems Cons.IH [of "pre @ [r]"] show ?thesis by simp
      qed
    qed
  qed
qed simp

text \<open>
  C15. A rejection is never spurious: the error \<open>validate\<close> returns names the route, pool, origin
  and reason of a defect the configuration really has.
\<close>

theorem validate_error_names_defect:
  "validate U path_exists c = Inl e \<Longrightarrow> has_defect U path_exists c e"
proof -
  assume v: "validate U path_exists c = Inl e"
  show ?thesis
  proof (cases "check_routes U 0 [] (routes c)")
    case (Inl e')
    with v have "e = e'" by (simp add: validate_def)
    with Inl show ?thesis using check_routes_Inl [of U "[]" "routes c" e c] by simp
  next
    case (Inr u)
    with v show ?thesis by (auto simp: validate_def split: if_splits option.splits)
  qed
qed

section \<open>Witnesses\<close>

definition sample_origin :: "string \<Rightarrow> string origin_config" where
  "sample_origin u = \<lparr>oc_url = u, oc_weight = None, oc_health_check_path = None\<rparr>"

definition sample_route :: "string option \<Rightarrow> string option \<Rightarrow> string list \<Rightarrow> string route_config" where
  "sample_route h p us = \<lparr>match_host = h, match_path = p,
     pools = [\<lparr>pl_name = ''backend'', pl_origins = map sample_origin us\<rparr>],
     lb_algorithm = RoundRobin, rt_ratelimit = None\<rparr>"

definition sample_config :: "string route_config list \<Rightarrow> string proxy_config" where
  "sample_config rs = \<lparr>listen = default_listen, metrics_addr = default_metrics_addr, routes = rs,
     ratelimit = None, health = default_health, kubernetes = None, cfg_error_pages = None\<rparr>"

lemma validate_error_names_defect_witness:
  "validate sample_urls (\<lambda>_. True) (sample_config [sample_route None (Some ''/'') [''https://a/'']])
     = Inl (HttpsNotSupported ''/'' ''backend'' ''https://a/'') \<and>
   has_defect sample_urls (\<lambda>_. True) (sample_config [sample_route None (Some ''/'') [''https://a/'']])
     (HttpsNotSupported ''/'' ''backend'' ''https://a/'')"
proof -
  have v: "validate sample_urls (\<lambda>_. True) (sample_config [sample_route None (Some ''/'') [''https://a/'']])
     = Inl (HttpsNotSupported ''/'' ''backend'' ''https://a/'')"
    by (simp add: validate_def sample_config_def sample_route_def sample_origin_def
        sample_scheme_def route_name_def)
  show ?thesis using v validate_error_names_defect [OF v] by (rule conjI)
qed

end
