(* ===== verification/Store.thy ===== *)
theory Store
  imports Prelude
begin

text \<open>
  The keyed stores of the program: \<open>DashMap\<close> (origin states, rate limiters, token buckets,
  error pages) and the \<open>HashMap\<close>/\<open>BTreeMap\<close> of discovery. Each is an association list with
  distinct keys, so that iteration, \<open>len\<close> and \<open>retain\<close> are computed and a lookup is
  \<open>map_of\<close>. The program never depends on the order of iteration.

  The locale \<open>keyed_store\<close> states what a client of such a map relies on; everything the
  components prove about their stores goes through it or through its interpretation \<open>dm\<close>.
\<close>

type_synonym ('k, 'v) store = "('k \<times> 'v) list"

section \<open>Operations\<close>

definition store_empty :: "('k, 'v) store" where
  "store_empty = []"

definition store_get :: "('k, 'v) store \<Rightarrow> 'k \<Rightarrow> 'v option" where
  "store_get m k = map_of m k"

definition store_insert :: "'k \<Rightarrow> 'v \<Rightarrow> ('k, 'v) store \<Rightarrow> ('k, 'v) store" where
  "store_insert k v m = AList.update k v m"

text \<open>\<open>entry(k).or_insert(d)\<close>: an existing value is kept.\<close>

definition store_or_insert :: "'v \<Rightarrow> 'k \<Rightarrow> ('k, 'v) store \<Rightarrow> ('k, 'v) store" where
  "store_or_insert d k m = (case map_of m k of None \<Rightarrow> AList.update k d m | Some _ \<Rightarrow> m)"

text \<open>A change of the value behind a guard returned by \<open>get\<close>; nothing for a missing key.\<close>

definition store_adjust :: "('v \<Rightarrow> 'v) \<Rightarrow> 'k \<Rightarrow> ('k, 'v) store \<Rightarrow> ('k, 'v) store" where
  "store_adjust f k m = (case map_of m k of None \<Rightarrow> m | Some v \<Rightarrow> AList.update k (f v) m)"

definition store_retain :: "('k \<Rightarrow> 'v \<Rightarrow> bool) \<Rightarrow> ('k, 'v) store \<Rightarrow> ('k, 'v) store" where
  "store_retain P m = filter (\<lambda>(k, v). P k v) m"

text \<open>Every value replaced in one pass over \<open>iter()\<close>.\<close>

definition store_map :: "('k \<Rightarrow> 'v \<Rightarrow> 'w) \<Rightarrow> ('k, 'v) store \<Rightarrow> ('k, 'w) store" where
  "store_map f m = map (\<lambda>(k, v). (k, f k v)) m"

definition store_len :: "('k, 'v) store \<Rightarrow> nat" where
  "store_len m = length m"

definition store_ok :: "('k, 'v) store \<Rightarrow> bool" where
  "store_ok m \<longleftrightarrow> distinct (map fst m)"

section \<open>The contract of a keyed store\<close>

locale keyed_store =
  fixes empty :: 'm
    and get :: "'m \<Rightarrow> 'k \<Rightarrow> 'v option"
    and insert :: "'k \<Rightarrow> 'v \<Rightarrow> 'm \<Rightarrow> 'm"
    and or_insert :: "'v \<Rightarrow> 'k \<Rightarrow> 'm \<Rightarrow> 'm"
    and adjust :: "('v \<Rightarrow> 'v) \<Rightarrow> 'k \<Rightarrow> 'm \<Rightarrow> 'm"
    and retain :: "('k \<Rightarrow> 'v \<Rightarrow> bool) \<Rightarrow> 'm \<Rightarrow> 'm"
    and invar :: "'m \<Rightarrow> bool"
  assumes get_empty: "get empty k = None"
    and get_insert: "get (insert k v m) k' = (if k' = k then Some v else get m k')"
    and get_or_insert:
      "get (or_insert d k m) k' =
         (if k' = k then Some (case get m k of None \<Rightarrow> d | Some v \<Rightarrow> v) else get m k')"
    and get_adjust: "get (adjust f k m) k' = (if k' = k then map_option f (get m k) else get m k')"
    and get_retain:
      "invar m \<Longrightarrow> get (retain P m) k =
         (case get m k of None \<Rightarrow> None | Some v \<Rightarrow> if P k v then Some v else None)"
    and invar_empty: "invar empty"
    and invar_insert: "invar m \<Longrightarrow> invar (insert k v m)"
    and invar_or_insert: "invar m \<Longrightarrow> invar (or_insert d k m)"
    and invar_adjust: "invar m \<Longrightarrow> invar (adjust f k m)"
    and invar_retain: "invar m \<Longrightarrow> invar (retain P m)"
begin

text \<open>Registering a list of keys: old values survive, new keys get the default.\<close>

lemma get_fold_or_insert:
  "get (fold (or_insert d) ks m) k =
     (case get m k of Some v \<Rightarrow> Some v | None \<Rightarrow> if k \<in> set ks then Some d else None)"
  by (induction ks arbitrary: m) (auto simp: get_or_insert split: option.splits)

lemma fold_or_insert_keeps: "get m k = Some v \<Longrightarrow> get (fold (or_insert d) ks m) k = Some v"
  by (simp add: get_fold_or_insert)

lemma fold_or_insert_covers: "k \<in> set ks \<Longrightarrow> get (fold (or_insert d) ks m) k \<noteq> None"
  by (simp add: get_fold_or_insert split: option.splits)

lemma invar_fold_or_insert: "invar m \<Longrightarrow> invar (fold (or_insert d) ks m)"
  by (induction ks arbitrary: m) (auto intro: invar_or_insert)

text \<open>Inserting a list of entries: the last one for a key wins.\<close>

lemma get_fold_insert:
  "get (fold (\<lambda>(k, v). insert k v) kvs m) k =
     (case map_of (rev kvs) k of Some v \<Rightarrow> Some v | None \<Rightarrow> get m k)"
  by (induction kvs arbitrary: m)
     (auto simp: get_insert map_add_def split: option.splits)

lemma invar_fold_insert: "invar m \<Longrightarrow> invar (fold (\<lambda>(k, v). insert k v) kvs m)"
  by (induction kvs arbitrary: m) (auto intro: invar_insert)

lemma adjust_domain: "get (adjust f k m) k' = None \<longleftrightarrow> get m k' = None"
  by (auto simp: get_adjust)

end

section \<open>Association lists meet the contract\<close>

lemma map_of_filter_distinct:
  "distinct (map fst m) \<Longrightarrow> map_of (filter (\<lambda>(k, v). P k v) m) k =
     (case map_of m k of None \<Rightarrow> None | Some v \<Rightarrow> if P k v then Some v else None)"
  by (induction m) (force split: option.splits simp: map_of_eq_None_iff image_iff)+

lemma distinct_map_fst_filter: "distinct (map fst m) \<Longrightarrow> distinct (map fst (filter P m))"
  by (induction m) (auto simp: image_iff)

interpretation dm: keyed_store store_empty store_get store_insert store_or_insert store_adjust
  store_retain store_ok
proof (unfold_locales, goal_cases)
  case (5 m P k)
  then show ?case by (simp add: store_ok_def store_get_def store_retain_def map_of_filter_distinct)
qed (auto simp: store_empty_def store_get_def store_insert_def store_or_insert_def
       store_adjust_def store_retain_def store_ok_def update_conv' distinct_update
       distinct_map_fst_filter split: option.splits)

lemmas store_gets = dm.get_empty dm.get_insert dm.get_or_insert dm.get_adjust
lemmas store_invars = dm.invar_empty dm.invar_insert dm.invar_or_insert dm.invar_adjust
  dm.invar_retain dm.invar_fold_or_insert dm.invar_fold_insert

lemma store_map_get: "store_get (store_map f m) k = map_option (f k) (store_get m k)"
  by (induction m) (auto simp: store_map_def store_get_def)

lemma store_map_ok: "store_ok (store_map f m) = store_ok m"
  by (simp add: store_map_def store_ok_def comp_def case_prod_unfold)

lemma store_len_card:
  assumes "store_ok m"
  shows "store_len m = card (dom (store_get m))"
proof -
  have "store_get m = map_of m" by (rule ext) (simp add: store_get_def)
  moreover have "card (set (map fst m)) = length (map fst m)"
    using assms by (intro distinct_card) (simp add: store_ok_def)
  ultimately show ?thesis by (simp add: store_len_def dom_map_of_conv_image_fst)
qed

end
