(* ===== verification/Balance.thy ===== *)
theory Balance
  imports Config Store
begin

text \<open>
  \<open>src/src/balance/mod.rs\<close>: the origin endpoints of a route, the per-origin state, its
  counters, latency average and health flag. Every field of \<open>OriginState\<close> is an atomic; here
  each method is one step, and the counters wrap at their width as \<open>fetch_add\<close> does.
\<close>

section \<open>Data\<close>

record 'u origin_endpoint =
  oe_url :: 'u
  url_key :: string
  url_base :: string
  oe_weight :: "u32 option"
  oe_health_check_path :: "string option"

record origin_state =
  ewma_latency_ns :: u64
  consecutive_successes :: u32
  consecutive_failures :: u32
  total_requests :: u64
  total_failures :: u64
  healthy :: bool

type_synonym origin_states = "(string, origin_state) store"

section \<open>Operations\<close>

definition new_origin_state :: origin_state where
  "new_origin_state = \<lparr>ewma_latency_ns = 0, consecutive_successes = 0, consecutive_failures = 0,
     total_requests = 0, total_failures = 0, healthy = True\<rparr>"

text \<open>The arithmetic of the average: \<open>(sample + 9 * old) / 10\<close> in \<open>u64\<close>.\<close>

definition ewma :: "u64 \<Rightarrow> u64 \<Rightarrow> u64" where
  "ewma sample_ns old = (sample_ns + 9 * old) div 10"

text \<open>
  The compare-and-exchange loop. \<open>seen\<close> is the last value read; \<open>others\<close> lists, for each turn
  of the loop, whether the weak exchange fails spuriously and the value the location holds by
  then. A turn succeeds when the location still holds \<open>seen\<close> and the exchange does not fail
  spuriously; the result is the value written and the number of turns, or \<open>None\<close> while no
  turn has succeeded.
\<close>

fun cas_loop :: "u64 \<Rightarrow> u64 \<Rightarrow> (bool \<times> u64) list \<Rightarrow> (u64 \<times> u64) option" where
  "cas_loop sample_ns seen [] = None"
| "cas_loop sample_ns seen ((spurious, actual) # turns) =
     (let new = ewma sample_ns seen in
      if actual = seen \<and> \<not> spurious then Some (actual, new)
      else cas_loop sample_ns actual turns)"

definition record_latency :: "duration \<Rightarrow> origin_state \<Rightarrow> origin_state" where
  "record_latency latency s =
     (let sample_ns = of_nat latency in
      s\<lparr>ewma_latency_ns := ewma sample_ns (ewma_latency_ns s)\<rparr>)"

definition record_success_with_threshold :: "u32 \<Rightarrow> origin_state \<Rightarrow> origin_state" where
  "record_success_with_threshold threshold s =
     (let successes = consecutive_successes s + 1;
          s1 = s\<lparr>consecutive_successes := consecutive_successes s + 1\<rparr>;
          s2 = s1\<lparr>consecutive_failures := 0\<rparr>
      in if threshold \<le> successes then s2\<lparr>healthy := True\<rparr> else s2)"

definition record_failure_with_threshold :: "u32 \<Rightarrow> origin_state \<Rightarrow> origin_state" where
  "record_failure_with_threshold threshold s =
     (let failures = consecutive_failures s + 1;
          s1 = s\<lparr>consecutive_failures := consecutive_failures s + 1\<rparr>;
          s2 = s1\<lparr>consecutive_successes := 0\<rparr>;
          s3 = s2\<lparr>total_failures := total_failures s + 1\<rparr>
      in if threshold \<le> failures then s3\<lparr>healthy := False\<rparr> else s3)"

definition record_success :: "origin_state \<Rightarrow> origin_state" where
  "record_success s = record_success_with_threshold 2 s"

definition record_failure :: "origin_state \<Rightarrow> origin_state" where
  "record_failure s = record_failure_with_threshold 5 s"

definition increment_requests :: "origin_state \<Rightarrow> origin_state" where
  "increment_requests s = s\<lparr>total_requests := total_requests s + 1\<rparr>"

section \<open>What each operation touches\<close>

lemma record_success_fields [health_simps]:
  "consecutive_successes (record_success_with_threshold t s) = consecutive_successes s + 1"
  "consecutive_failures (record_success_with_threshold t s) = 0"
  "healthy (record_success_with_threshold t s) \<longleftrightarrow> healthy s \<or> t \<le> consecutive_successes s + 1"
  "total_failures (record_success_with_threshold t s) = total_failures s"
  "total_requests (record_success_with_threshold t s) = total_requests s"
  "ewma_latency_ns (record_success_with_threshold t s) = ewma_latency_ns s"
  by (simp_all add: record_success_with_threshold_def Let_def)

lemma record_failure_fields [health_simps]:
  "consecutive_failures (record_failure_with_threshold t s) = consecutive_failures s + 1"
  "consecutive_successes (record_failure_with_threshold t s) = 0"
  "healthy (record_failure_with_threshold t s) \<longleftrightarrow> healthy s \<and> \<not> t \<le> consecutive_failures s + 1"
  "total_failures (record_failure_with_threshold t s) = total_failures s + 1"
  "total_requests (record_failure_with_threshold t s) = total_requests s"
  "ewma_latency_ns (record_failure_with_threshold t s) = ewma_latency_ns s"
  by (simp_all add: record_failure_with_threshold_def Let_def)

lemma record_latency_fields [health_simps]:
  "consecutive_failures (record_latency d s) = consecutive_failures s"
  "consecutive_successes (record_latency d s) = consecutive_successes s"
  "healthy (record_latency d s) = healthy s"
  "total_failures (record_latency d s) = total_failures s"
  "total_requests (record_latency d s) = total_requests s"
  "ewma_latency_ns (record_latency d s) = ewma (of_nat d) (ewma_latency_ns s)"
  by (simp_all add: record_latency_def Let_def)

lemma increment_requests_fields [health_simps]:
  "consecutive_failures (increment_requests s) = consecutive_failures s"
  "consecutive_successes (increment_requests s) = consecutive_successes s"
  "healthy (increment_requests s) = healthy s"
  "total_failures (increment_requests s) = total_failures s"
  "total_requests (increment_requests s) = total_requests s + 1"
  "ewma_latency_ns (increment_requests s) = ewma_latency_ns s"
  by (simp_all add: increment_requests_def)

section \<open>The latency average\<close>

text \<open>Below this bound the intermediate value does not wrap.\<close>

definition ewma_bound :: nat where
  "ewma_bound = 2 ^ 64 div 10"

lemma unat_ewma:
  assumes "unat sample \<le> ewma_bound" and "unat old \<le> ewma_bound"
  shows "unat (ewma sample old) = (unat sample + 9 * unat old) div 10"
proof -
  have b: "unat sample + 9 * unat old < 2 ^ 64"
    using assms by (simp add: ewma_bound_def)
  then have "unat (9 * old) = 9 * unat old"
    by (simp add: unat_word_ariths)
  with b have "unat (sample + 9 * old) = unat sample + 9 * unat old"
    by (simp add: unat_word_ariths)
  then show ?thesis by (simp add: ewma_def unat_div)
qed

lemma ewma_between_bounds:
  assumes "unat sample \<le> ewma_bound" and "unat old \<le> ewma_bound"
  shows "min (unat sample) (unat old) \<le> unat (ewma sample old) \<and>
         unat (ewma sample old) \<le> max (unat sample) (unat old)"
  unfolding unat_ewma [OF assms] by linarith

lemma ewma_step_distance:
  assumes s: "unat s \<le> ewma_bound" and v: "unat v \<le> ewma_bound"
  shows "unat s \<le> unat v \<Longrightarrow> unat s \<le> unat (ewma s v) \<and> unat (ewma s v) - unat s \<le> unat v - unat s - 1"
    and "unat v \<le> unat s \<Longrightarrow> unat (ewma s v) \<le> unat s \<and>
           unat s - unat (ewma s v) \<le> max 9 (unat s - unat v - 1)"
  unfolding unat_ewma [OF s v] by linarith+

lemma ewma_iterate:
  assumes s: "unat s \<le> ewma_bound" and v: "unat v \<le> ewma_bound"
  shows "unat ((ewma s ^^ n) v) \<le> ewma_bound \<and>
    (if unat s \<le> unat v
     then unat s \<le> unat ((ewma s ^^ n) v) \<and> unat ((ewma s ^^ n) v) - unat s \<le> unat v - unat s - n
     else unat ((ewma s ^^ n) v) \<le> unat s \<and> unat s - unat ((ewma s ^^ n) v) \<le> max 9 (unat s - unat v - n))"
proof (induction n)
  case (Suc n)
  define w where "w = (ewma s ^^ n) v"
  have w: "unat w \<le> ewma_bound" using Suc by (simp add: w_def)
  have "unat (ewma s w) \<le> ewma_bound" using ewma_between_bounds [OF s w] s w by linarith
  moreover have "(ewma s ^^ Suc n) v = ewma s w" by (simp add: w_def)
  ultimately show ?case
    using Suc ewma_step_distance [OF s w] unfolding w_def [symmetric] by (auto split: if_splits)
qed (use v in auto)

text \<open>
  Under a constant latency the average settles: from above it reaches the sample exactly,
  from below it comes to within 9 nanoseconds and stays there, after at most as many samples as
  the initial distance.
\<close>

theorem ewma_settles:
  assumes "unat s \<le> ewma_bound" and "unat v \<le> ewma_bound"
    and "max (unat v - unat s) (unat s - unat v) \<le> n"
  shows "unat s - 9 \<le> unat ((ewma s ^^ n) v) \<and> unat ((ewma s ^^ n) v) \<le> unat s"
  using ewma_iterate [OF assms(1,2), of n] assms(3) by (auto split: if_splits)

lemma ewma_settles_witness:
  "unat (100 :: u64) - 9 \<le> unat ((ewma 100 ^^ 200) 250) \<and> unat ((ewma 100 ^^ 200) 250) \<le> unat (100 :: u64)"
  by (rule ewma_settles) (simp_all add: ewma_bound_def)

section \<open>The compare-and-exchange loop\<close>

text \<open>
  No update is lost: whatever other threads write between the load and the exchange, and
  however often the weak exchange fails spuriously, the value the loop finally writes is the
  average of the sample with the value it replaces.
\<close>

theorem cas_loop_no_lost_update:
  "cas_loop sample seen turns = Some (replaced, written) \<Longrightarrow>
     written = ewma sample replaced \<and> (False, replaced) \<in> set turns"
  by (induction sample seen turns rule: cas_loop.induct) (auto simp: Let_def split: if_splits)

lemma cas_loop_no_lost_update_witness:
  "cas_loop 1000 500 [(False, 700), (True, 700), (False, 700)] = Some (700, 730) \<and>
   730 = ewma 1000 700"
proof -
  have run: "cas_loop 1000 500 [(False, 700), (True, 700), (False, 700)] = Some (700, 730)"
    by (simp add: ewma_def)
  show ?thesis using run cas_loop_no_lost_update [OF run] by blast
qed

text \<open>
  The loop ends as soon as one turn is undisturbed: two consecutive turns see the same
  value and the second exchange does not fail spuriously. Alone, it is \<open>record_latency\<close>.
\<close>

theorem cas_loop_terminates:
  "cas_loop sample seen (turns @ (b, v) # (False, v) # rest) \<noteq> None \<and>
   cas_loop (of_nat d) (ewma_latency_ns s) (replicate k (True, ewma_latency_ns s) @ [(False, ewma_latency_ns s)])
     = Some (ewma_latency_ns s, ewma_latency_ns (record_latency d s))"
proof
  show "cas_loop sample seen (turns @ (b, v) # (False, v) # rest) \<noteq> None"
    by (induction turns arbitrary: seen) (auto simp: Let_def)
  show "cas_loop (of_nat d) (ewma_latency_ns s)
      (replicate k (True, ewma_latency_ns s) @ [(False, ewma_latency_ns s)])
     = Some (ewma_latency_ns s, ewma_latency_ns (record_latency d s))"
    by (induction k) (auto simp: Let_def health_simps)
qed

section \<open>The health flag as a function of the history\<close>

text \<open>
  The contract: a tracker with two thresholds is driven by successes (\<open>True\<close>) and failures
  (\<open>False\<close>). What it promises is stated on the history alone: the length of the current run of
  equal outcomes, and an origin is up unless some run of failures reached its threshold and
  no run of successes has reached its own since.
\<close>

definition streak :: "bool \<Rightarrow> bool list \<Rightarrow> nat" where
  "streak b h = length (takeWhile (\<lambda>x. x = b) (rev h))"

definition reaches :: "nat \<Rightarrow> bool \<Rightarrow> bool list \<Rightarrow> bool" where
  "reaches n b h \<longleftrightarrow> 0 < streak b h \<and> n \<le> streak b h"

definition up_spec :: "nat \<Rightarrow> nat \<Rightarrow> bool list \<Rightarrow> bool" where
  "up_spec st ft h \<longleftrightarrow>
     (\<forall>i \<le> length h. reaches ft False (take i h) \<longrightarrow>
        (\<exists>j \<le> length h. i < j \<and> reaches st True (take j h)))"

lemma streak_Nil [simp]: "streak b [] = 0"
  by (simp add: streak_def)

lemma streak_snoc [simp]: "streak b (h @ [c]) = (if c = b then Suc (streak b h) else 0)"
  by (simp add: streak_def)

lemma streak_le: "streak b h \<le> length h"
  unfolding streak_def by (metis length_rev length_takeWhile_le)

lemma reaches_snoc: "reaches n b (h @ [c]) \<longleftrightarrow> c = b \<and> n \<le> Suc (streak b h)"
  by (simp add: reaches_def)

lemma up_spec_Nil [simp]: "up_spec st ft []"
  by (simp add: up_spec_def reaches_def)

lemma up_spec_snoc:
  "up_spec st ft (h @ [b]) \<longleftrightarrow>
     (if b then up_spec st ft h \<or> st \<le> Suc (streak True h)
      else up_spec st ft h \<and> \<not> ft \<le> Suc (streak False h))"
proof -
  have split: "(\<forall>i \<le> Suc n. P i) \<longleftrightarrow> (\<forall>i \<le> n. P i) \<and> P (Suc n)"
    "(\<exists>i \<le> Suc n. P i) \<longleftrightarrow> (\<exists>i \<le> n. P i) \<or> P (Suc n)" for n P
    by (auto simp: le_Suc_eq)
  show ?thesis
    by (simp add: up_spec_def split reaches_snoc cong: conj_cong) (auto dest: le_less_trans)
qed

locale streak_tracker =
  fixes ok fail :: "'s \<Rightarrow> 's"
    and succs fails :: "'s \<Rightarrow> nat"
    and up :: "'s \<Rightarrow> bool"
    and st ft cap :: nat
  assumes succs_ok: "Suc (succs s) < cap \<Longrightarrow> succs (ok s) = Suc (succs s)"
    and fails_ok: "fails (ok s) = 0"
    and up_ok: "Suc (succs s) < cap \<Longrightarrow> up (ok s) \<longleftrightarrow> up s \<or> st \<le> Suc (succs s)"
    and fails_fail: "Suc (fails s) < cap \<Longrightarrow> fails (fail s) = Suc (fails s)"
    and succs_fail: "succs (fail s) = 0"
    and up_fail: "Suc (fails s) < cap \<Longrightarrow> up (fail s) \<longleftrightarrow> up s \<and> \<not> ft \<le> Suc (fails s)"
begin

lemma run_spec:
  assumes "succs s = 0" and "fails s = 0" and "up s" and "length h < cap"
  shows "succs (fold (\<lambda>b. if b then ok else fail) h s) = streak True h \<and>
         fails (fold (\<lambda>b. if b then ok else fail) h s) = streak False h \<and>
         (up (fold (\<lambda>b. if b then ok else fail) h s) \<longleftrightarrow> up_spec st ft h)"
  using assms(4)
proof (induction h rule: rev_induct)
  case (snoc b h)
  have "Suc (streak True h) < cap" "Suc (streak False h) < cap"
    using snoc.prems streak_le [of True h] streak_le [of False h] by auto
  with snoc show ?case
    by (cases b) (simp_all add: succs_ok fails_ok up_ok fails_fail succs_fail up_fail up_spec_snoc)
qed (use assms in auto)

end

lemma unat_Suc_u32: "Suc (unat (x :: u32)) < 2 ^ 32 \<Longrightarrow> unat (x + 1) = Suc (unat x)"
  by (simp add: unat_word_ariths)

interpretation tracker: streak_tracker "record_success_with_threshold st" "record_failure_with_threshold ft"
  "\<lambda>s. unat (consecutive_successes s)" "\<lambda>s. unat (consecutive_failures s)" healthy
  "unat st" "unat ft" "2 ^ 32" for st ft :: u32
  by unfold_locales (auto simp: health_simps unat_Suc_u32 word_le_nat_alt)

definition record_outcomes :: "u32 \<Rightarrow> u32 \<Rightarrow> bool list \<Rightarrow> origin_state \<Rightarrow> origin_state" where
  "record_outcomes st ft h s =
     fold (\<lambda>b. if b then record_success_with_threshold st else record_failure_with_threshold ft) h s"

text \<open>
  The counters and the flag refine the history: after any sequence of fewer than \<open>2 ^ 32\<close>
  outcomes on a new origin, the counters are the lengths of the current runs, and the origin is
  healthy exactly when no run of failures has reached its threshold without a later run of
  successes reaching its own.
\<close>

theorem health_refines_history:
  assumes "length h < 2 ^ 32"
  shows "unat (consecutive_successes (record_outcomes st ft h new_origin_state)) = streak True h \<and>
         unat (consecutive_failures (record_outcomes st ft h new_origin_state)) = streak False h \<and>
         (healthy (record_outcomes st ft h new_origin_state) \<longleftrightarrow> up_spec (unat st) (unat ft) h)"
  unfolding record_outcomes_def using assms
  by (intro tracker.run_spec) (simp_all add: new_origin_state_def)

lemma health_refines_history_witness:
  "\<not> healthy (record_outcomes 2 3 [True, False, False, False, True] new_origin_state) \<and>
   \<not> up_spec 2 3 [True, False, False, False, True]"
proof -
  have "\<not> healthy (record_outcomes 2 3 [True, False, False, False, True] new_origin_state)"
    by (simp add: record_outcomes_def new_origin_state_def health_simps word_le_nat_alt)
  with health_refines_history [of "[True, False, False, False, True]" 2 3] show ?thesis by simp
qed

text \<open>The two counters are never both positive.\<close>

lemma record_outcomes_exclusive:
  "h \<noteq> [] \<Longrightarrow> consecutive_successes (record_outcomes st ft h s) = 0 \<or>
    consecutive_failures (record_outcomes st ft h s) = 0"
  by (cases h rule: rev_cases) (auto simp: record_outcomes_def health_simps)

lemma record_outcomes_append:
  "record_outcomes st ft (h1 @ h2) s = record_outcomes st ft h2 (record_outcomes st ft h1 s)"
  by (simp add: record_outcomes_def)

end
