(* ===== verification/Float64.thy ===== *)
theory Float64
  imports Prelude
begin

text \<open>
  Rust's \<open>f64\<close>: the finite IEEE 754 binary64 values as rationals, with every operation
  followed by \<open>fl\<close>, rounding to nearest, ties to even, at 53 bits of precision and with
  the smallest exponent \<open>-1074\<close>. The program only adds, subtracts, multiplies and divides
  non-negative values below \<open>2 ^ 128\<close> and never divides by zero, so infinities and NaN
  do not arise from it and are not represented; neither is the sign of zero.

  The laws the components rely on (monotone, exact on integers up to \<open>2 ^ 53\<close>, a relative
  error of at most \<open>2 ^ -53\<close>, a product with a factor below one stays below) are the locale
  \<open>rounding\<close>; it is interpreted on \<open>fl\<close> itself.
\<close>

type_synonym f64 = rat

section \<open>Rounding to nearest, ties to even\<close>

definition rne :: "rat \<Rightarrow> int" where
  "rne x = (let k = \<lfloor>x\<rfloor>; r = x - of_int k
            in if r < 1 / 2 then k
               else if 1 / 2 < r then k + 1
               else if even k then k else k + 1)"

lemma rne_of_int [simp]: "rne (of_int k) = k"
  by (simp add: rne_def)

lemma rne_cases: "rne x = \<lfloor>x\<rfloor> \<or> rne x = \<lfloor>x\<rfloor> + 1 \<and> 1 / 2 \<le> x - of_int \<lfloor>x\<rfloor>"
  by (auto simp: rne_def Let_def)

lemma rne_error: "\<bar>of_int (rne x) - x\<bar> \<le> 1 / 2"
proof -
  have "of_int \<lfloor>x\<rfloor> \<le> x" and "x < of_int \<lfloor>x\<rfloor> + 1" by linarith+
  then show ?thesis by (auto simp: rne_def Let_def abs_le_iff field_simps)
qed

lemma rne_mono: "x \<le> y \<Longrightarrow> rne x \<le> rne y"
proof -
  assume le: "x \<le> y"
  then have fl: "\<lfloor>x\<rfloor> \<le> \<lfloor>y\<rfloor>" by (rule floor_mono)
  show ?thesis
  proof (cases "\<lfloor>x\<rfloor> = \<lfloor>y\<rfloor>")
    case True
    with le show ?thesis by (auto simp: rne_def Let_def)
  next
    case False
    with fl have "\<lfloor>x\<rfloor> + 1 \<le> \<lfloor>y\<rfloor>" by simp
    then show ?thesis using rne_cases [of x] rne_cases [of y] by linarith
  qed
qed

lemma rne_le_int: "x \<le> of_int k \<Longrightarrow> rne x \<le> k"
  using rne_mono [of x "of_int k"] by simp

lemma rne_ge_int: "of_int k \<le> x \<Longrightarrow> k \<le> rne x"
  using rne_mono [of "of_int k" x] by simp

section \<open>The binary exponent of a positive rational\<close>

definition exponent2 :: "rat \<Rightarrow> int" where
  "exponent2 x =
     (let (p, q) = quotient_of x;
          e = bitlen p - bitlen q
      in if 2 powi e \<le> x then e else e - 1)"

lemma floorlog2_bounds:
  assumes "0 < n"
  shows "(2::rat) powi (int (floorlog 2 n) - 1) \<le> of_nat n"
    and "of_nat n < (2::rat) powi int (floorlog 2 n)"
proof -
  define k where "k = floorlog 2 n"
  have k: "0 < k" using assms by (simp add: k_def floorlog_def)
  have "2 ^ (k - 1) \<le> n \<and> n < 2 ^ k"
    using floorlog_bounds [of n 2] assms by (simp add: k_def)
  then have "(of_nat (2 ^ (k - 1)) :: rat) \<le> of_nat n \<and> (of_nat n :: rat) < of_nat (2 ^ k)"
    by (simp only: of_nat_le_iff of_nat_less_iff)
  moreover have "int k - 1 = int (k - 1)" using k by simp
  ultimately show "(2::rat) powi (int (floorlog 2 n) - 1) \<le> of_nat n"
    and "of_nat n < (2::rat) powi int (floorlog 2 n)"
    unfolding k_def by (metis of_nat_power of_nat_numeral power_int_of_nat)+
qed

lemma exponent2_bounds:
  assumes "0 < x"
  shows "2 powi (exponent2 x) \<le> x" and "x < 2 powi (exponent2 x + 1)"
proof -
  obtain p q where pq: "quotient_of x = (p, q)" by (cases "quotient_of x")
  have q: "0 < q" using quotient_of_denom_pos [OF pq] .
  have x: "x = of_int p / of_int q" using quotient_of_div [OF pq] .
  with assms q have p: "0 < p" by (simp add: zero_less_divide_iff)
  define a where "a = int (floorlog 2 (nat p))"
  define b where "b = int (floorlog 2 (nat q))"
  have pb: "(2::rat) powi (a - 1) \<le> of_int p" "of_int p < (2::rat) powi a"
    using floorlog2_bounds [of "nat p"] p by (simp_all add: a_def)
  have qb: "(2::rat) powi (b - 1) \<le> of_int q" "of_int q < (2::rat) powi b"
    using floorlog2_bounds [of "nat q"] q by (simp_all add: b_def)
  have "(2::rat) powi (a - 1) / 2 powi b \<le> of_int p / of_int q"
    using pb qb q p by (intro frac_le) auto
  moreover have "(2::rat) powi (a - b - 1) = 2 powi (a - 1) / 2 powi b"
    using power_int_diff [of "2::rat" "a - 1" b] by (simp add: algebra_simps)
  ultimately have lo: "2 powi (a - b - 1) \<le> x" by (simp only: x)
  have "of_int p / of_int q < (2::rat) powi a / 2 powi (b - 1)"
    using pb qb q p by (intro frac_less) auto
  moreover have "(2::rat) powi (a - b + 1) = 2 powi a / 2 powi (b - 1)"
    using power_int_diff [of "2::rat" a "b - 1"] by (simp add: algebra_simps)
  ultimately have hi: "x < 2 powi (a - b + 1)" by (simp only: x)
  have e: "exponent2 x = (if 2 powi (a - b) \<le> x then a - b else a - b - 1)"
    by (simp add: exponent2_def pq a_def b_def bitlen_def)
  show "2 powi (exponent2 x) \<le> x" using lo by (simp add: e)
  show "x < 2 powi (exponent2 x + 1)" using hi by (simp add: e)
qed

lemma powi2_mono: "m \<le> n \<Longrightarrow> (2::rat) powi m \<le> 2 powi n"
  by (rule power_int_increasing) auto

lemma powi2_less_iff: "(2::rat) powi m < 2 powi n \<longleftrightarrow> m < n"
  by (metis linorder_not_less one_less_numeral_iff power_int_strict_increasing powi2_mono semiring_norm(76))

lemma exponent2_ge: "2 powi k \<le> x \<Longrightarrow> k \<le> exponent2 x"
proof -
  assume k: "2 powi k \<le> x"
  then have "0 < x" by (rule less_le_trans [rotated]) simp
  then have "2 powi k < (2::rat) powi (exponent2 x + 1)"
    using exponent2_bounds(2) k by (rule_tac le_less_trans)
  then show ?thesis by (simp add: powi2_less_iff)
qed

lemma exponent2_less: "0 < x \<Longrightarrow> x < 2 powi k \<Longrightarrow> exponent2 x < k"
proof -
  assume "0 < x" and "x < 2 powi k"
  then have "(2::rat) powi exponent2 x < 2 powi k"
    using exponent2_bounds(1) by (rule_tac le_less_trans)
  then show ?thesis by (simp add: powi2_less_iff)
qed

lemma exponent2_mono: "0 < x \<Longrightarrow> x \<le> y \<Longrightarrow> exponent2 x \<le> exponent2 y"
  using exponent2_ge [of "exponent2 x" y] exponent2_bounds(1) [of x] by auto

section \<open>Rounding to binary64\<close>

text \<open>The exponent of the last place of the result, clamped to the subnormal range.\<close>

definition ulp_exp :: "rat \<Rightarrow> int" where
  "ulp_exp x = max (exponent2 x - 52) (-1074)"

definition fl :: "rat \<Rightarrow> f64" where
  "fl x = (if x = 0 then 0
           else let e = ulp_exp \<bar>x\<bar>
                in sgn x * (of_int (rne (\<bar>x\<bar> / 2 powi e)) * 2 powi e))"

definition is_f64 :: "rat \<Rightarrow> bool" where
  "is_f64 x \<longleftrightarrow> fl x = x"

lemma fl_pos: "0 < x \<Longrightarrow> fl x = of_int (rne (x / 2 powi ulp_exp x)) * 2 powi ulp_exp x"
  by (simp add: fl_def Let_def)

lemma fl_0 [simp]: "fl 0 = 0"
  by (simp add: fl_def)

lemma fl_uminus: "fl (- x) = - fl x"
  by (simp add: fl_def Let_def)

lemma ulp_exp_mono: "0 < x \<Longrightarrow> x \<le> y \<Longrightarrow> ulp_exp x \<le> ulp_exp y"
  unfolding ulp_exp_def using exponent2_mono by (intro max.mono) auto

text \<open>A multiple of a power of two at least the last place is on the grid.\<close>

lemma grid_div:
  assumes "e \<le> e'"
  shows "of_int k * (2::rat) powi e' / 2 powi e = of_int (k * 2 ^ nat (e' - e))"
proof -
  have "(2::rat) powi e' / 2 powi e = 2 powi (e' - e)" by (simp add: power_int_diff)
  also have "\<dots> = 2 ^ nat (e' - e)" using assms by (simp add: power_int_def)
  finally show ?thesis by (simp add: field_simps)
qed

lemma fl_le_grid:
  assumes "0 < x" and "x \<le> of_int k * 2 powi e'" and e: "ulp_exp x \<le> e'"
  shows "fl x \<le> of_int k * 2 powi e'"
proof -
  have "x / 2 powi ulp_exp x \<le> of_int k * 2 powi e' / 2 powi ulp_exp x"
    using assms by (intro divide_right_mono) auto
  then have "rne (x / 2 powi ulp_exp x) \<le> k * 2 ^ nat (e' - ulp_exp x)"
    unfolding grid_div [OF e] by (rule rne_le_int)
  then have "(of_int (rne (x / 2 powi ulp_exp x)) :: rat) \<le> of_int (k * 2 ^ nat (e' - ulp_exp x))"
    by (simp only: of_int_le_iff)
  then show ?thesis
    unfolding grid_div [OF e, symmetric] using assms by (simp add: fl_pos field_simps)
qed

lemma fl_ge_grid:
  assumes "0 < x" and "of_int k * 2 powi e' \<le> x" and e: "ulp_exp x \<le> e'"
  shows "of_int k * 2 powi e' \<le> fl x"
proof -
  have "of_int k * 2 powi e' / 2 powi ulp_exp x \<le> x / 2 powi ulp_exp x"
    using assms by (intro divide_right_mono) auto
  then have "k * 2 ^ nat (e' - ulp_exp x) \<le> rne (x / 2 powi ulp_exp x)"
    unfolding grid_div [OF e] by (rule rne_ge_int)
  then have "of_int (k * 2 ^ nat (e' - ulp_exp x)) \<le> (of_int (rne (x / 2 powi ulp_exp x)) :: rat)"
    by (simp only: of_int_le_iff)
  then show ?thesis
    unfolding grid_div [OF e, symmetric] using assms by (simp add: fl_pos field_simps)
qed

lemma fl_grid:
  assumes "x = of_int k * 2 powi e'" and "0 < x" and "ulp_exp x \<le> e'"
  shows "fl x = x"
  using fl_le_grid [of x k e'] fl_ge_grid [of x k e'] assms by simp

lemma fl_nonneg_pos: "0 < x \<Longrightarrow> 0 \<le> fl x"
  using rne_ge_int [of 0 "x / 2 powi ulp_exp x"] by (simp add: fl_pos)

lemma fl_mono_pos:
  assumes "0 < x" and "x \<le> y"
  shows "fl x \<le> fl y"
proof (cases "ulp_exp x = ulp_exp y")
  case True
  have "x / 2 powi ulp_exp x \<le> y / 2 powi ulp_exp x"
    using assms by (intro divide_right_mono) auto
  then have "rne (x / 2 powi ulp_exp x) \<le> rne (y / 2 powi ulp_exp x)" by (rule rne_mono)
  with assms True show ?thesis by (simp add: fl_pos)
next
  case False
  with ulp_exp_mono [OF assms] have less: "ulp_exp x < ulp_exp y" by simp
  then have ey: "ulp_exp y = exponent2 y - 52" and ex: "exponent2 x < exponent2 y"
    by (auto simp: ulp_exp_def split: if_splits simp: max_def)
  have "x < 2 powi (exponent2 x + 1)" using assms(1) by (rule exponent2_bounds)
  also have "\<dots> \<le> 2 powi exponent2 y" using ex by (intro powi2_mono) simp
  finally have "fl x \<le> of_int 1 * 2 powi exponent2 y"
    using assms(1) less ey by (intro fl_le_grid) auto
  also have "\<dots> \<le> fl y"
    using assms ey exponent2_bounds(1) [of y] by (intro fl_ge_grid) auto
  finally show ?thesis .
qed

lemma fl_mono: "x \<le> y \<Longrightarrow> fl x \<le> fl y"
proof -
  assume le: "x \<le> y"
  consider "0 < x" | "y < 0" | "x = 0" | "y = 0" | "x < 0" "0 < y" using le by linarith
  then show ?thesis
  proof cases
    case 2
    then show ?thesis using fl_mono_pos [of "- y" "- x"] le by (simp add: fl_uminus)
  next
    case 4
    then show ?thesis using fl_nonneg_pos [of "- x"] le by (cases "x = 0") (auto simp: fl_uminus)
  next
    case 5
    then show ?thesis using fl_nonneg_pos [of "- x"] fl_nonneg_pos [of y] by (simp add: fl_uminus)
  qed (use le fl_mono_pos fl_nonneg_pos in \<open>auto simp: le_less\<close>)
qed

lemma fl_of_nat: "n \<le> 2 ^ 53 \<Longrightarrow> fl (of_nat n) = of_nat n"
proof -
  assume n: "n \<le> 2 ^ 53"
  consider "n = 0" | "n = 2 ^ 53" | "0 < n" "n < 2 ^ 53" using n by linarith
  then show ?thesis
  proof cases
    case 2
    have "exponent2 (2 powi 53) < 54" by (rule exponent2_less) (auto simp: powi2_less_iff)
    then have "fl (2 powi 53) = 2 powi 53"
      by (intro fl_grid [where k = 1 and e' = 53]) (auto simp: ulp_exp_def)
    with 2 show ?thesis by (simp add: power_int_def)
  next
    case 3
    then have "(of_nat n :: rat) < of_nat (2 ^ 53)" by (simp only: of_nat_less_iff)
    then have "exponent2 (of_nat n) < 53" using 3 by (intro exponent2_less) (auto simp: power_int_def)
    then show ?thesis
      using 3 by (intro fl_grid [where k = "int n" and e' = 0]) (auto simp: ulp_exp_def)
  qed simp
qed

section \<open>Errors\<close>

text \<open>Half the distance from 1 to the next value, and the least value with full precision.\<close>

definition unit_roundoff :: rat where
  "unit_roundoff = 2 powi (-53)"

definition min_normal :: rat where
  "min_normal = 2 powi (-1022)"

lemma unit_roundoff_eq: "unit_roundoff = 1 / 9007199254740992"
  by (simp add: unit_roundoff_def power_int_def power_divide)

lemma unit_roundoff_nonneg [simp]: "0 \<le> unit_roundoff"
  by (simp add: unit_roundoff_def)

lemma min_normal_pos [simp]: "0 < min_normal"
  by (simp add: min_normal_def)

lemma min_normal_tiny: "min_normal \<le> 1 / 2 ^ 512"
  using powi2_mono [of "-1022" "-512"] by (simp add: min_normal_def power_int_def power_divide)

lemma fl_error_ulp: "0 < x \<Longrightarrow> \<bar>fl x - x\<bar> \<le> 2 powi (ulp_exp x - 1)"
proof -
  assume x: "0 < x"
  define u :: rat where "u = 2 powi ulp_exp x"
  have u: "0 < u" by (simp add: u_def)
  have "\<bar>of_int (rne (x / u)) - x / u\<bar> * u \<le> 1 / 2 * u"
    using u rne_error by (intro mult_right_mono) auto
  then have "\<bar>(of_int (rne (x / u)) - x / u) * u\<bar> \<le> u / 2"
    using u by (simp add: abs_mult)
  moreover have "(of_int (rne (x / u)) - x / u) * u = fl x - x"
    using x u by (simp add: fl_pos u_def [symmetric] field_simps)
  moreover have "u / 2 = 2 powi (ulp_exp x - 1)" by (simp add: u_def power_int_diff)
  ultimately show ?thesis by simp
qed

lemma fl_rel_error: "min_normal \<le> x \<Longrightarrow> \<bar>fl x - x\<bar> \<le> x * unit_roundoff"
proof -
  assume ge: "min_normal \<le> x"
  then have x: "0 < x" by (rule less_le_trans [rotated]) simp
  have "-1022 \<le> exponent2 x" using ge unfolding min_normal_def by (rule exponent2_ge)
  then have "ulp_exp x = exponent2 x - 52" by (simp add: ulp_exp_def)
  then have "\<bar>fl x - x\<bar> \<le> 2 powi (exponent2 x + (- 53))" using fl_error_ulp [OF x] by simp
  also have "\<dots> = 2 powi exponent2 x * unit_roundoff"
    unfolding unit_roundoff_def by (rule power_int_add) simp
  also have "\<dots> \<le> x * unit_roundoff"
    using exponent2_bounds(1) [OF x] by (intro mult_right_mono) auto
  finally show ?thesis .
qed

lemma fl_abs_error:
  assumes "0 \<le> x" and "x < 2 powi k" and "-1021 \<le> k"
  shows "\<bar>fl x - x\<bar> \<le> 2 powi (k - 54)"
proof (cases "x = 0")
  case False
  with assms have x: "0 < x" by simp
  have "exponent2 x < k" using x assms(2) by (rule exponent2_less)
  then have "ulp_exp x - 1 \<le> k - 54" using assms(3) by (simp add: ulp_exp_def)
  then have "(2::rat) powi (ulp_exp x - 1) \<le> 2 powi (k - 54)" by (rule powi2_mono)
  with fl_error_ulp [OF x] show ?thesis by linarith
qed simp

section \<open>A factor below one\<close>

lemma is_f64_less_1:
  assumes "is_f64 r" and "r < 1"
  shows "r \<le> 1 - unit_roundoff"
proof (cases "0 < r")
  case True
  define e where "e = ulp_exp r"
  define k where "k = rne (r / 2 powi e)"
  have r: "r = of_int k * 2 powi e"
    using assms(1) True by (simp add: is_f64_def fl_pos e_def k_def)
  show ?thesis
  proof (cases "exponent2 r = -1")
    case True
    then have e: "e = -53" by (simp add: e_def ulp_exp_def)
    with r assms(2) have "(of_int k :: rat) < of_int (2 ^ 53)" by (simp add: power_int_def field_simps)
    then have "k \<le> 2 ^ 53 - 1" by (simp only: of_int_less_iff zle_diff1_eq)
    then have "(of_int k :: rat) \<le> of_int (2 ^ 53 - 1)" by (simp only: of_int_le_iff)
    then show ?thesis by (simp add: r e unit_roundoff_eq power_int_def field_simps)
  next
    case False
    have "exponent2 r < 0" using True assms(2) by (intro exponent2_less) auto
    with False have "(2::rat) powi (exponent2 r + 1) \<le> 2 powi (-1)" by (intro powi2_mono) simp
    with exponent2_bounds(2) [OF True] have "r < 1 / 2" by (simp add: power_int_def)
    moreover have "unit_roundoff \<le> 1 / 2" by (simp add: unit_roundoff_eq)
    ultimately show ?thesis by linarith
  qed
next
  case False
  have "unit_roundoff \<le> 1" by (simp add: unit_roundoff_eq)
  with False show ?thesis by linarith
qed

lemma fl_below_aux:
  assumes t: "is_f64 t" and ge: "2 powi (-1021) \<le> t"
  shows "fl (t * (1 - unit_roundoff)) < t"
proof -
  define E where "E = exponent2 t"
  define z where "z = t * (1 - unit_roundoff)"
  have tpos: "0 < t" using ge by (rule less_le_trans [rotated]) simp
  have E: "-1021 \<le> E" unfolding E_def using ge by (rule exponent2_ge)
  have u: "ulp_exp t = E - 52" using E by (simp add: ulp_exp_def E_def)
  define m where "m = rne (t / 2 powi (E - 52))"
  have tm: "t = of_int m * 2 powi (E - 52)"
    using t tpos by (simp add: is_f64_def fl_pos u m_def)
  have tE: "2 powi E \<le> t" and tE1: "t < 2 powi (E + 1)"
    using exponent2_bounds [OF tpos] by (simp_all add: E_def)
  have "(0::rat) < 1 - unit_roundoff" by (simp add: unit_roundoff_eq)
  with tpos have zpos: "0 < z" unfolding z_def by (rule mult_pos_pos)
  have zt: "z < t" using tpos by (simp add: z_def unit_roundoff_eq field_simps)
  have pE: "(2::rat) powi E = 2 ^ 52 * 2 powi (E - 52)"
    using power_int_add [of "2::rat" 52 "E - 52"] by simp
  have "fl z < t"
  proof (cases "t = 2 powi E")
    case True
    have "(2::rat) powi E = 2 ^ 53 * 2 powi (E - 53)"
      using power_int_add [of "2::rat" 53 "E - 53"] by simp
    then have "z = of_int (2 ^ 53 - 1) * 2 powi (E - 53)"
      unfolding z_def True unit_roundoff_eq by simp
    moreover have "exponent2 z < E" using zpos zt True by (intro exponent2_less) auto
    ultimately have "fl z = z"
      using zpos E by (intro fl_grid [of z "2 ^ 53 - 1" "E - 53"]) (auto simp: ulp_exp_def)
    with zt show ?thesis by simp
  next
    case False
    show ?thesis
    proof (cases "exponent2 z < E")
      case True
      then have "(2::rat) powi (exponent2 z + 1) \<le> 2 powi E" by (intro powi2_mono) simp
      with exponent2_bounds(2) [OF zpos] have "z \<le> of_int 1 * 2 powi E" by simp
      then have "fl z \<le> of_int 1 * 2 powi E"
        using zpos True E by (intro fl_le_grid) (auto simp: ulp_exp_def)
      with False tE show ?thesis by simp
    next
      case ge: False
      moreover have "exponent2 z \<le> E" unfolding E_def using zpos zt by (intro exponent2_mono) auto
      ultimately have uz: "ulp_exp z = E - 52" using E by (simp add: ulp_exp_def)
      have "(2::rat) ^ 52 * 2 powi (E - 52) < of_int m * 2 powi (E - 52)"
        using tE False tm pE by simp
      then have m52: "(of_int (2 ^ 52) :: rat) < of_int m" by simp
      have "z / 2 powi (E - 52) = of_int m - of_int m / 2 ^ 53"
        by (simp add: z_def tm unit_roundoff_eq right_diff_distrib)
      also have "\<dots> < of_int m - 1 / 2" using m52 by simp
      finally have "rne (z / 2 powi (E - 52)) \<le> m - 1"
        using rne_error [of "z / 2 powi (E - 52)"] rne_cases [of "z / 2 powi (E - 52)"]
        by linarith
      then have "(of_int (rne (z / 2 powi (E - 52))) :: rat) < of_int m" by simp
      then show ?thesis by (subst tm) (simp add: fl_pos [OF zpos] uz)
    qed
  qed
  then show ?thesis by (simp add: z_def)
qed

lemma fl_mult_less:
  assumes "is_f64 t" and "2 powi (-1021) \<le> t" and "is_f64 r" and "r < 1"
  shows "fl (r * t) < t"
proof -
  have "0 < t" using assms(2) by (rule less_le_trans [rotated]) simp
  then have "r * t \<le> t * (1 - unit_roundoff)"
    using mult_right_mono [OF is_f64_less_1 [OF assms(3,4)], of t] by (simp add: mult.commute)
  then have "fl (r * t) \<le> fl (t * (1 - unit_roundoff))" by (rule fl_mono)
  also have "\<dots> < t" using assms(1,2) by (rule fl_below_aux)
  finally show ?thesis .
qed

section \<open>Results of rounding are representable\<close>

lemma fl_pow2: "-1074 \<le> k \<Longrightarrow> fl (2 powi k) = 2 powi k"
proof -
  assume k: "-1074 \<le> k"
  have "exponent2 (2 powi k) < k + 1" by (intro exponent2_less) (auto simp: powi2_less_iff)
  then show ?thesis using k by (intro fl_grid [where k = 1 and e' = k]) (auto simp: ulp_exp_def)
qed

lemma is_f64_fl_pos:
  assumes x: "0 < x"
  shows "is_f64 (fl x)"
proof -
  define M where "M = max (exponent2 x + 1) (-1074)"
  have "(2::rat) powi (exponent2 x + 1) \<le> 2 powi M" by (intro powi2_mono) (simp add: M_def)
  with exponent2_bounds(2) [OF x] have "x \<le> of_int 1 * 2 powi M" by simp
  then have le: "fl x \<le> of_int 1 * 2 powi M"
    using x by (intro fl_le_grid) (auto simp: M_def ulp_exp_def)
  consider "fl x = 0" | "fl x = 2 powi M" | "0 < fl x" "fl x < 2 powi M"
    using le fl_nonneg_pos [OF x] by fastforce
  then show ?thesis
  proof cases
    case 2
    then show ?thesis by (simp add: is_f64_def fl_pow2 M_def)
  next
    case 3
    then have "exponent2 (fl x) < M" by (rule exponent2_less)
    then have "ulp_exp (fl x) \<le> ulp_exp x" by (auto simp: ulp_exp_def M_def)
    with 3(1) show ?thesis unfolding is_f64_def by (intro fl_grid [OF fl_pos [OF x]])
  qed (simp add: is_f64_def)
qed

lemma is_f64_fl: "is_f64 (fl x)"
proof -
  consider "0 < x" | "x = 0" | "0 < - x" by linarith
  then show ?thesis
  proof cases
    case 3
    then have "is_f64 (fl (- x))" by (rule is_f64_fl_pos)
    then show ?thesis by (simp add: is_f64_def fl_uminus)
  qed (simp_all add: is_f64_fl_pos, simp add: is_f64_def)
qed

lemma is_f64_0 [simp]: "is_f64 0"
  by (simp add: is_f64_def)

lemma is_f64_of_nat: "n \<le> 2 ^ 53 \<Longrightarrow> is_f64 (of_nat n)"
  by (simp add: is_f64_def fl_of_nat)

section \<open>The interface the components use\<close>

locale rounding =
  fixes rnd :: "rat \<Rightarrow> rat"
  assumes rnd_mono: "x \<le> y \<Longrightarrow> rnd x \<le> rnd y"
    and rnd_of_nat: "n \<le> 2 ^ 53 \<Longrightarrow> rnd (of_nat n) = of_nat n"
    and rnd_rel: "min_normal \<le> x \<Longrightarrow> \<bar>rnd x - x\<bar> \<le> x * unit_roundoff"
    and rnd_abs: "0 \<le> x \<Longrightarrow> x < 2 powi k \<Longrightarrow> -1021 \<le> k \<Longrightarrow> \<bar>rnd x - x\<bar> \<le> 2 powi (k - 54)"
begin

lemma rnd_zero: "rnd 0 = 0"
  using rnd_of_nat [of 0] by simp

lemma rnd_one: "rnd 1 = 1"
  using rnd_of_nat [of 1] by simp

lemma rnd_nonneg: "0 \<le> x \<Longrightarrow> 0 \<le> rnd x"
  using rnd_mono [of 0 x] by (simp add: rnd_zero)

lemma rnd_le_nat: "x \<le> of_nat n \<Longrightarrow> n \<le> 2 ^ 53 \<Longrightarrow> rnd x \<le> of_nat n"
  using rnd_mono [of x "of_nat n"] by (simp add: rnd_of_nat)

lemma rnd_ge_nat: "of_nat n \<le> x \<Longrightarrow> n \<le> 2 ^ 53 \<Longrightarrow> of_nat n \<le> rnd x"
  using rnd_mono [of "of_nat n" x] by (simp add: rnd_of_nat)

lemma rnd_ge_1: "1 \<le> x \<Longrightarrow> 1 \<le> rnd x"
  using rnd_ge_nat [of 1 x] by simp

lemma rnd_u32: "rnd (of_nat (unat (w :: u32))) = of_nat (unat w)"
proof -
  have "unat w < 2 ^ 32" using unsigned_less [of w, where ?'a = nat] by simp
  then show ?thesis by (intro rnd_of_nat) simp
qed

lemma rnd_rel_upper: "x = 0 \<or> min_normal \<le> x \<Longrightarrow> rnd x \<le> x * (1 + unit_roundoff)"
  using rnd_rel [of x] by (auto simp: rnd_zero distrib_left abs_le_iff)

lemma rnd_pos: "min_normal \<le> x \<Longrightarrow> 0 < rnd x"
proof -
  assume ge: "min_normal \<le> x"
  then have "0 < x" by (rule less_le_trans [rotated]) simp
  then have "x * unit_roundoff < x" by (simp add: unit_roundoff_eq)
  with rnd_rel [OF ge] show ?thesis by linarith
qed

end

interpretation f64: rounding fl
  by unfold_locales (rule fl_mono fl_of_nat fl_rel_error fl_abs_error; assumption)+

section \<open>Time as \<open>f64\<close>\<close>

text \<open>
  \<open>Duration::as_secs_f64\<close> of the standard library: whole seconds plus the nanosecond
  part divided by \<open>10 ^ 9\<close>, each step in \<open>f64\<close>.
\<close>

definition as_secs_f64 :: "duration \<Rightarrow> f64" where
  "as_secs_f64 d =
     fl (fl (of_nat (d div nanos_per_sec)) + fl (of_nat (d mod nanos_per_sec) / of_nat nanos_per_sec))"

lemma as_secs_f64_nonneg [simp]: "0 \<le> as_secs_f64 d"
  unfolding as_secs_f64_def by (intro f64.rnd_nonneg add_nonneg_nonneg) auto

lemma as_secs_f64_0 [simp]: "as_secs_f64 0 = 0"
  by (simp add: as_secs_f64_def)

lemma as_secs_f64_ge:
  assumes "s * nanos_per_sec \<le> d" and "s \<le> 2 ^ 53"
  shows "of_nat s \<le> as_secs_f64 d"
proof -
  have "s \<le> d div nanos_per_sec" using assms(1) by (simp add: less_eq_div_iff_mult_less_eq)
  then have "of_nat s \<le> fl (of_nat (d div nanos_per_sec))"
    using assms(2) by (intro f64.rnd_ge_nat) auto
  moreover have "0 \<le> fl (of_nat (d mod nanos_per_sec) / of_nat nanos_per_sec)"
    by (intro f64.rnd_nonneg) auto
  ultimately have "of_nat s \<le> fl (of_nat (d div nanos_per_sec))
      + fl (of_nat (d mod nanos_per_sec) / of_nat nanos_per_sec)"
    by linarith
  then show ?thesis unfolding as_secs_f64_def using assms(2) by (rule f64.rnd_ge_nat)
qed

text \<open>The conversion overshoots by two roundings at most.\<close>

lemma of_nat_div_mod_rat:
  "0 < n \<Longrightarrow> of_nat (d div n) + of_nat (d mod n) / of_nat n = (of_nat d / of_nat n :: rat)"
proof -
  assume n: "0 < n"
  have "(of_nat d :: rat) = of_nat n * of_nat (d div n) + of_nat (d mod n)"
    by (metis mult_div_mod_eq of_nat_add of_nat_mult)
  with n show ?thesis by (simp add: field_simps)
qed

lemma as_secs_f64_upper:
  "as_secs_f64 d \<le> of_nat d / of_nat nanos_per_sec * (1 + unit_roundoff) * (1 + unit_roundoff)"
proof -
  define s :: rat where "s = of_nat (d div nanos_per_sec)"
  define f :: rat where "f = of_nat (d mod nanos_per_sec) / of_nat nanos_per_sec"
  define c :: rat where "c = 1 + unit_roundoff"
  have c: "1 \<le> c" by (simp add: c_def unit_roundoff_eq)
  have tiny: "min_normal \<le> 1 / 1073741824"
    using min_normal_tiny by (rule order_trans) simp
  have grid: "x = 0 \<or> min_normal \<le> x" if "x = of_nat n / of_nat nanos_per_sec" for x :: rat and n
    using that tiny by (cases "n = 0") (auto simp: field_simps)
  have sum: "s + f = of_nat d / of_nat nanos_per_sec"
    unfolding s_def f_def by (rule of_nat_div_mod_rat) simp
  have "fl s \<le> s * c" unfolding c_def s_def
    using grid [of "of_nat (d div nanos_per_sec)" "d div nanos_per_sec * nanos_per_sec"]
    by (intro f64.rnd_rel_upper) simp
  moreover have "fl f \<le> f * c" unfolding c_def
    using grid [OF f_def] by (rule f64.rnd_rel_upper)
  ultimately have "fl s + fl f \<le> (s + f) * c" by (simp add: algebra_simps)
  then have "fl (fl s + fl f) \<le> fl ((s + f) * c)" by (rule fl_mono)
  also have "\<dots> \<le> (s + f) * c * c"
  proof -
    have "0 \<le> s + f" by (simp add: s_def f_def)
    then have "s + f \<le> (s + f) * c" using c mult_left_mono [of 1 c "s + f"] by simp
    then have "(s + f) * c = 0 \<or> min_normal \<le> (s + f) * c" using grid [OF sum] by auto
    then show ?thesis unfolding c_def by (rule f64.rnd_rel_upper)
  qed
  finally have "fl (fl s + fl f) \<le> of_nat d / of_nat nanos_per_sec * c * c"
    unfolding sum .
  then show ?thesis unfolding as_secs_f64_def s_def f_def c_def .
qed

section \<open>Machine integers as \<open>f64\<close>\<close>

definition u32_as_f64 :: "u32 \<Rightarrow> f64" where
  "u32_as_f64 w = fl (of_nat (unat w))"

definition u64_as_f64 :: "u64 \<Rightarrow> f64" where
  "u64_as_f64 w = fl (of_nat (unat w))"

lemma u32_as_f64_0 [simp]: "u32_as_f64 0 = 0"
  by (simp add: u32_as_f64_def)

lemma u32_as_f64_exact:
  obtains n where "unat w = n" and "u32_as_f64 w = of_nat n" and "n < 2 ^ 32"
proof -
  obtain n where n: "unat w = n" by simp
  have "n < 2 ^ 32" using unsigned_less [of w, where ?'a = nat] n by simp
  moreover from this have "u32_as_f64 w = of_nat n"
    unfolding u32_as_f64_def n by (intro f64.rnd_of_nat) simp
  ultimately show ?thesis using that n by simp
qed

lemma u32_as_f64_ge_1: "w \<noteq> 0 \<Longrightarrow> 1 \<le> u32_as_f64 w"
proof (rule u32_as_f64_exact [of w])
  fix n :: nat
  assume "w \<noteq> 0" and n: "unat w = n" "u32_as_f64 w = of_nat n"
  then have "1 \<le> n" using unat_gt_0 [of w] by simp
  then show ?thesis by (simp add: n(2))
qed

lemma u32_as_f64_nonneg [simp]: "0 \<le> u32_as_f64 w"
proof (rule u32_as_f64_exact [of w])
  fix n :: nat
  assume "u32_as_f64 w = of_nat n"
  then show ?thesis by (simp only: of_nat_0_le_iff)
qed

lemma u32_as_f64_less: "u32_as_f64 w < 2 ^ 32"
proof (rule u32_as_f64_exact [of w])
  fix n :: nat
  assume n: "u32_as_f64 w = of_nat n" "n < 2 ^ 32"
  then have "(of_nat n :: rat) < of_nat (2 ^ 32)" by (simp only: of_nat_less_iff)
  with n show ?thesis by simp
qed

lemma is_f64_u32: "is_f64 (u32_as_f64 w)"
  by (simp add: u32_as_f64_def is_f64_fl)

lemma u64_as_f64_bounds: "0 \<le> u64_as_f64 w" "u64_as_f64 w \<le> 2 powi 64"
proof -
  obtain n where n: "unat w = n" by simp
  show "0 \<le> u64_as_f64 w" unfolding u64_as_f64_def n by (intro f64.rnd_nonneg) simp
  have "n < 2 ^ 64" using unsigned_less [of w, where ?'a = nat] n by simp
  then have "(of_nat n :: rat) \<le> of_nat (2 ^ 64)" by (simp only: of_nat_le_iff less_imp_le)
  then have "fl (of_nat n) \<le> fl (2 powi 64)" by (intro fl_mono) simp
  then show "u64_as_f64 w \<le> 2 powi 64" unfolding u64_as_f64_def n by (simp only: fl_pow2)
qed

end
