(* ===== verification/Balancers.thy ===== *)
theory Balancers
  imports Balance Float64
begin

text \<open>
  \<open>src/src/balance/round_robin.rs\<close> and \<open>src/src/balance/weighted.rs\<close>: the three
  implementations of the \<open>LoadBalancer\<close> trait. The trait object of a route is a value of
  \<open>balancer\<close>; the only state is the ticket counter of the round robin. What the \<open>rand\<close> crate
  returns to one call is a parameter: the index of \<open>random_range(0..n)\<close> and the value of
  \<open>random::<f64>()\<close>.

  The contract of the trait is the locale \<open>load_balancer\<close>: a selected origin is a candidate the
  balancer admits, and nothing is selected only when no candidate is admissible. It is
  interpreted on every implementation and on the dispatching \<open>select_origin\<close>.
\<close>

section \<open>Randomness\<close>

record rng =
  random_range :: "nat \<Rightarrow> nat"
  random_f64 :: f64

text \<open>What \<open>rand\<close> documents: an index in the range, a value in \<open>[0, 1)\<close>.\<close>

definition rng_ok :: "rng \<Rightarrow> bool" where
  "rng_ok g \<longleftrightarrow> (\<forall>n > 0. random_range g n < n) \<and>
     is_f64 (random_f64 g) \<and> 0 \<le> random_f64 g \<and> random_f64 g < 1"

section \<open>Round robin\<close>

definition is_up :: "origin_states \<Rightarrow> 'u origin_endpoint \<Rightarrow> bool" where
  "is_up st og \<longleftrightarrow> (case store_get st (url_key og) of None \<Rightarrow> False | Some s \<Rightarrow> healthy s)"

fun rr_scan ::
  "'u origin_endpoint list \<Rightarrow> origin_states \<Rightarrow> nat \<Rightarrow> nat list \<Rightarrow> 'u origin_endpoint option" where
  "rr_scan cs st start_idx [] = None"
| "rr_scan cs st start_idx (i # is) =
     (let idx = (start_idx + i) mod length cs;
          og = cs ! idx
      in case store_get st (url_key og) of
           Some s \<Rightarrow> if healthy s then Some og else rr_scan cs st start_idx is
         | None \<Rightarrow> rr_scan cs st start_idx is)"

definition rr_select ::
  "'u origin_endpoint list \<Rightarrow> origin_states \<Rightarrow> u64 \<Rightarrow> 'u origin_endpoint option \<times> u64" where
  "rr_select cs st counter =
     (if cs = [] then (None, counter)
      else let count = length cs;
               start_idx = unat counter mod count
           in (rr_scan cs st start_idx [0..<count], counter + 1))"

section \<open>Weighted selection\<close>

definition user_weighted :: "u32 option \<Rightarrow> f64 \<Rightarrow> f64" where
  "user_weighted w base = (case w of Some uw \<Rightarrow> fl (base * u32_as_f64 uw) | None \<Rightarrow> base)"

definition inverse_latency :: "u64 \<Rightarrow> f64" where
  "inverse_latency l = fl (1 / fl (u64_as_f64 l + 1))"

definition latency_weight :: "'u url_ops \<Rightarrow> origin_states \<Rightarrow> 'u origin_endpoint \<Rightarrow> f64" where
  "latency_weight U st og =
     (case store_get st (url_to_string U (oe_url og)) of
        Some s \<Rightarrow>
          if \<not> healthy s then 0
          else user_weighted (oe_weight og)
                 (if ewma_latency_ns s = 0 then 1 else inverse_latency (ewma_latency_ns s))
      | None \<Rightarrow> user_weighted (oe_weight og) 1)"

definition default_pressure :: f64 where
  "default_pressure = 0"

definition metrics_weight :: "'u url_ops \<Rightarrow> origin_states \<Rightarrow> 'u origin_endpoint \<Rightarrow> f64" where
  "metrics_weight U st og =
     (case store_get st (url_to_string U (oe_url og)) of
        Some s \<Rightarrow>
          if \<not> healthy s then 0
          else user_weighted (oe_weight og)
                 (let mw = max (fl (1000 - default_pressure)) 0 in
                  if mw < 100 then
                    if 0 < ewma_latency_ns s then fl (mw * inverse_latency (ewma_latency_ns s)) else mw
                  else mw)
      | None \<Rightarrow> user_weighted (oe_weight og) 1000)"

fun pick_cumulative :: "f64 \<Rightarrow> nat \<Rightarrow> f64 \<Rightarrow> f64 list \<Rightarrow> nat option" where
  "pick_cumulative random i cumulative [] = None"
| "pick_cumulative random i cumulative (w # ws) =
     (let c = fl (cumulative + w) in
      if random < c then Some i else pick_cumulative random (Suc i) c ws)"

definition total_weight :: "f64 list \<Rightarrow> f64" where
  "total_weight ws = fold (\<lambda>w acc. fl (acc + w)) ws 0"

definition weighted_random_select :: "rng \<Rightarrow> f64 list \<Rightarrow> nat" where
  "weighted_random_select g ws =
     (let total = total_weight ws in
      if total \<le> 0 then random_range g (length ws)
      else (case pick_cumulative (fl (random_f64 g * total)) 0 0 ws of
              Some i \<Rightarrow> i
            | None \<Rightarrow> length ws - 1))"

definition select_by_weight ::
  "rng \<Rightarrow> ('u origin_endpoint \<Rightarrow> f64) \<Rightarrow> 'u origin_endpoint list \<Rightarrow> 'u origin_endpoint option" where
  "select_by_weight g weight cs =
     (if cs = [] then None
      else let weights = map weight cs;
               idx = weighted_random_select g weights
           in if 0 < weights ! idx then Some (cs ! idx) else None)"

definition wl_select ::
  "'u url_ops \<Rightarrow> rng \<Rightarrow> 'u origin_endpoint list \<Rightarrow> origin_states \<Rightarrow> 'u origin_endpoint option" where
  "wl_select U g cs st = select_by_weight g (latency_weight U st) cs"

definition wm_select ::
  "'u url_ops \<Rightarrow> rng \<Rightarrow> 'u origin_endpoint list \<Rightarrow> origin_states \<Rightarrow> 'u origin_endpoint option" where
  "wm_select U g cs st = select_by_weight g (metrics_weight U st) cs"

section \<open>The trait object\<close>

datatype balancer = RoundRobinBalancer u64 | WeightedLatencyBalancer | WeightedMetricsBalancer

definition round_robin_new :: balancer where
  "round_robin_new = RoundRobinBalancer 0"

definition weighted_latency_new :: balancer where
  "weighted_latency_new = WeightedLatencyBalancer"

definition weighted_metrics_new :: balancer where
  "weighted_metrics_new = WeightedMetricsBalancer"

fun select_origin ::
  "'u url_ops \<Rightarrow> rng \<Rightarrow> 'u origin_endpoint list \<Rightarrow> origin_states \<Rightarrow> balancer
     \<Rightarrow> 'u origin_endpoint option \<times> balancer" where
  "select_origin U g cs st (RoundRobinBalancer counter) =
     (let (og, counter') = rr_select cs st counter in (og, RoundRobinBalancer counter'))"
| "select_origin U g cs st WeightedLatencyBalancer = (wl_select U g cs st, WeightedLatencyBalancer)"
| "select_origin U g cs st WeightedMetricsBalancer = (wm_select U g cs st, WeightedMetricsBalancer)"

section \<open>Round robin is a search from the ticket's position\<close>

lemma rr_scan_find:
  "list_all (\<lambda>i. i < length cs) is \<Longrightarrow>
     rr_scan cs st s is = List.find (is_up st) (map (\<lambda>i. cs ! ((s + i) mod length cs)) is)"
  by (induction "is") (auto simp: is_up_def Let_def split: option.splits)

lemma rotate_conv_map: "rotate n xs = map (\<lambda>i. xs ! ((n + i) mod length xs)) [0..<length xs]"
  by (rule nth_equalityI) (simp_all add: nth_rotate)

lemma rr_select_find_rotate:
  "rr_select cs st counter =
     (List.find (is_up st) (rotate (unat counter) cs), if cs = [] then counter else counter + 1)"
proof (cases "cs = []")
  case False
  have "rr_scan cs st (unat counter mod length cs) [0..<length cs]
      = List.find (is_up st) (rotate (unat counter) cs)"
    by (subst rr_scan_find) (simp_all add: list_all_iff rotate_conv_map mod_add_left_eq)
  with False show ?thesis by (simp add: rr_select_def Let_def)
qed (simp add: rr_select_def)

text \<open>
  The index loop is a search: round robin returns the first healthy candidate in cyclic
  order from the ticket's position, and takes one ticket whatever it finds.
\<close>

theorem rr_select_is_cyclic_search:
  "rr_select cs st counter =
     (List.find (is_up st) (rotate (unat counter) cs), if cs = [] then counter else counter + 1)"
  by (rule rr_select_find_rotate)

fun rr_picks ::
  "nat \<Rightarrow> 'u origin_endpoint list \<Rightarrow> origin_states \<Rightarrow> u64 \<Rightarrow> 'u origin_endpoint option list" where
  "rr_picks 0 cs st counter = []"
| "rr_picks (Suc n) cs st counter =
     (let (og, counter') = rr_select cs st counter in og # rr_picks n cs st counter')"

lemma find_all: "xs \<noteq> [] \<Longrightarrow> list_all P xs \<Longrightarrow> List.find P xs = Some (hd xs)"
  by (cases xs) auto

lemma rr_picks_all_up:
  assumes "list_all (is_up st) cs" and "cs \<noteq> []"
  shows "unat counter + n \<le> 2 ^ 64 \<Longrightarrow>
     rr_picks n cs st counter = map (\<lambda>i. Some (cs ! ((unat counter + i) mod length cs))) [0..<n]"
proof (induction n arbitrary: counter)
  case (Suc n)
  have up: "list_all (is_up st) (rotate (unat counter) cs)" using assms by (simp add: list_all_iff)
  have first: "List.find (is_up st) (rotate (unat counter) cs) = Some (cs ! (unat counter mod length cs))"
    using assms(2) find_all [OF _ up] by (simp add: hd_rotate_conv_nth)
  show ?case
  proof (cases "n = 0")
    case True
    with first assms(2) show ?thesis by (simp add: rr_select_find_rotate)
  next
    case False
    with Suc.prems have "Suc (unat counter) < 2 ^ 64" by simp
    then have "unat (counter + 1) = Suc (unat counter)" by (simp add: unat_word_ariths)
    then have "rr_picks n cs st (counter + 1)
        = map (\<lambda>i. Some (cs ! ((unat counter + Suc i) mod length cs))) [0..<n]"
      using Suc by simp
    also have "\<dots> = map (\<lambda>i. Some (cs ! ((unat counter + i) mod length cs))) [Suc 0..<Suc n]"
      by (simp only: map_Suc_upt [symmetric] map_map comp_def)
    finally show ?thesis
      using first assms(2) by (simp add: rr_select_find_rotate upt_conv_Cons del: upt_Suc)
  qed
qed simp

lemma count_list_rotate: "count_list (rotate n xs) x = count_list xs x"
  by (induction n) (simp_all add: rotate_Suc, metis count_list_append rotate1.simps list.exhaust
      add.commute append_Cons append_Nil)

lemma count_cyclic:
  "count_list (map (\<lambda>i. xs ! ((c + i) mod length xs)) [0..<k * length xs]) x = k * count_list xs x"
proof (induction k)
  case (Suc k)
  define n where "n = length xs"
  have "[0..<Suc k * n] = [0..<k * n] @ map (\<lambda>i. i + k * n) [0..<n]"
    using upt_add_eq_append [of 0 "k * n" n] by (simp add: map_add_upt add.commute)
  moreover have "map (\<lambda>i. xs ! ((c + (i + k * n)) mod n)) [0..<n] = rotate c xs"
    unfolding rotate_conv_map n_def [symmetric]
    by (metis (no_types, lifting) add.assoc mod_mult_self1)
  ultimately show ?case
    using Suc by (simp add: n_def [symmetric] comp_def count_list_rotate)
qed simp

text \<open>
  Round robin is fair: while every candidate is healthy and the ticket counter does not
  wrap, any \<open>k\<close> times the number of candidates consecutive selections give each candidate
  exactly \<open>k\<close> of them (times its multiplicity, if an origin is listed more than once).
\<close>

theorem rr_fair:
  assumes "list_all (is_up st) cs" and "unat counter + k * length cs \<le> 2 ^ 64"
  shows "count_list (rr_picks (k * length cs) cs st counter) (Some og) = k * count_list cs og"
proof (cases "cs = []")
  case False
  have "rr_picks (k * length cs) cs st counter
      = map Some (map (\<lambda>i. cs ! ((unat counter + i) mod length cs)) [0..<k * length cs])"
    using rr_picks_all_up [OF assms(1) False assms(2)] by simp
  then show ?thesis
    using count_cyclic [of cs "unat counter" k og] by (simp only: count_list_map_conv [of Some] inj_Some)
qed simp

section \<open>Weights\<close>

text \<open>Every positive weight is at least this one, far from the subnormal range.\<close>

definition least_weight :: f64 where
  "least_weight = 2 powi (-65)"

lemma least_weight_facts [simp]: "0 < least_weight" "least_weight \<le> 1" "least_weight \<le> 1000"
  using powi2_mono [of "-65" 0] by (simp_all add: least_weight_def)

lemma fl_ge_least_weight: "least_weight \<le> x \<Longrightarrow> least_weight \<le> fl x"
proof -
  assume "least_weight \<le> x"
  then have "fl least_weight \<le> fl x" by (rule fl_mono)
  moreover have "fl least_weight = least_weight" unfolding least_weight_def by (rule fl_pow2) simp
  ultimately show ?thesis by simp
qed

lemma user_weighted_0 [simp]: "user_weighted (Some 0) base = 0"
  by (simp add: user_weighted_def)

lemma user_weighted_ge:
  assumes "least_weight \<le> base" and "w \<noteq> Some 0"
  shows "least_weight \<le> user_weighted w base"
proof (cases w)
  case (Some u)
  with assms(2) have "1 \<le> u32_as_f64 u" by (intro u32_as_f64_ge_1) auto
  then have "least_weight * 1 \<le> base * u32_as_f64 u"
    using assms(1) less_imp_le [OF least_weight_facts(1)] by (intro mult_mono) auto
  then show ?thesis by (simp add: user_weighted_def Some fl_ge_least_weight)
qed (use assms in \<open>simp add: user_weighted_def\<close>)

lemma user_weighted_pos: "least_weight \<le> base \<Longrightarrow> 0 < user_weighted w base \<longleftrightarrow> w \<noteq> Some 0"
  using user_weighted_ge [of base w] less_le_trans [OF least_weight_facts(1)] by fastforce

lemma inverse_latency_ge: "least_weight \<le> inverse_latency l"
proof -
  have "fl (u64_as_f64 l + 1) \<le> fl (2 powi 65)"
    using u64_as_f64_bounds(2) [of l] by (intro fl_mono) (simp add: power_int_def)
  then have le: "fl (u64_as_f64 l + 1) \<le> 2 powi 65" by (simp only: fl_pow2)
  have ge: "1 \<le> fl (u64_as_f64 l + 1)"
    using u64_as_f64_bounds(1) [of l] by (intro f64.rnd_ge_1) simp
  have "least_weight = 1 / 2 powi 65"
    unfolding least_weight_def power_int_minus divide_inverse by (rule mult_1 [symmetric])
  also have "\<dots> \<le> 1 / fl (u64_as_f64 l + 1)" using le ge by (intro frac_le) auto
  finally show ?thesis unfolding inverse_latency_def by (rule fl_ge_least_weight)
qed

text \<open>The state of an endpoint as its balancer reads it: unknown, up or down.\<close>

definition is_down :: "'u url_ops \<Rightarrow> origin_states \<Rightarrow> 'u origin_endpoint \<Rightarrow> bool" where
  "is_down U st og \<longleftrightarrow>
     (case store_get st (url_to_string U (oe_url og)) of None \<Rightarrow> False | Some s \<Rightarrow> \<not> healthy s)"

definition weight_ok :: "f64 \<Rightarrow> bool" where
  "weight_ok w \<longleftrightarrow> w = 0 \<or> least_weight \<le> w \<and> is_f64 w"

lemma is_f64_user_weighted: "is_f64 base \<Longrightarrow> is_f64 (user_weighted w base)"
  by (auto simp: user_weighted_def is_f64_fl split: option.splits)

lemma user_weighted_ok: "least_weight \<le> base \<Longrightarrow> is_f64 base \<Longrightarrow> weight_ok (user_weighted w base)"
  using user_weighted_ge [of base w] is_f64_user_weighted [of base w]
  by (cases "w = Some 0") (auto simp: weight_ok_def)

lemma weight_ok_0 [simp]: "weight_ok 0"
  by (simp add: weight_ok_def)

lemma is_f64_inverse_latency: "is_f64 (inverse_latency l)"
  by (simp add: inverse_latency_def is_f64_fl)

lemma latency_weight_ok: "weight_ok (latency_weight U st og)"
  using is_f64_of_nat [of 1]
  by (auto simp: latency_weight_def inverse_latency_ge is_f64_inverse_latency
      intro!: user_weighted_ok split: option.splits)

lemma latency_weight_pos:
  "0 < latency_weight U st og \<longleftrightarrow> \<not> is_down U st og \<and> oe_weight og \<noteq> Some 0"
  by (auto simp: latency_weight_def is_down_def user_weighted_pos inverse_latency_ge
      split: option.splits)

lemma metrics_weight_eq:
  "metrics_weight U st og = (if is_down U st og then 0 else user_weighted (oe_weight og) 1000)"
  using f64.rnd_of_nat [of 1000]
  by (auto simp: metrics_weight_def is_down_def default_pressure_def Let_def split: option.splits)

lemma metrics_weight_ok: "weight_ok (metrics_weight U st og)"
  using is_f64_of_nat [of 1000]
  by (auto simp: metrics_weight_eq intro!: user_weighted_ok)

lemma metrics_weight_pos:
  "0 < metrics_weight U st og \<longleftrightarrow> \<not> is_down U st og \<and> oe_weight og \<noteq> Some 0"
  by (auto simp: metrics_weight_eq user_weighted_pos)

section \<open>The weighted choice\<close>

lemma weight_ok_nonneg: "weight_ok w \<Longrightarrow> 0 \<le> w"
  by (auto simp: weight_ok_def intro: order_trans [OF less_imp_le [OF least_weight_facts(1)]])

lemma fold_weight_ge:
  "list_all weight_ok ws \<Longrightarrow> is_f64 acc \<Longrightarrow>
     acc \<le> fold (\<lambda>w acc. fl (acc + w)) ws acc \<and> is_f64 (fold (\<lambda>w acc. fl (acc + w)) ws acc)"
proof (induction ws arbitrary: acc)
  case (Cons w ws)
  have "0 \<le> w" using Cons.prems(1) by (auto intro: weight_ok_nonneg)
  then have "fl acc \<le> fl (acc + w)" by (intro fl_mono) simp
  then have "acc \<le> fl (acc + w)" using Cons.prems(2) by (simp add: is_f64_def)
  moreover have "is_f64 (fl (acc + w))" by (rule is_f64_fl)
  ultimately show ?case using Cons.IH [of "fl (acc + w)"] Cons.prems(1) by auto
qed simp

lemma fold_weight_ge_member:
  "list_all weight_ok ws \<Longrightarrow> is_f64 acc \<Longrightarrow> 0 \<le> acc \<Longrightarrow> w \<in> set ws \<Longrightarrow>
     w \<le> fold (\<lambda>w acc. fl (acc + w)) ws acc"
proof (induction ws arbitrary: acc)
  case (Cons v ws)
  have v: "0 \<le> v" "is_f64 v" using Cons.prems(1) weight_ok_nonneg [of v] by (auto simp: weight_ok_def)
  have nonneg: "0 \<le> fl (acc + v)" using v Cons.prems(3) by (intro f64.rnd_nonneg) simp
  show ?case
  proof (cases "w = v")
    case True
    have "fl v \<le> fl (acc + v)" using Cons.prems(3) by (intro fl_mono) simp
    with True v fold_weight_ge [of ws "fl (acc + v)"] Cons.prems(1) show ?thesis
      by (auto simp: is_f64_def [of v] is_f64_fl)
  next
    case False
    with Cons.prems nonneg Cons.IH [of "fl (acc + v)"] show ?thesis by (auto simp: is_f64_fl)
  qed
qed simp

text \<open>
  The cumulative loop: when the random value lies between the start and the total, it stops,
  at an index whose weight is positive.
\<close>

lemma pick_cumulative_found:
  "list_all weight_ok ws \<Longrightarrow> is_f64 c \<Longrightarrow> c \<le> random \<Longrightarrow>
     random < fold (\<lambda>w acc. fl (acc + w)) ws c \<Longrightarrow>
     \<exists>j < length ws. pick_cumulative random i c ws = Some (i + j) \<and> 0 < ws ! j"
proof (induction ws arbitrary: c i)
  case (Cons w ws)
  show ?case
  proof (cases "random < fl (c + w)")
    case True
    have "w \<noteq> 0" using True Cons.prems(2,3) by (auto simp: is_f64_def)
    with Cons.prems(1) weight_ok_nonneg [of w] have "0 < w" by simp
    with True show ?thesis by (intro exI [of _ 0]) (simp add: Let_def)
  next
    case False
    then obtain j where "j < length ws" "pick_cumulative random (Suc i) (fl (c + w)) ws = Some (Suc i + j)"
      "0 < ws ! j"
      using Cons.IH [of "fl (c + w)" "Suc i"] Cons.prems by (auto simp: is_f64_fl)
    with False show ?thesis by (intro exI [of _ "Suc j"]) (simp add: Let_def)
  qed
qed simp

lemma total_weight_facts:
  assumes "list_all weight_ok ws"
  shows "is_f64 (total_weight ws)" and "0 \<le> total_weight ws"
    and "w \<in> set ws \<Longrightarrow> w \<le> total_weight ws"
  using fold_weight_ge [OF assms is_f64_0] fold_weight_ge_member [OF assms is_f64_0, of w]
  by (auto simp: total_weight_def)

lemma weighted_random_select_positive:
  assumes ok: "list_all weight_ok ws" and rng: "rng_ok g" and w: "w \<in> set ws" "0 < w"
  shows "weighted_random_select g ws < length ws \<and> 0 < ws ! weighted_random_select g ws"
proof -
  have lw: "least_weight \<le> w" using ok w by (auto simp: list_all_iff weight_ok_def)
  then have "least_weight \<le> total_weight ws" using total_weight_facts(3) [OF ok w(1)] by simp
  moreover have "2 powi (-1021) \<le> least_weight"
    unfolding least_weight_def by (rule powi2_mono) simp
  ultimately have tiny: "2 powi (-1021) \<le> total_weight ws" by (rule_tac order_trans)
  have pos: "0 < total_weight ws" using tiny by (rule less_le_trans [rotated]) simp
  have less: "fl (random_f64 g * total_weight ws) < total_weight ws"
    using rng tiny total_weight_facts(1) [OF ok] by (intro fl_mult_less) (auto simp: rng_ok_def)
  have "0 \<le> fl (random_f64 g * total_weight ws)"
    using rng pos by (intro f64.rnd_nonneg) (simp add: rng_ok_def)
  then obtain j where "j < length ws" "0 < ws ! j"
    "pick_cumulative (fl (random_f64 g * total_weight ws)) 0 0 ws = Some j"
    using pick_cumulative_found [OF ok is_f64_0 _ less [unfolded total_weight_def], of 0]
    by (auto simp: total_weight_def)
  with pos show ?thesis by (simp add: weighted_random_select_def Let_def)
qed

text \<open>The index found is the one whose slice of the cumulative weights holds the random value.\<close>

lemma pick_cumulative_slice:
  "pick_cumulative random i c ws = Some k \<Longrightarrow> c \<le> random \<Longrightarrow>
     i \<le> k \<and> k - i < length ws \<and>
     fold (\<lambda>w acc. fl (acc + w)) (take (k - i) ws) c \<le> random \<and>
     random < fold (\<lambda>w acc. fl (acc + w)) (take (Suc (k - i)) ws) c"
proof (induction ws arbitrary: c i)
  case (Cons w ws)
  show ?case
  proof (cases "random < fl (c + w)")
    case False
    with Cons.prems Cons.IH [of "Suc i" "fl (c + w)"]
    have IH: "Suc i \<le> k \<and> k - Suc i < length ws \<and>
        fold (\<lambda>w acc. fl (acc + w)) (take (k - Suc i) ws) (fl (c + w)) \<le> random \<and>
        random < fold (\<lambda>w acc. fl (acc + w)) (take (Suc (k - Suc i)) ws) (fl (c + w))"
      by (simp add: Let_def)
    then have "k - i = Suc (k - Suc i)" by linarith
    with IH show ?thesis by simp
  qed (use Cons.prems in \<open>auto simp: Let_def\<close>)
qed simp

lemma select_by_weight_Some:
  assumes rng: "rng_ok g" and ok: "\<And>og. weight_ok (weight og)"
    and sel: "select_by_weight g weight cs = Some og"
  shows "og \<in> set cs \<and> 0 < weight og"
proof -
  have ws: "list_all weight_ok (map weight cs)" by (simp add: list_all_iff ok)
  define idx where "idx = weighted_random_select g (map weight cs)"
  have cs: "cs \<noteq> []" and pos: "0 < map weight cs ! idx" and og: "og = cs ! idx"
    using sel by (auto simp: select_by_weight_def Let_def idx_def split: if_splits)
  have "idx < length cs"
  proof (cases "\<exists>w \<in> set (map weight cs). 0 < w")
    case True
    then show ?thesis using weighted_random_select_positive [OF ws rng] by (auto simp: idx_def)
  next
    case False
    then have "list_all (\<lambda>w. w = 0) (map weight cs)"
      using ws weight_ok_nonneg by (auto simp: list_all_iff le_less)
    then have "fold (\<lambda>w acc. fl (acc + w)) (map weight cs) 0 = 0"
      by (induction cs) auto
    then show ?thesis using rng cs
      by (simp add: idx_def weighted_random_select_def total_weight_def rng_ok_def)
  qed
  with pos og show ?thesis by simp
qed

lemma select_by_weight_None:
  assumes rng: "rng_ok g" and ok: "\<And>og. weight_ok (weight og)"
    and sel: "select_by_weight g weight cs = None" and og: "og \<in> set cs"
  shows "\<not> 0 < weight og"
proof
  assume pos: "0 < weight og"
  have "list_all weight_ok (map weight cs)" by (simp add: list_all_iff ok)
  from weighted_random_select_positive [OF this rng _ pos] og
  have "0 < map weight cs ! weighted_random_select g (map weight cs)" by (simp del: nth_map)
  moreover have "cs \<noteq> []" using og by auto
  ultimately show False using sel by (simp add: select_by_weight_def Let_def del: nth_map split: if_splits)
qed

section \<open>The contract of the trait\<close>

locale load_balancer =
  fixes select :: "'g \<Rightarrow> 'e list \<Rightarrow> 's \<Rightarrow> 'b \<Rightarrow> 'e option \<times> 'b"
    and admissible :: "'b \<Rightarrow> 's \<Rightarrow> 'e \<Rightarrow> bool"
    and valid :: "'g \<Rightarrow> bool"
  assumes select_Some:
      "valid g \<Longrightarrow> fst (select g cs st b) = Some og \<Longrightarrow> og \<in> set cs \<and> admissible b st og"
    and select_None:
      "valid g \<Longrightarrow> fst (select g cs st b) = None \<Longrightarrow> og \<in> set cs \<Longrightarrow> \<not> admissible b st og"
    and select_stable: "admissible (snd (select g cs st b)) = admissible b"
begin

lemma select_None_iff:
  assumes "valid g"
  shows "fst (select g cs st b) = None \<longleftrightarrow> list_all (\<lambda>og. \<not> admissible b st og) cs"
proof (cases "fst (select g cs st b)")
  case None
  with select_None [OF assms None] show ?thesis by (simp add: list_all_iff)
next
  case (Some og)
  with select_Some [OF assms Some] show ?thesis by (auto simp: list_all_iff)
qed

lemma select_sole:
  assumes "valid g" and "og \<in> set cs" and "admissible b st og"
    and "\<And>x. x \<in> set cs \<Longrightarrow> admissible b st x \<Longrightarrow> x = og"
  shows "fst (select g cs st b) = Some og"
proof (cases "fst (select g cs st b)")
  case None
  with select_None [OF assms(1) None assms(2)] assms(3) show ?thesis by simp
next
  case (Some x)
  with select_Some [OF assms(1) Some] assms(4) show ?thesis by simp
qed

end

lemma rr_select_find: "fst (rr_select cs st c) = List.find (is_up st) (rotate (unat c) cs)"
  by (simp add: rr_select_find_rotate)

interpretation rr: load_balancer "\<lambda>(g::rng) cs st c. rr_select cs st c" "\<lambda>c. is_up" rng_ok
proof (unfold_locales, goal_cases)
  case (1 g cs st b og)
  then show ?case using find_Some_set [of "is_up st" "rotate (unat b) cs" og]
    by (simp add: rr_select_find)
next
  case (2 g cs st b og)
  then show ?case by (simp add: rr_select_find find_None_iff)
qed simp

definition weighted_admissible :: "'u url_ops \<Rightarrow> origin_states \<Rightarrow> 'u origin_endpoint \<Rightarrow> bool" where
  "weighted_admissible U st og \<longleftrightarrow> \<not> is_down U st og \<and> oe_weight og \<noteq> Some 0"

interpretation wl: load_balancer "\<lambda>g cs st b. (wl_select U g cs st, b)"
  "\<lambda>(b::balancer). weighted_admissible U" rng_ok for U
  using select_by_weight_Some [where weight = "latency_weight U st" for st, OF _ latency_weight_ok]
    select_by_weight_None [where weight = "latency_weight U st" for st, OF _ latency_weight_ok]
  by unfold_locales (auto simp: wl_select_def weighted_admissible_def simp flip: latency_weight_pos)

interpretation wm: load_balancer "\<lambda>g cs st b. (wm_select U g cs st, b)"
  "\<lambda>(b::balancer). weighted_admissible U" rng_ok for U
  using select_by_weight_Some [where weight = "metrics_weight U st" for st, OF _ metrics_weight_ok]
    select_by_weight_None [where weight = "metrics_weight U st" for st, OF _ metrics_weight_ok]
  by unfold_locales (auto simp: wm_select_def weighted_admissible_def simp flip: metrics_weight_pos)

fun origin_admissible :: "'u url_ops \<Rightarrow> balancer \<Rightarrow> origin_states \<Rightarrow> 'u origin_endpoint \<Rightarrow> bool" where
  "origin_admissible U (RoundRobinBalancer c) st og = is_up st og"
| "origin_admissible U WeightedLatencyBalancer st og = weighted_admissible U st og"
| "origin_admissible U WeightedMetricsBalancer st og = weighted_admissible U st og"

lemma select_origin_rr: "fst (select_origin U g cs st (RoundRobinBalancer c)) = fst (rr_select cs st c)"
  by (simp split: prod.splits)

interpretation lb: load_balancer "\<lambda>g cs st b. select_origin U g cs st b" "origin_admissible U" rng_ok for U
proof (unfold_locales, goal_cases)
  case (1 g cs st b og)
  then show ?case
  proof (cases b)
    case (RoundRobinBalancer c)
    with 1 rr.select_Some [of g cs st c og] show ?thesis by (simp add: select_origin_rr del: select_origin.simps)
  qed (use 1 wl.select_Some [of g U cs st b og] wm.select_Some [of g U cs st b og] in auto)
next
  case (2 g cs st b og)
  then show ?case
  proof (cases b)
    case (RoundRobinBalancer c)
    with 2 rr.select_None [of g cs st c og] show ?thesis by (simp add: select_origin_rr del: select_origin.simps)
  qed (use 2 wl.select_None [of g U cs st b og] wm.select_None [of g U cs st b og] in auto)
next
  case (3 g cs st b)
  show ?case by (cases b) (auto simp: fun_eq_iff split: prod.splits)
qed

section \<open>Properties of the three balancers\<close>

text \<open>The key of an endpoint is the serialisation of its URL, as the router builds it.\<close>

definition endpoint_ok :: "'u url_ops \<Rightarrow> 'u origin_endpoint \<Rightarrow> bool" where
  "endpoint_ok U og \<longleftrightarrow> url_key og = url_to_string U (oe_url og)"

lemma up_not_down: "endpoint_ok U og \<Longrightarrow> is_up st og \<Longrightarrow> \<not> is_down U st og"
  by (simp add: endpoint_ok_def is_up_def is_down_def split: option.splits)

lemma admissible_not_down: "endpoint_ok U og \<Longrightarrow> origin_admissible U b st og \<Longrightarrow> \<not> is_down U st og"
  by (cases b) (auto simp: weighted_admissible_def dest: up_not_down)

text \<open>
  No balancer ever selects an origin that is marked unhealthy, nor one outside the
  candidates of the route.
\<close>

theorem select_origin_avoids_down:
  assumes "rng_ok g" and "list_all (endpoint_ok U) cs"
    and "fst (select_origin U g cs st b) = Some og"
  shows "og \<in> set cs \<and> \<not> is_down U st og"
proof -
  have sel: "og \<in> set cs" "origin_admissible U b st og" using lb.select_Some [OF assms(1,3)] by auto
  with assms(2) have "endpoint_ok U og" by (simp add: list_all_iff)
  with sel admissible_not_down [of U og b st] show ?thesis by simp
qed

text \<open>
  C16. A request is refused for lack of an origin only when there is none: the selection is
  empty exactly when no candidate is healthy and known (round robin), or when every candidate
  is unhealthy or has weight zero (weighted). Rounding never makes the weighted loop miss.
\<close>

theorem select_origin_complete:
  assumes "rng_ok g"
  shows "fst (select_origin U g cs st b) = None \<longleftrightarrow>
    list_all (\<lambda>og. \<not> (case b of RoundRobinBalancer _ \<Rightarrow> is_up st og
                    | _ \<Rightarrow> \<not> is_down U st og \<and> oe_weight og \<noteq> Some 0)) cs"
proof -
  have "origin_admissible U b st og =
      (case b of RoundRobinBalancer _ \<Rightarrow> is_up st og | _ \<Rightarrow> \<not> is_down U st og \<and> oe_weight og \<noteq> Some 0)" for og
    by (cases b) (simp_all add: weighted_admissible_def)
  then have "origin_admissible U b st = (\<lambda>og. case b of RoundRobinBalancer _ \<Rightarrow> is_up st og
      | _ \<Rightarrow> \<not> is_down U st og \<and> oe_weight og \<noteq> Some 0)"
    by (rule ext)
  with lb.select_None_iff [OF assms, of U cs st b] show ?thesis by (simp only:)
qed

text \<open>
  The weighted choice is by slices of the total weight: the index returned is the one whose
  interval of cumulative weights holds the scaled random value.
\<close>

theorem weighted_choice_slice:
  assumes "rng_ok g" and "list_all weight_ok ws" and "0 < total_weight ws"
  shows "total_weight (take (weighted_random_select g ws) ws) \<le> fl (random_f64 g * total_weight ws) \<and>
         fl (random_f64 g * total_weight ws) < total_weight (take (Suc (weighted_random_select g ws)) ws)"
proof -
  have "\<exists>w \<in> set ws. 0 < w"
  proof (rule ccontr)
    assume "\<not> (\<exists>w \<in> set ws. 0 < w)"
    then have "list_all (\<lambda>w. w = 0) ws"
      using assms(2) weight_ok_nonneg by (auto simp: list_all_iff le_less)
    then have "fold (\<lambda>w acc. fl (acc + w)) ws 0 = 0" by (induction ws) auto
    with assms(3) show False by (simp add: total_weight_def)
  qed
  then obtain w where w: "w \<in> set ws" "0 < w" by blast
  have "least_weight \<le> total_weight ws"
    using total_weight_facts(3) [OF assms(2) w(1)] w assms(2)
    by (fastforce simp: list_all_iff weight_ok_def)
  moreover have "2 powi (-1021) \<le> least_weight"
    unfolding least_weight_def by (rule powi2_mono) simp
  ultimately have tiny: "2 powi (-1021) \<le> total_weight ws" by (rule_tac order_trans)
  have less: "fl (random_f64 g * total_weight ws) < total_weight ws"
    using assms(1) tiny total_weight_facts(1) [OF assms(2)] by (intro fl_mult_less) (auto simp: rng_ok_def)
  have nonneg: "0 \<le> fl (random_f64 g * total_weight ws)"
    using assms(1,3) by (intro f64.rnd_nonneg) (simp add: rng_ok_def)
  obtain j where "pick_cumulative (fl (random_f64 g * total_weight ws)) 0 0 ws = Some j"
    using pick_cumulative_found [OF assms(2) is_f64_0 _ less [unfolded total_weight_def], of 0] nonneg
    by (auto simp: total_weight_def)
  with pick_cumulative_slice [OF this nonneg] assms(3) show ?thesis
    by (simp add: weighted_random_select_def Let_def total_weight_def)
qed

text \<open>
  Latency counts: of two healthy, measured origins with the same user weight, the one with
  the lower average latency never has the smaller weight.
\<close>

lemma u64_as_f64_mono: "a \<le> b \<Longrightarrow> u64_as_f64 a \<le> u64_as_f64 b"
  unfolding u64_as_f64_def by (intro fl_mono) (simp add: word_le_nat_alt del: of_nat_unat)

lemma inverse_latency_antitone: "a \<le> b \<Longrightarrow> inverse_latency b \<le> inverse_latency a"
  unfolding inverse_latency_def
  using u64_as_f64_mono [of a b] u64_as_f64_bounds(1) [of a] f64.rnd_ge_1 [of "u64_as_f64 a + 1"]
  by (intro fl_mono frac_le) auto

theorem lower_latency_weighs_more:
  assumes "store_get st (url_to_string U (oe_url og1)) = Some s1" and "healthy s1"
    and "store_get st (url_to_string U (oe_url og2)) = Some s2" and "healthy s2"
    and "0 < ewma_latency_ns s1" and "ewma_latency_ns s1 \<le> ewma_latency_ns s2"
    and "oe_weight og1 = oe_weight og2"
  shows "latency_weight U st og2 \<le> latency_weight U st og1"
proof -
  have "0 < ewma_latency_ns s2" using assms(5,6) by (rule less_le_trans)
  then show ?thesis
    using assms inverse_latency_antitone [OF assms(6)]
    by (auto simp: latency_weight_def user_weighted_def word_neq_0_conv
        intro!: fl_mono mult_right_mono split: option.splits)
qed

text \<open>
  The weighted-metrics balancer ignores latency: its selection depends on the origin states
  only through which origins are known and healthy, although the documentation says that it
  falls back to latency weighting.
\<close>

theorem metrics_balancer_ignores_latency:
  assumes "\<And>k. map_option healthy (store_get st k) = map_option healthy (store_get st' k)"
  shows "wm_select U g cs st = wm_select U g cs st'"
proof -
  have "is_down U st og = is_down U st' og" for og
    using assms [of "url_to_string U (oe_url og)"]
    by (auto simp: is_down_def split: option.splits)
  then have "metrics_weight U st = metrics_weight U st'"
    by (simp add: fun_eq_iff metrics_weight_eq)
  then show ?thesis by (simp add: wm_select_def)
qed

section \<open>Witnesses\<close>

definition sample_endpoint :: "string \<Rightarrow> u32 option \<Rightarrow> string origin_endpoint" where
  "sample_endpoint u w = \<lparr>oe_url = u, url_key = u, url_base = u, oe_weight = w, oe_health_check_path = None\<rparr>"

definition sample_states :: origin_states where
  "sample_states = [(''a'', new_origin_state\<lparr>ewma_latency_ns := 3\<rparr>),
     (''b'', new_origin_state\<lparr>ewma_latency_ns := 9\<rparr>), (''c'', new_origin_state\<lparr>healthy := False\<rparr>)]"

definition sample_rng :: rng where
  "sample_rng = \<lparr>random_range = (\<lambda>_. 0), random_f64 = 0\<rparr>"

lemma sample_rng_ok: "rng_ok sample_rng"
  by (simp add: rng_ok_def sample_rng_def)

lemmas sample_defs = sample_endpoint_def sample_states_def new_origin_state_def

lemma rr_fair_witness:
  "list_all (is_up sample_states) [sample_endpoint ''a'' None, sample_endpoint ''b'' None] \<and>
   count_list (rr_picks (3 * length [sample_endpoint ''a'' None, sample_endpoint ''b'' None])
     [sample_endpoint ''a'' None, sample_endpoint ''b'' None] sample_states 7) (Some (sample_endpoint ''a'' None)) = 3"
proof -
  have up: "list_all (is_up sample_states) [sample_endpoint ''a'' None, sample_endpoint ''b'' None]"
    by (simp add: is_up_def sample_defs store_get_def)
  show ?thesis
    using up rr_fair [OF up, of 7 3 "sample_endpoint ''a'' None"] by (simp add: sample_endpoint_def)
qed

lemma select_origin_avoids_down_witness:
  "fst (select_origin sample_urls sample_rng [sample_endpoint ''c'' None, sample_endpoint ''a'' None]
     sample_states (RoundRobinBalancer 0)) = Some (sample_endpoint ''a'' None) \<and>
   \<not> is_down sample_urls sample_states (sample_endpoint ''a'' None)"
proof -
  have run: "fst (select_origin sample_urls sample_rng [sample_endpoint ''c'' None, sample_endpoint ''a'' None]
     sample_states (RoundRobinBalancer 0)) = Some (sample_endpoint ''a'' None)"
    by (simp add: rr_select_find_rotate is_up_def sample_defs store_get_def)
  have ok: "list_all (endpoint_ok sample_urls) [sample_endpoint ''c'' None, sample_endpoint ''a'' None]"
    by (simp add: endpoint_ok_def sample_endpoint_def)
  show ?thesis using run select_origin_avoids_down [OF sample_rng_ok ok run] by simp
qed

lemma select_origin_complete_witness:
  "fst (select_origin sample_urls sample_rng [sample_endpoint ''c'' None, sample_endpoint ''x'' (Some 0)]
     sample_states WeightedLatencyBalancer) = None"
  unfolding select_origin_complete [OF sample_rng_ok]
  by (simp add: is_down_def sample_defs store_get_def)

lemma weighted_choice_slice_witness:
  "total_weight (take (weighted_random_select sample_rng [1, 1]) [1, 1])
     \<le> fl (random_f64 sample_rng * total_weight [1, 1]) \<and>
   fl (random_f64 sample_rng * total_weight [1, 1])
     < total_weight (take (Suc (weighted_random_select sample_rng [1, 1])) [1, 1])"
proof (rule weighted_choice_slice [OF sample_rng_ok])
  have "is_f64 1" using is_f64_of_nat [of 1] by simp
  then show "list_all weight_ok [1, 1]" by (simp add: weight_ok_def)
  show "0 < total_weight [1, 1]"
    using f64.rnd_of_nat [of 2] by (simp add: total_weight_def f64.rnd_one)
qed

lemma lower_latency_weighs_more_witness:
  "latency_weight sample_urls sample_states (sample_endpoint ''b'' None)
     \<le> latency_weight sample_urls sample_states (sample_endpoint ''a'' None)"
  by (rule lower_latency_weighs_more [where ?s1.0 = "new_origin_state\<lparr>ewma_latency_ns := 3\<rparr>"
        and ?s2.0 = "new_origin_state\<lparr>ewma_latency_ns := 9\<rparr>"])
     (simp_all add: sample_defs store_get_def word_less_nat_alt word_le_nat_alt)

lemma metrics_balancer_ignores_latency_witness:
  "wm_select sample_urls sample_rng [sample_endpoint ''a'' None] sample_states =
   wm_select sample_urls sample_rng [sample_endpoint ''a'' None]
     [(''a'', new_origin_state), (''b'', new_origin_state), (''c'', new_origin_state\<lparr>healthy := False\<rparr>)]"
  by (rule metrics_balancer_ignores_latency) (simp add: sample_defs store_get_def)

end
