(* ===== verification/Route.thy ===== *)
theory Route
  imports Balancers "HOL-Library.Multiset"
begin

text \<open>
  \<open>src/src/route.rs\<close>: the router built from a configuration, with or without the origins
  discovered in the cluster, and the matching of a request to a route. A route entry owns its
  load balancer; \<open>k8s_origins\<close> maps a pool name to the discovered URLs.
\<close>

section \<open>Data\<close>

record 'u route_entry =
  re_match_host :: "string option"
  re_match_path :: "string option"
  re_key :: string
  re_config :: "'u route_config"
  re_load_balancer :: balancer
  re_candidates :: "'u origin_endpoint list"

record 'u router =
  entries :: "'u route_entry list"

section \<open>Construction\<close>

definition new_load_balancer :: "lb_algorithm \<Rightarrow> balancer" where
  "new_load_balancer a =
     (case a of RoundRobin \<Rightarrow> round_robin_new
      | WeightedLatency \<Rightarrow> weighted_latency_new
      | WeightedMetrics \<Rightarrow> weighted_metrics_new)"

declare round_robin_new_def [simp] weighted_latency_new_def [simp] weighted_metrics_new_def [simp]

definition endpoint_for :: "'u url_ops \<Rightarrow> u32 option \<Rightarrow> string option \<Rightarrow> 'u \<Rightarrow> 'u origin_endpoint" where
  "endpoint_for U w hc url = \<lparr>oe_url = url, url_key = url_to_string U url,
     url_base = trim_end_matches (CHR ''/'') (url_to_string U url),
     oe_weight = w, oe_health_check_path = hc\<rparr>"

definition static_endpoints :: "'u url_ops \<Rightarrow> 'u pool_ref \<Rightarrow> 'u origin_endpoint list" where
  "static_endpoints U p =
     map (\<lambda>og. endpoint_for U (oc_weight og) (oc_health_check_path og) (oc_url og)) (pl_origins p)"

definition k8s_endpoints ::
  "'u url_ops \<Rightarrow> (string, 'u list) store \<Rightarrow> 'u pool_ref \<Rightarrow> 'u origin_endpoint list" where
  "k8s_endpoints U k8s_origins p =
     (case store_get k8s_origins (pl_name p) of
        None \<Rightarrow> []
      | Some urls \<Rightarrow> map (endpoint_for U None None) urls)"

definition route_key :: "string option \<Rightarrow> string option \<Rightarrow> string" where
  "route_key h p =
     (case h of Some x \<Rightarrow> x | None \<Rightarrow> ''*'') @ '':'' @ (case p of Some x \<Rightarrow> x | None \<Rightarrow> ''*'')"

definition entry_for :: "'u route_config \<Rightarrow> 'u origin_endpoint list \<Rightarrow> 'u route_entry" where
  "entry_for r candidates = \<lparr>re_match_host = match_host r, re_match_path = match_path r,
     re_key = route_key (match_host r) (match_path r), re_config = r,
     re_load_balancer = new_load_balancer (lb_algorithm r), re_candidates = candidates\<rparr>"

definition from_config :: "'u url_ops \<Rightarrow> 'u proxy_config \<Rightarrow> 'u router" where
  "from_config U c = \<lparr>entries =
     map (\<lambda>r. entry_for r (concat (map (static_endpoints U) (pools r)))) (routes c)\<rparr>"

definition from_config_with_k8s ::
  "'u url_ops \<Rightarrow> 'u proxy_config \<Rightarrow> (string, 'u list) store \<Rightarrow> 'u router" where
  "from_config_with_k8s U c k8s_origins = \<lparr>entries =
     map (\<lambda>r. entry_for r
            (concat (map (\<lambda>p. static_endpoints U p @ k8s_endpoints U k8s_origins p) (pools r))))
         (routes c)\<rparr>"

section \<open>Matching\<close>

definition match_glob :: "string \<Rightarrow> string \<Rightarrow> bool" where
  "match_glob value pattern =
     (if pattern = ''*'' then True
      else if CHR ''*'' \<in> set pattern then
        (case split_on (CHR ''*'') pattern of
           [pre, suf] \<Rightarrow> starts_with value pre \<and> ends_with value suf
         | _ \<Rightarrow> value = pattern)
      else value = pattern)"

definition entry_matches :: "string \<Rightarrow> string \<Rightarrow> 'u route_entry \<Rightarrow> bool" where
  "entry_matches host path e =
     ((case re_match_host e of Some pattern \<Rightarrow> match_glob host pattern | None \<Rightarrow> True) \<and>
      (case re_match_path e of Some pre \<Rightarrow> starts_with path pre | None \<Rightarrow> True))"

text \<open>The position of the first matching entry; the entry is updated in place by its balancer.\<close>

fun match_entries :: "string \<Rightarrow> string \<Rightarrow> nat \<Rightarrow> 'u route_entry list \<Rightarrow> nat option" where
  "match_entries host path i [] = None"
| "match_entries host path i (e # es) =
     (if entry_matches host path e then Some i else match_entries host path (Suc i) es)"

definition match_route :: "'u router \<Rightarrow> string \<Rightarrow> string \<Rightarrow> nat option" where
  "match_route R host path = match_entries host path 0 (entries R)"

section \<open>Matching: first match wins\<close>

lemma match_entries_Some:
  "match_entries host path i es = Some k \<longleftrightarrow>
     i \<le> k \<and> k - i < length es \<and> entry_matches host path (es ! (k - i)) \<and>
     (\<forall>j < k - i. \<not> entry_matches host path (es ! j))"
proof (induction es arbitrary: i)
  case (Cons e es)
  show ?case
  proof (cases "entry_matches host path e")
    case True
    then show ?thesis by (auto simp: nth_Cons' split: if_splits)
  next
    case False
    have "(i \<le> k \<and> k - i < length (e # es) \<and> entry_matches host path ((e # es) ! (k - i)) \<and>
        (\<forall>j < k - i. \<not> entry_matches host path ((e # es) ! j))) \<longleftrightarrow>
      (Suc i \<le> k \<and> k - Suc i < length es \<and> entry_matches host path (es ! (k - Suc i)) \<and>
        (\<forall>j < k - Suc i. \<not> entry_matches host path (es ! j)))"
    proof (cases "i < k")
      case True
      then obtain n where n: "k - i = Suc n" "k - Suc i = n" by (cases "k - i") auto
      with True False show ?thesis by (auto simp: All_less_Suc2)
    next
      case False
      with \<open>\<not> entry_matches host path e\<close> show ?thesis by auto
    qed
    with False Cons show ?thesis by simp
  qed
qed simp

lemma match_entries_None:
  "match_entries host path i es = None \<longleftrightarrow> list_all (\<lambda>e. \<not> entry_matches host path e) es"
  by (induction es arbitrary: i) auto

text \<open>
  C19. The first matching route wins: the route chosen matches host and path, no earlier one
  does, and no route is chosen only when none matches.
\<close>

theorem match_route_first:
  "(match_route R host path = Some k \<longleftrightarrow>
     k < length (entries R) \<and> entry_matches host path (entries R ! k) \<and>
     list_all (\<lambda>e. \<not> entry_matches host path e) (take k (entries R))) \<and>
   (match_route R host path = None \<longleftrightarrow> list_all (\<lambda>e. \<not> entry_matches host path e) (entries R))"
  by (auto simp: match_route_def match_entries_Some match_entries_None list_all_length)

section \<open>Host patterns\<close>

text \<open>What a pattern means when every \<open>*\<close> stands for any string.\<close>

fun glob_matches :: "string \<Rightarrow> string \<Rightarrow> bool" where
  "glob_matches [] v = (v = [])"
| "glob_matches (c # p) v =
     (if c = CHR ''*'' then list_ex (\<lambda>k. glob_matches p (drop k v)) [0..<Suc (length v)]
      else (case v of [] \<Rightarrow> False | x # xs \<Rightarrow> x = c \<and> glob_matches p xs))"

lemma glob_literal: "CHR ''*'' \<notin> set p \<Longrightarrow> glob_matches p v \<longleftrightarrow> v = p"
  by (induction p arbitrary: v) (auto split: list.splits)

lemma glob_star_literal: "CHR ''*'' \<notin> set s \<Longrightarrow> glob_matches (CHR ''*'' # s) v \<longleftrightarrow> suffix s v"
proof -
  assume s: "CHR ''*'' \<notin> set s"
  have "glob_matches (CHR ''*'' # s) v \<longleftrightarrow> (\<exists>k \<le> length v. drop k v = s)"
    by (auto simp: glob_literal [OF s] list_ex_iff less_Suc_eq_le simp del: upt_Suc)
  also have "\<dots> \<longleftrightarrow> suffix s v"
  proof
    assume "suffix s v"
    then obtain b where "v = b @ s" by (auto simp: suffix_def)
    then show "\<exists>k \<le> length v. drop k v = s" by (intro exI [of _ "length b"]) simp
  qed (auto simp: suffix_drop)
  finally show ?thesis .
qed

lemma glob_one_star:
  "CHR ''*'' \<notin> set p \<Longrightarrow> CHR ''*'' \<notin> set s \<Longrightarrow>
     glob_matches (p @ CHR ''*'' # s) v \<longleftrightarrow> (\<exists>m. v = p @ m @ s)"
proof (induction p arbitrary: v)
  case Nil
  then show ?case using glob_star_literal [of s v] by (auto simp: suffix_def)
next
  case (Cons c p)
  then show ?case by (auto split: list.splits)
qed

lemma match_glob_one_star:
  assumes "CHR ''*'' \<notin> set p" and "CHR ''*'' \<notin> set s"
  shows "match_glob v (p @ CHR ''*'' # s) \<longleftrightarrow> prefix p v \<and> suffix s v"
proof -
  have split: "split_on (CHR ''*'') (p @ CHR ''*'' # s) = [p, s]"
    using assms by (simp add: split_on_append split_on_absent)
  show ?thesis
  proof (cases "p @ CHR ''*'' # s = ''*''")
    case True
    then have "p = [] \<and> s = []" by (cases p) auto
    then show ?thesis by (simp add: match_glob_def)
  next
    case False
    then show ?thesis by (simp add: match_glob_def split starts_with_def ends_with_def)
  qed
qed

lemma prefix_suffix_middle:
  "length p + length s \<le> length v \<Longrightarrow> prefix p v \<Longrightarrow> suffix s v \<Longrightarrow> \<exists>m. v = p @ m @ s"
proof -
  assume len: "length p + length s \<le> length v" and "prefix p v" and "suffix s v"
  then obtain a b where a: "v = p @ a" and b: "v = b @ s" unfolding prefix_def suffix_def by blast
  from b have "length v = length b + length s" by simp
  with len have "length p \<le> length b" by linarith
  moreover have "p @ a = b @ s" using a b by simp
  ultimately obtain m where "b = p @ m" by (auto simp: append_eq_append_conv2)
  with b show ?thesis by auto
qed

lemma one_star_cases:
  assumes "count_list pattern (CHR ''*'') \<le> 1"
  obtains "CHR ''*'' \<notin> set pattern"
  | p s where "pattern = p @ CHR ''*'' # s" and "CHR ''*'' \<notin> set p" and "CHR ''*'' \<notin> set s"
proof (cases "CHR ''*'' \<in> set pattern")
  case True
  then obtain p s where ps: "pattern = p @ CHR ''*'' # s" "CHR ''*'' \<notin> set p"
    by (meson split_list_first)
  with assms have "count_list s (CHR ''*'') = 0" by simp
  with ps that(2) show ?thesis by (simp add: count_list_0_iff)
qed (use that in blast)

text \<open>
  C33. With at most one \<open>*\<close> in the pattern and a host at least as long as the pattern's literal
  part, a host matches exactly when it is an instance of the pattern.
\<close>

theorem match_glob_correct:
  assumes "count_list pattern (CHR ''*'') \<le> 1" and "length pattern \<le> Suc (length value)"
  shows "match_glob value pattern \<longleftrightarrow> glob_matches pattern value"
  using assms(1)
proof (cases rule: one_star_cases)
  case 1
  then show ?thesis by (auto simp: match_glob_def glob_literal)
next
  case (2 p s)
  with assms(2) show ?thesis
    by (auto simp: match_glob_one_star glob_one_star intro: prefix_suffix_middle suffix_appendI)
qed

text \<open>
  Outside that fragment the matcher departs from the glob: a short host matches when the
  text before and after the \<open>*\<close> overlap in it, and with two \<open>*\<close> only the literal pattern matches.
\<close>

theorem match_glob_departures:
  "match_glob ''aba'' ''ab*ba'' \<and> \<not> glob_matches ''ab*ba'' ''aba'' \<and>
   \<not> match_glob ''a.b.example.com'' ''*.b.*'' \<and> glob_matches ''*.b.*'' ''a.b.example.com'' \<and>
   (1 < count_list pattern (CHR ''*'') \<longrightarrow> (match_glob value pattern \<longleftrightarrow> value = pattern))"
proof (intro conjI impI)
  assume "1 < count_list pattern (CHR ''*'')"
  then have "2 < length (split_on (CHR ''*'') pattern)" by (simp add: length_split_on)
  moreover from \<open>1 < count_list pattern (CHR ''*'')\<close> have "pattern \<noteq> ''*''" by auto
  ultimately show "match_glob value pattern \<longleftrightarrow> value = pattern"
    by (auto simp: match_glob_def split: list.splits)
qed (simp_all add: match_glob_def starts_with_def ends_with_def suffix_to_prefix glob_literal upt_rec)

lemma match_glob_departures_witness:
  "\<not> match_glob ''a.b.example.com'' ''*.b.*'' \<and> (1::nat) < count_list ''*.b.*'' (CHR ''*'')"
  using match_glob_departures by simp

lemma match_glob_correct_witness:
  "match_glob ''foo.example.com'' ''*.example.com'' \<and> glob_matches ''*.example.com'' ''foo.example.com''"
proof -
  have "match_glob ''foo.example.com'' ''*.example.com''"
    by (simp add: match_glob_def starts_with_def ends_with_def suffix_to_prefix)
  with match_glob_correct [of "''*.example.com''" "''foo.example.com''"] show ?thesis by simp
qed

section \<open>What the router holds\<close>

lemma endpoint_for_fields [route_simps]:
  "oe_url (endpoint_for U w hc url) = url"
  "url_key (endpoint_for U w hc url) = url_to_string U url"
  "url_base (endpoint_for U w hc url) = trim_end_matches (CHR ''/'') (url_to_string U url)"
  "oe_weight (endpoint_for U w hc url) = w"
  "oe_health_check_path (endpoint_for U w hc url) = hc"
  by (simp_all add: endpoint_for_def)

lemma entry_for_fields [route_simps]:
  "re_match_host (entry_for r cs) = match_host r"
  "re_match_path (entry_for r cs) = match_path r"
  "re_key (entry_for r cs) = route_key (match_host r) (match_path r)"
  "re_candidates (entry_for r cs) = cs"
  "re_load_balancer (entry_for r cs) = new_load_balancer (lb_algorithm r)"
  "re_config (entry_for r cs) = r"
  by (simp_all add: entry_for_def)

text \<open>The URLs a route may be proxied to: its own origins and the discovered ones of its pools.\<close>

definition config_urls :: "'u proxy_config \<Rightarrow> 'u list" where
  "config_urls c = concat (map (\<lambda>r. concat (map (\<lambda>p. map oc_url (pl_origins p)) (pools r))) (routes c))"

definition k8s_urls :: "(string, 'u list) store \<Rightarrow> 'u list" where
  "k8s_urls k8s_origins = concat (map snd k8s_origins)"

lemma static_endpoints_urls: "map oe_url (static_endpoints U p) = map oc_url (pl_origins p)"
  by (simp add: static_endpoints_def route_simps comp_def)

lemma endpoint_ok_for [simp]: "endpoint_ok U (endpoint_for U w hc url)"
  by (simp add: endpoint_ok_def route_simps)

lemma static_endpoints_ok: "list_all (endpoint_ok U) (static_endpoints U p)"
  by (simp add: static_endpoints_def list_all_iff)

lemma k8s_endpoints_ok: "list_all (endpoint_ok U) (k8s_endpoints U m p)"
  by (cases "store_get m (pl_name p)") (simp_all add: k8s_endpoints_def list_all_iff)

lemma k8s_endpoints_urls: "oe_url ` set (k8s_endpoints U m p) \<subseteq> set (k8s_urls m)"
proof (cases "store_get m (pl_name p)")
  case (Some urls)
  then have "(pl_name p, urls) \<in> set m" unfolding store_get_def by (rule map_of_SomeD)
  then have "set urls \<subseteq> set (k8s_urls m)" by (force simp: k8s_urls_def)
  with Some show ?thesis by (auto simp: k8s_endpoints_def route_simps)
qed (simp add: k8s_endpoints_def)

lemma from_config_with_k8s_candidates:
  assumes "e \<in> set (entries (from_config_with_k8s U c m))" and "og \<in> set (re_candidates e)"
  shows "endpoint_ok U og \<and> oe_url og \<in> set (config_urls c) \<union> set (k8s_urls m)"
proof -
  obtain r p where r: "r \<in> set (routes c)" "p \<in> set (pools r)"
    "og \<in> set (static_endpoints U p) \<or> og \<in> set (k8s_endpoints U m p)"
    using assms by (auto simp: from_config_with_k8s_def route_simps)
  then show ?thesis
  proof (elim disjE)
    assume og: "og \<in> set (static_endpoints U p)"
    then have "oe_url og \<in> set (map oe_url (static_endpoints U p))" by simp
    then have "oe_url og \<in> set (config_urls c)"
      unfolding static_endpoints_urls using r(1,2) by (auto simp: config_urls_def)
    with og static_endpoints_ok [of U p] show ?thesis by (simp add: list_all_iff)
  next
    assume og: "og \<in> set (k8s_endpoints U m p)"
    with k8s_endpoints_ok [of U m p] k8s_endpoints_urls [of U m p] show ?thesis
      by (auto simp: list_all_iff)
  qed
qed

lemma from_config_eq: "from_config U c = from_config_with_k8s U c store_empty"
proof -
  have "k8s_endpoints U store_empty p = []" for p :: "'a pool_ref"
    by (simp add: k8s_endpoints_def store_gets)
  then show ?thesis by (simp add: from_config_with_k8s_def from_config_def)
qed

text \<open>
  Without discovered origins the two router constructors agree; with them, each route keeps
  its static origins and gains, per pool, the endpoints of the URLs discovered for the pool's
  name, with no weight and no health path.
\<close>

theorem k8s_router_extends_static:
  "from_config_with_k8s U c store_empty = from_config U c \<and>
   map re_key (entries (from_config_with_k8s U c m)) = map re_key (entries (from_config U c)) \<and>
   map (mset \<circ> re_candidates) (entries (from_config_with_k8s U c m)) =
     map (\<lambda>r. mset (concat (map (static_endpoints U) (pools r))) +
              mset (concat (map (\<lambda>p. map (endpoint_for U None None)
                (case store_get m (pl_name p) of None \<Rightarrow> [] | Some urls \<Rightarrow> urls)) (pools r)))) (routes c)"
proof (intro conjI)
  show "from_config_with_k8s U c store_empty = from_config U c"
    by (simp add: from_config_eq)
  show "map re_key (entries (from_config_with_k8s U c m)) = map re_key (entries (from_config U c))"
    by (simp add: from_config_with_k8s_def from_config_def route_simps comp_def)
  have k8s: "k8s_endpoints U m p = map (endpoint_for U None None)
      (case store_get m (pl_name p) of None \<Rightarrow> [] | Some urls \<Rightarrow> urls)" for p :: "'a pool_ref"
    by (simp add: k8s_endpoints_def split: option.splits)
  have "mset (concat (map (\<lambda>p. f p @ g p) ps)) = mset (concat (map f ps)) + mset (concat (map g ps))"
    for f g :: "'a pool_ref \<Rightarrow> 'a origin_endpoint list" and ps
    by (induction ps) auto
  then show "map (mset \<circ> re_candidates) (entries (from_config_with_k8s U c m)) =
     map (\<lambda>r. mset (concat (map (static_endpoints U) (pools r))) +
              mset (concat (map (\<lambda>p. map (endpoint_for U None None)
                (case store_get m (pl_name p) of None \<Rightarrow> [] | Some urls \<Rightarrow> urls)) (pools r)))) (routes c)"
    by (simp add: from_config_with_k8s_def route_simps k8s comp_def)
qed

lemma from_config_candidates:
  assumes "e \<in> set (entries (from_config U c))" and "og \<in> set (re_candidates e)"
  shows "endpoint_ok U og \<and> oe_url og \<in> set (config_urls c)"
  using from_config_with_k8s_candidates [of e U c store_empty og] assms
  by (simp add: from_config_eq k8s_urls_def store_empty_def)

text \<open>
  C34. A validated configuration gives a router in which every route has a candidate and every
  candidate is an \<open>http\<close> URL keyed by its serialisation.
\<close>

theorem validated_router_is_usable:
  assumes "validate U path_exists c = Inr ()" and "e \<in> set (entries (from_config U c))"
  shows "re_candidates e \<noteq> [] \<and>
    list_all (\<lambda>og. url_scheme U (oe_url og) = ''http'' \<and> endpoint_ok U og) (re_candidates e)"
proof -
  have ok: "list_all (route_ok U) (routes c)"
    using assms(1) by (simp add: validate_ok_iff config_ok_def)
  from assms(2) obtain r where r: "r \<in> set (routes c)"
    and e: "re_candidates e = concat (map (static_endpoints U) (pools r))"
    by (auto simp: from_config_def route_simps)
  from ok r have "pools r \<noteq> []" and pl: "\<And>p. p \<in> set (pools r) \<Longrightarrow> pool_ok U p"
    by (auto simp: list_all_iff route_ok_def)
  then have "re_candidates e \<noteq> []"
    unfolding e by (cases "pools r") (auto simp: static_endpoints_def pool_ok_def)
  moreover have "url_scheme U (oe_url og) = ''http'' \<and> endpoint_ok U og" if "og \<in> set (re_candidates e)" for og
    using that pl unfolding e
    by (fastforce simp: static_endpoints_def pool_ok_def origin_ok_def list_all_iff route_simps)
  ultimately show ?thesis by (simp add: list_all_iff)
qed

lemma validated_router_is_usable_witness:
  "re_candidates (entry_for (sample_route None None [''http://a/'']) [endpoint_for sample_urls None None ''http://a/'']) \<noteq> []"
proof -
  let ?c = "sample_config [sample_route None None [''http://a/'']]"
  have v: "validate sample_urls (\<lambda>_. True) ?c = Inr ()"
    by (simp add: validate_ok_iff config_ok_def route_ok_def pool_ok_def origin_ok_def bad_rate_limit_def
      match_key_def sample_route_def sample_origin_def sample_config_def sample_scheme_def)
  have "entry_for (sample_route None None [''http://a/'']) [endpoint_for sample_urls None None ''http://a/'']
      \<in> set (entries (from_config sample_urls ?c))"
    by (simp add: from_config_def static_endpoints_def sample_config_def sample_route_def sample_origin_def)
  from validated_router_is_usable [OF v this] show ?thesis by blast
qed

end
