(* ===== verification/RateLimit.thy ===== *)
theory RateLimit
  imports Store Float64 Config
begin

text \<open>
  \<open>src/src/middleware/ratelimit.rs\<close>: the token bucket of a client address and the limiter that
  holds one bucket per address. Each read of the monotonic clock is an argument: the \<open>i\<close>-th call
  of \<open>Instant::now()\<close> inside an operation returns \<open>clock i\<close>. Token counts are \<open>f64\<close>.
\<close>

section \<open>Data and operations\<close>

record token_bucket =
  tokens :: f64
  max_tokens :: f64
  refill_rate :: f64
  last_refill :: instant
  last_used :: instant

definition bucket_new :: "u32 \<Rightarrow> u32 \<Rightarrow> instant \<Rightarrow> instant \<Rightarrow> token_bucket" where
  "bucket_new rate burst now1 now2 = \<lparr>tokens = u32_as_f64 burst, max_tokens = u32_as_f64 burst,
     refill_rate = u32_as_f64 rate, last_refill = now1, last_used = now2\<rparr>"

text \<open>The refill of \<open>try_consume\<close>, before the token is taken.\<close>

definition refilled :: "instant \<Rightarrow> token_bucket \<Rightarrow> f64" where
  "refilled now b =
     (let elapsed = as_secs_f64 (now - last_refill b);
          tokens_to_add = fl (elapsed * refill_rate b)
      in min (fl (tokens b + tokens_to_add)) (max_tokens b))"

definition try_consume :: "instant \<Rightarrow> token_bucket \<Rightarrow> bool \<times> token_bucket" where
  "try_consume now b =
     (let t = refilled now b;
          b1 = b\<lparr>tokens := t, last_refill := now, last_used := now\<rparr>
      in if 1 \<le> t then (True, b1\<lparr>tokens := fl (t - 1)\<rparr>) else (False, b1))"

definition is_stale :: "instant \<Rightarrow> duration \<Rightarrow> token_bucket \<Rightarrow> bool" where
  "is_stale now max_idle b \<longleftrightarrow> max_idle < now - last_used b"

record rate_limiter =
  buckets :: "(ip_addr, token_bucket) store"
  lim_rate :: u32
  lim_burst :: u32

definition limiter_new :: "u32 \<Rightarrow> u32 \<Rightarrow> rate_limiter" where
  "limiter_new rate burst = \<lparr>buckets = store_empty, lim_rate = rate, lim_burst = burst\<rparr>"

definition limiter_check :: "(nat \<Rightarrow> instant) \<Rightarrow> ip_addr \<Rightarrow> rate_limiter \<Rightarrow> bool \<times> rate_limiter" where
  "limiter_check clock ip l =
     (case store_get (buckets l) ip of
        Some b \<Rightarrow>
          (let (allowed, b') = try_consume (clock 0) b
           in (allowed, l\<lparr>buckets := store_insert ip b' (buckets l)\<rparr>))
      | None \<Rightarrow>
          (let b = bucket_new (lim_rate l) (lim_burst l) (clock 0) (clock 1);
               (allowed, b') = try_consume (clock 2) b
           in (allowed, l\<lparr>buckets := store_insert ip b' (buckets l)\<rparr>)))"

text \<open>\<open>retain\<close> reads the clock once per bucket; \<open>clock ip\<close> is the reading for that bucket.\<close>

definition cleanup_stale :: "(ip_addr \<Rightarrow> instant) \<Rightarrow> duration \<Rightarrow> rate_limiter \<Rightarrow> rate_limiter" where
  "cleanup_stale clock max_idle l =
     l\<lparr>buckets := store_retain (\<lambda>ip b. \<not> is_stale (clock ip) max_idle b) (buckets l)\<rparr>"

section \<open>The bucket invariant\<close>

definition bucket_ok :: "u32 \<Rightarrow> u32 \<Rightarrow> token_bucket \<Rightarrow> bool" where
  "bucket_ok rate burst b \<longleftrightarrow> 0 \<le> tokens b \<and> tokens b \<le> max_tokens b \<and>
     max_tokens b = u32_as_f64 burst \<and> refill_rate b = u32_as_f64 rate"

definition limiter_ok :: "rate_limiter \<Rightarrow> bool" where
  "limiter_ok l \<longleftrightarrow> store_ok (buckets l) \<and>
     (\<forall>ip b. store_get (buckets l) ip = Some b \<longrightarrow>
        bucket_ok (lim_rate l) (lim_burst l) b \<and> last_refill b = last_used b)"

lemma bucket_new_ok: "bucket_ok rate burst (bucket_new rate burst n1 n2)"
  by (simp add: bucket_ok_def bucket_new_def)

lemma refilled_bounds:
  assumes "bucket_ok rate burst b"
  shows "0 \<le> refilled now b" and "refilled now b \<le> u32_as_f64 burst"
  using assms
  by (auto simp: bucket_ok_def refilled_def Let_def
      intro!: f64.rnd_nonneg add_nonneg_nonneg mult_nonneg_nonneg)

lemma fl_minus_1: "1 \<le> t \<Longrightarrow> t \<le> u32_as_f64 burst \<Longrightarrow> 0 \<le> fl (t - 1) \<and> fl (t - 1) \<le> u32_as_f64 burst"
proof
  assume t: "1 \<le> t" "t \<le> u32_as_f64 burst"
  then show "0 \<le> fl (t - 1)" by (intro f64.rnd_nonneg) simp
  have "fl (t - 1) \<le> fl (u32_as_f64 burst)" using t by (intro fl_mono) simp
  then show "fl (t - 1) \<le> u32_as_f64 burst" using is_f64_u32 [of burst] by (simp add: is_f64_def)
qed

lemma try_consume_ok: "bucket_ok rate burst b \<Longrightarrow> bucket_ok rate burst (snd (try_consume now b))"
  using refilled_bounds [of rate burst b now] fl_minus_1 [of "refilled now b" burst]
  by (auto simp: try_consume_def Let_def bucket_ok_def)

lemma try_consume_fields:
  "fst (try_consume now b) \<longleftrightarrow> 1 \<le> refilled now b"
  "last_refill (snd (try_consume now b)) = now"
  "last_used (snd (try_consume now b)) = now"
  "tokens (snd (try_consume now b)) = (if 1 \<le> refilled now b then fl (refilled now b - 1) else refilled now b)"
  "max_tokens (snd (try_consume now b)) = max_tokens b"
  "refill_rate (snd (try_consume now b)) = refill_rate b"
  by (simp_all add: try_consume_def Let_def)

lemma limiter_check_rates [proj_simps]:
  "lim_rate (snd (limiter_check clock ip l)) = lim_rate l"
  "lim_burst (snd (limiter_check clock ip l)) = lim_burst l"
  by (simp_all add: limiter_check_def Let_def split: option.splits prod.splits)

text \<open>The bucket an address has after a check: the old one or a new one, with one \<open>try_consume\<close>.\<close>

lemma limiter_check_bucket:
  "fst (limiter_check clock ip l) =
     fst (case store_get (buckets l) ip of
            Some b \<Rightarrow> try_consume (clock 0) b
          | None \<Rightarrow> try_consume (clock 2) (bucket_new (lim_rate l) (lim_burst l) (clock 0) (clock 1)))"
  "store_get (buckets (snd (limiter_check clock ip l))) ip' =
     (if ip' = ip
      then Some (snd (case store_get (buckets l) ip of
            Some b \<Rightarrow> try_consume (clock 0) b
          | None \<Rightarrow> try_consume (clock 2) (bucket_new (lim_rate l) (lim_burst l) (clock 0) (clock 1))))
      else store_get (buckets l) ip')"
  by (auto simp: limiter_check_def Let_def store_gets split: option.splits prod.splits)

lemma limiter_check_store_ok: "store_ok (buckets l) \<Longrightarrow> store_ok (buckets (snd (limiter_check clock ip l)))"
  by (auto simp: limiter_check_def Let_def store_invars split: option.splits prod.splits)

lemma cleanup_stale_bucket:
  "store_ok (buckets l) \<Longrightarrow> store_get (buckets (cleanup_stale clock d l)) ip =
     (case store_get (buckets l) ip of None \<Rightarrow> None
      | Some b \<Rightarrow> if is_stale (clock ip) d b then None else Some b)"
  by (auto simp: cleanup_stale_def dm.get_retain split: option.splits)

lemma cleanup_rates [proj_simps]:
  "lim_rate (cleanup_stale c d l) = lim_rate l" "lim_burst (cleanup_stale c d l) = lim_burst l"
  by (simp_all add: cleanup_stale_def)

lemma limiter_new_ok: "limiter_ok (limiter_new rate burst)"
  by (simp add: limiter_ok_def limiter_new_def store_gets store_invars)

lemma limiter_check_ok:
  assumes ok: "limiter_ok l"
  shows "limiter_ok (snd (limiter_check clock ip l))"
proof -
  have "bucket_ok (lim_rate l) (lim_burst l) b \<and> last_refill b = last_used b"
    if "store_get (buckets (snd (limiter_check clock ip l))) ip' = Some b" for ip' b
    using that ok
    by (auto simp: limiter_check_bucket(2) limiter_ok_def try_consume_fields
        intro: try_consume_ok bucket_new_ok split: if_splits option.splits)
  then show ?thesis
    using ok limiter_check_store_ok [of l clock ip] by (simp add: limiter_ok_def proj_simps)
qed

lemma cleanup_stale_ok:
  assumes ok: "limiter_ok l"
  shows "limiter_ok (cleanup_stale clock d l)"
proof -
  have "store_ok (buckets l)" using ok by (simp add: limiter_ok_def)
  with ok show ?thesis
    by (auto simp: limiter_ok_def cleanup_stale_bucket split: option.splits if_splits)
       (simp_all add: cleanup_stale_def store_invars)
qed

text \<open>
  Addresses are isolated: a check for one address neither changes the bucket of another
  nor depends on it.
\<close>

theorem limiter_isolates_addresses:
  assumes "ip \<noteq> ip'"
  shows "store_get (buckets (snd (limiter_check clock ip l))) ip' = store_get (buckets l) ip' \<and>
         fst (limiter_check clock' ip' (snd (limiter_check clock ip l))) = fst (limiter_check clock' ip' l)"
  using assms by (auto simp: limiter_check_bucket proj_simps split: option.splits)

section \<open>How many requests a bucket admits\<close>

fun consume_run :: "instant list \<Rightarrow> token_bucket \<Rightarrow> bool list \<times> token_bucket" where
  "consume_run [] b = ([], b)"
| "consume_run (t # ts) b =
     (let (allowed, b1) = try_consume t b; (rest, b2) = consume_run ts b1 in (allowed # rest, b2))"

definition n_allowed :: "bool list \<Rightarrow> nat" where
  "n_allowed rs = length (filter (\<lambda>r. r) rs)"

lemma consume_run_Cons:
  "fst (consume_run (t # ts) b) = fst (try_consume t b) # fst (consume_run ts (snd (try_consume t b)))"
  "snd (consume_run (t # ts) b) = snd (consume_run ts (snd (try_consume t b)))"
  by (auto split: prod.splits)

lemma consume_run_ok: "bucket_ok rate burst b \<Longrightarrow> bucket_ok rate burst (snd (consume_run ts b))"
  by (induction ts arbitrary: b) (simp_all add: consume_run_Cons try_consume_ok del: consume_run.simps(2))

text \<open>A burst: at one instant a full bucket admits exactly \<open>burst\<close> requests.\<close>

lemma burst_step:
  assumes "tokens b = of_nat k" and "k \<le> unat burst" and "max_tokens b = u32_as_f64 burst"
    and "last_refill b = t"
  shows "refilled t b = of_nat k"
proof (rule u32_as_f64_exact [of burst])
  fix n :: nat
  assume n: "unat burst = n" "u32_as_f64 burst = of_nat n" "n < 2 ^ 32"
  with assms(2) have "fl (of_nat k) = of_nat k" by (intro f64.rnd_of_nat) simp
  with assms n show ?thesis by (simp add: refilled_def)
qed

lemma burst_run:
  assumes "max_tokens b = u32_as_f64 burst" and "last_refill b = t"
    and "tokens b = of_nat k" and "k \<le> unat burst"
  shows "fst (consume_run (replicate (k + m) t) b) = replicate k True @ replicate m False"
  using assms
proof (induction k arbitrary: b)
  case 0
  then show ?case
  proof (induction m arbitrary: b)
    case (Suc m)
    have r: "refilled t b = 0" using burst_step [of b 0 burst t] Suc.prems by simp
    have "fst (consume_run (replicate (0 + m) t) (snd (try_consume t b))) = replicate 0 True @ replicate m False"
      using Suc.prems by (intro Suc.IH) (simp_all add: try_consume_fields r)
    moreover have "\<not> fst (try_consume t b)" by (simp add: try_consume_fields r)
    ultimately show ?case by (auto split: prod.splits)
  qed simp
next
  case (Suc k)
  have r: "refilled t b = of_nat (Suc k)" using burst_step [of b "Suc k" burst t] Suc.prems by simp
  have "unat burst < 2 ^ 32" using unsigned_less [of burst, where ?'a = nat] by simp
  then have "fl (of_nat k) = of_nat k" using Suc.prems(4) by (intro f64.rnd_of_nat) simp
  then have "fst (consume_run (replicate (k + m) t) (snd (try_consume t b))) = replicate k True @ replicate m False"
    using Suc.prems by (intro Suc.IH) (simp_all add: try_consume_fields r)
  moreover have "fst (try_consume t b)" by (simp add: try_consume_fields r)
  ultimately show ?case by (auto split: prod.splits)
qed

text \<open>
  The burst is exact: of the requests that reach a new bucket at one instant, the first
  \<open>burst\<close> are admitted and every later one is refused, with no rounding error.
\<close>

theorem burst_is_exact:
  "fst (consume_run (replicate (unat burst + m) t) (bucket_new rate burst t now2)) =
     replicate (unat burst) True @ replicate m False"
proof (rule u32_as_f64_exact [of burst])
  fix n :: nat
  assume n: "unat burst = n" "u32_as_f64 burst = of_nat n"
  show ?thesis
    unfolding n(1) by (rule burst_run [where burst = burst]) (simp_all add: bucket_new_def n)
qed

text \<open>
  The long-run bound. Rounding can add a little at each refill; over one request the error is
  below \<open>2 ^ -17\<close> tokens, because counts stay below \<open>2 ^ 32\<close> and a refill of \<open>2 ^ 33\<close> or more
  is cut off by the capacity anyway.
\<close>

definition refill_slack :: rat where
  "refill_slack = 1 / 131072"

definition earned :: "u32 \<Rightarrow> duration \<Rightarrow> rat" where
  "earned rate d = of_nat d / of_nat nanos_per_sec * u32_as_f64 rate"

lemma earned_nonneg [simp]: "0 \<le> earned rate d"
  unfolding earned_def by (intro mult_nonneg_nonneg) auto

lemma earned_add: "earned rate (d + e) = earned rate d + earned rate e"
  by (simp add: earned_def add_divide_distrib distrib_right)

lemma fl_upper: "0 \<le> x \<Longrightarrow> x < 2 powi k \<Longrightarrow> -1021 \<le> k \<Longrightarrow> fl x \<le> x + 2 powi (k - 54)"
  using fl_abs_error [of x k] by linarith

lemma tokens_to_add_upper:
  assumes "earned rate d < 2 ^ 33"
  shows "fl (as_secs_f64 d * u32_as_f64 rate) \<le> earned rate d + 2 powi (-18) + 2 powi (-20)"
proof -
  define c :: rat where "c = (1 + unit_roundoff) * (1 + unit_roundoff)"
  define x where "x = as_secs_f64 d * u32_as_f64 rate"
  have c: "c \<le> 1 + 3 * unit_roundoff" by (simp add: c_def unit_roundoff_eq)
  have "x \<le> of_nat d / of_nat nanos_per_sec * (1 + unit_roundoff) * (1 + unit_roundoff) * u32_as_f64 rate"
    unfolding x_def by (intro mult_right_mono as_secs_f64_upper) auto
  also have "\<dots> = earned rate d * c" by (simp add: earned_def c_def)
  also have "\<dots> \<le> earned rate d * (1 + 3 * unit_roundoff)" using c by (intro mult_left_mono) auto
  also have "\<dots> = earned rate d + earned rate d * (3 * unit_roundoff)" by (simp add: distrib_left)
  also have "\<dots> \<le> earned rate d + 2 ^ 33 * (3 * unit_roundoff)"
    using assms by (intro add_left_mono mult_right_mono) auto
  also have "\<dots> \<le> earned rate d + 2 powi (-18)" by (simp add: unit_roundoff_eq)
  finally have x: "x \<le> earned rate d + 2 powi (-18)" .
  moreover have "earned rate d + 2 powi (-18) < 2 powi 34" using assms by simp
  moreover have "0 \<le> x" by (simp add: x_def)
  ultimately have "fl x \<le> x + 2 powi (34 - 54)" by (intro fl_upper) auto
  with x show ?thesis by (simp add: x_def)
qed

lemma refilled_upper:
  assumes ok: "bucket_ok rate burst b"
  shows "refilled now b \<le> tokens b + earned rate (now - last_refill b)
           + (2 powi (-18) + 2 powi (-20) + 2 powi (-19))"
proof (cases "earned rate (now - last_refill b) < 2 ^ 33")
  case False
  have "refilled now b < 2 ^ 32" using refilled_bounds(2) [OF ok] u32_as_f64_less by (rule le_less_trans)
  moreover have "0 \<le> tokens b" using ok by (simp add: bucket_ok_def)
  ultimately show ?thesis using False by simp
next
  case True
  define a where "a = fl (as_secs_f64 (now - last_refill b) * refill_rate b)"
  have a: "a \<le> earned rate (now - last_refill b) + 2 powi (-18) + 2 powi (-20)"
    using tokens_to_add_upper [OF True] ok by (simp add: a_def bucket_ok_def)
  have t: "0 \<le> tokens b" "tokens b < 2 ^ 32"
    using ok u32_as_f64_less [of burst] by (auto simp: bucket_ok_def)
  have "0 \<le> a" using ok unfolding a_def bucket_ok_def by (intro f64.rnd_nonneg) auto
  then have "fl (tokens b + a) \<le> tokens b + a + 2 powi (35 - 54)"
    using a t True by (intro fl_upper) auto
  moreover have "refilled now b \<le> fl (tokens b + a)" by (simp add: refilled_def Let_def a_def)
  ultimately show ?thesis using a by simp
qed

lemma try_consume_account:
  assumes ok: "bucket_ok rate burst b"
  shows "of_bool (fst (try_consume now b)) + tokens (snd (try_consume now b))
           \<le> tokens b + earned rate (now - last_refill b) + refill_slack"
proof -
  define r where "r = refilled now b"
  have "r < 2 ^ 32" unfolding r_def
    using refilled_bounds(2) [OF ok] u32_as_f64_less by (rule le_less_trans)
  then have "fl (r - 1) \<le> r - 1 + 2 powi (32 - 54)" if "1 \<le> r"
    using that by (intro fl_upper) auto
  then have "of_bool (fst (try_consume now b)) + tokens (snd (try_consume now b)) \<le> r + 2 powi (-22)"
    by (auto simp: try_consume_fields r_def [symmetric])
  with refilled_upper [OF ok, of now] show ?thesis
    by (simp add: r_def refill_slack_def)
qed

lemma consume_run_account:
  "bucket_ok rate burst b \<Longrightarrow> sorted (last_refill b # ts) \<Longrightarrow>
     of_nat (n_allowed (fst (consume_run ts b))) + tokens (snd (consume_run ts b))
       \<le> tokens b + earned rate (last (last_refill b # ts) - last_refill b) + of_nat (length ts) * refill_slack"
proof (induction ts arbitrary: b)
  case (Cons t ts)
  define b1 where "b1 = snd (try_consume t b)"
  have ok1: "bucket_ok rate burst b1" using Cons.prems(1) by (simp add: b1_def try_consume_ok)
  have last1: "last_refill b1 = t" by (simp add: b1_def try_consume_fields)
  have IH: "of_nat (n_allowed (fst (consume_run ts b1))) + tokens (snd (consume_run ts b1))
      \<le> tokens b1 + earned rate (last (t # ts) - t) + of_nat (length ts) * refill_slack"
    using Cons.IH [OF ok1] Cons.prems(2) last1 by simp
  have "last_refill b \<le> t" "t \<le> last (t # ts)"
    using Cons.prems(2) by (auto intro: last_in_set)
  then have "earned rate (last (t # ts) - last_refill b)
      = earned rate (last (t # ts) - t) + earned rate (t - last_refill b)"
    by (simp flip: earned_add)
  moreover have "of_bool (fst (try_consume t b)) + tokens b1
      \<le> tokens b + earned rate (t - last_refill b) + refill_slack"
    unfolding b1_def using Cons.prems(1) by (rule try_consume_account)
  moreover have "n_allowed (fst (consume_run (t # ts) b))
      = of_bool (fst (try_consume t b)) + n_allowed (fst (consume_run ts b1))"
    and "snd (consume_run (t # ts) b) = snd (consume_run ts b1)"
    by (auto simp: n_allowed_def b1_def split: prod.splits)
  ultimately show ?case using IH by (simp add: distrib_right)
qed (simp add: n_allowed_def earned_def)

text \<open>
  The rate limit holds over any period: of the requests that reach a bucket at increasing
  times, at most its tokens plus rate times elapsed time are admitted, up to \<open>2 ^ -17\<close> of a
  token of rounding per request.
\<close>

theorem rate_is_bounded:
  assumes "bucket_ok rate burst b" and "sorted (last_refill b # ts)"
  shows "of_nat (n_allowed (fst (consume_run ts b)))
    \<le> u32_as_f64 burst + of_nat (last (last_refill b # ts) - last_refill b) / of_nat nanos_per_sec * u32_as_f64 rate
       + of_nat (length ts) / 131072"
proof -
  have "bucket_ok rate burst (snd (consume_run ts b))" using assms(1) by (rule consume_run_ok)
  then have "0 \<le> tokens (snd (consume_run ts b))" by (simp add: bucket_ok_def)
  with consume_run_account [OF assms] assms(1) show ?thesis
    by (simp add: earned_def refill_slack_def bucket_ok_def)
qed

section \<open>Waiting is always rewarded\<close>

lemma refilled_after:
  assumes ok: "bucket_ok rate burst b" and "last_refill b + s * nanos_per_sec \<le> now" and "s \<le> 2 ^ 20"
    and "m \<le> s * unat rate" and "m \<le> unat burst"
  shows "of_nat m \<le> refilled now b"
proof (rule u32_as_f64_exact [of rate], rule u32_as_f64_exact [of burst])
  fix r n :: nat
  assume r: "unat rate = r" "u32_as_f64 rate = of_nat r" "r < 2 ^ 32"
    and n: "unat burst = n" "u32_as_f64 burst = of_nat n" "n < 2 ^ 32"
  have "of_nat s \<le> as_secs_f64 (now - last_refill b)"
    using assms(2,3) by (intro as_secs_f64_ge) auto
  then have "of_nat s * of_nat r \<le> as_secs_f64 (now - last_refill b) * of_nat r"
    by (intro mult_right_mono) auto
  moreover have m: "(of_nat m :: rat) \<le> of_nat s * of_nat r"
    using assms(4) r(1) by (metis of_nat_le_iff of_nat_mult)
  moreover have small: "m \<le> 2 ^ 53" using assms(5) n by simp
  ultimately have "of_nat m \<le> fl (as_secs_f64 (now - last_refill b) * of_nat r)"
    by (intro f64.rnd_ge_nat) auto
  then have "of_nat m \<le> fl (tokens b + fl (as_secs_f64 (now - last_refill b) * of_nat r))"
    using ok small by (intro f64.rnd_ge_nat) (auto simp: bucket_ok_def)
  moreover have "(of_nat m :: rat) \<le> of_nat n" using assms(5) n by simp
  ultimately show ?thesis using ok r n by (simp add: refilled_def bucket_ok_def)
qed

text \<open>
  C28. No client starves: under a validated limit (rate and burst positive) a client that has
  been silent for a second is admitted, whatever the state of its bucket.
\<close>

theorem silent_second_is_admitted:
  assumes "limiter_ok l" and "lim_rate l \<noteq> 0" and "lim_burst l \<noteq> 0"
    and "\<And>b. store_get (buckets l) ip = Some b \<Longrightarrow> last_used b + nanos_per_sec \<le> clock 0"
  shows "fst (limiter_check clock ip l)"
proof (cases "store_get (buckets l) ip")
  case None
  have "of_nat 1 \<le> refilled (clock 2) (bucket_new (lim_rate l) (lim_burst l) (clock 0) (clock 1))"
  proof -
    have "1 \<le> u32_as_f64 (lim_burst l)" using assms(3) by (rule u32_as_f64_ge_1)
    moreover have "1 \<le> fl (u32_as_f64 (lim_burst l) + fl (as_secs_f64 (clock 2 - clock 0) * u32_as_f64 (lim_rate l)))"
      using calculation by (intro f64.rnd_ge_1 add_increasing2 f64.rnd_nonneg) auto
    ultimately show ?thesis by (simp add: refilled_def bucket_new_def)
  qed
  with None show ?thesis by (simp add: limiter_check_bucket try_consume_fields)
next
  case (Some b)
  then have b: "bucket_ok (lim_rate l) (lim_burst l) b" "last_refill b = last_used b"
    using assms(1) by (auto simp: limiter_ok_def)
  have "0 < unat (lim_rate l)" "0 < unat (lim_burst l)" using assms(2,3) by (simp_all add: unat_gt_0)
  then have "of_nat 1 \<le> refilled (clock 0) b"
    using assms(4) [OF Some] b by (intro refilled_after [OF b(1), where s = 1]) auto
  with Some show ?thesis by (simp add: limiter_check_bucket try_consume_fields)
qed

section \<open>Eviction\<close>

lemma refilled_full:
  assumes "bucket_ok rate burst b" and "last_refill b + s * nanos_per_sec \<le> now" and "s \<le> 2 ^ 20"
    and "unat burst \<le> s * unat rate"
  shows "refilled now b = u32_as_f64 burst"
proof (rule u32_as_f64_exact [of burst])
  fix n :: nat
  assume n: "unat burst = n" "u32_as_f64 burst = of_nat n"
  have "of_nat n \<le> refilled now b" using refilled_after [OF assms(1-4)] n by simp
  with refilled_bounds(2) [OF assms(1)] n show ?thesis by (simp add: order_antisym)
qed

lemma refilled_new: "refilled now (bucket_new rate burst n1 n2) = u32_as_f64 burst"
proof -
  have "fl (u32_as_f64 burst) \<le> fl (u32_as_f64 burst + fl (as_secs_f64 (now - n1) * u32_as_f64 rate))"
    by (intro fl_mono) (simp add: f64.rnd_nonneg)
  then show ?thesis using is_f64_u32 [of burst] by (simp add: refilled_def bucket_new_def is_f64_def)
qed

text \<open>
  C29. Evicting an idle bucket does not change what the next check does, when the burst is at most 300
  times the rate: it gives the same answer and leaves the same number of tokens as if the bucket
  had been kept. If the clock does not advance during that check the whole bucket is the same,
  so every later answer is too; otherwise the new bucket counts its refills from a reading
  of the clock that is later by the duration of the check, and a later answer at the edge of a
  token may differ. (Beyond that ratio the eviction hands out tokens the client has not
  earned yet.)
\<close>

theorem eviction_keeps_next_answer:
  assumes "limiter_ok l" and "unat (lim_burst l) \<le> 300 * unat (lim_rate l)"
    and "cleanup_clock ip \<le> clock 0"
  shows "fst (limiter_check clock ip (cleanup_stale cleanup_clock (from_secs 300) l))
           = fst (limiter_check clock ip l) \<and>
         map_option tokens (store_get (buckets (snd (limiter_check clock ip
             (cleanup_stale cleanup_clock (from_secs 300) l)))) ip)
           = map_option tokens (store_get (buckets (snd (limiter_check clock ip l))) ip) \<and>
         (clock 2 = clock 0 \<longrightarrow>
           store_get (buckets (snd (limiter_check clock ip (cleanup_stale cleanup_clock (from_secs 300) l)))) ip
             = store_get (buckets (snd (limiter_check clock ip l))) ip)"
proof (cases "store_get (buckets l) ip")
  case None
  with assms(1) show ?thesis
    by (simp add: limiter_check_bucket cleanup_stale_bucket limiter_ok_def proj_simps)
next
  case (Some b)
  then have b: "bucket_ok (lim_rate l) (lim_burst l) b" "last_refill b = last_used b"
    using assms(1) by (auto simp: limiter_ok_def)
  show ?thesis
  proof (cases "is_stale (cleanup_clock ip) (from_secs 300) b")
    case False
    with Some assms(1) show ?thesis
      by (simp add: limiter_check_bucket cleanup_stale_bucket limiter_ok_def)
  next
    case True
    then have full: "refilled (clock 0) b = u32_as_f64 (lim_burst l)"
      using assms(2,3) b by (intro refilled_full [where s = 300]) (auto simp: is_stale_def from_secs_def)
    with b(1) have "try_consume t (bucket_new (lim_rate l) (lim_burst l) t t1) = try_consume t b" if "t = clock 0" for t t1
      using that by (simp add: try_consume_def refilled_new Let_def) (simp add: bucket_new_def bucket_ok_def)
    with full True Some assms(1) show ?thesis
      by (simp add: limiter_check_bucket cleanup_stale_bucket limiter_ok_def proj_simps
          try_consume_fields refilled_new)
  qed
qed

section \<open>Witnesses\<close>

definition sample_bucket :: token_bucket where
  "sample_bucket = \<lparr>tokens = 0, max_tokens = 1000, refill_rate = 1, last_refill = 0, last_used = 0\<rparr>"

definition sample_limiter :: rate_limiter where
  "sample_limiter = \<lparr>buckets = [(IpV4 7, sample_bucket)], lim_rate = 1, lim_burst = 1000\<rparr>"

lemma u32_as_f64_numerals: "u32_as_f64 1 = 1" "u32_as_f64 5 = 5" "u32_as_f64 1000 = 1000"
  using f64.rnd_of_nat [of 1] f64.rnd_of_nat [of 5] f64.rnd_of_nat [of 1000] by (simp_all add: u32_as_f64_def)

lemma sample_bucket_ok: "bucket_ok 1 1000 sample_bucket"
  by (simp add: bucket_ok_def sample_bucket_def u32_as_f64_numerals)

lemma sample_limiter_ok: "limiter_ok sample_limiter"
  using sample_bucket_ok
  by (auto simp: limiter_ok_def sample_limiter_def store_ok_def store_get_def sample_bucket_def split: if_splits)

lemma limiter_isolates_addresses_witness:
  "store_get (buckets (snd (limiter_check (\<lambda>_. 5) (IpV4 8) sample_limiter))) (IpV4 7) = Some sample_bucket"
proof -
  have "IpV4 8 \<noteq> IpV4 7" by simp
  from limiter_isolates_addresses [OF this, of "\<lambda>_. 5" sample_limiter]
  show ?thesis by (simp add: sample_limiter_def store_get_def)
qed

lemma rate_is_bounded_witness:
  "of_nat (n_allowed (fst (consume_run [1000000000, 1500000000, 3000000000] sample_bucket)))
     \<le> (1003 + 3 / 131072 :: rat)"
proof -
  have "sorted (last_refill sample_bucket # [1000000000, 1500000000, 3000000000])"
    by (simp add: sample_bucket_def)
  from rate_is_bounded [OF sample_bucket_ok this] show ?thesis
    by (simp add: u32_as_f64_numerals sample_bucket_def)
qed

lemma silent_second_is_admitted_witness:
  "fst (limiter_check (\<lambda>_. 1000000000) (IpV4 7) sample_limiter)"
  by (rule silent_second_is_admitted [OF sample_limiter_ok])
     (auto simp: sample_limiter_def store_get_def sample_bucket_def)

definition sample_limiter5 :: rate_limiter where
  "sample_limiter5 = \<lparr>buckets = [(IpV4 7, sample_bucket\<lparr>max_tokens := 5\<rparr>)], lim_rate = 1, lim_burst = 5\<rparr>"

lemma eviction_keeps_next_answer_witness:
  "fst (limiter_check (\<lambda>_. from_secs 301) (IpV4 7)
      (cleanup_stale (\<lambda>_. from_secs 301) (from_secs 300) sample_limiter5))
   = fst (limiter_check (\<lambda>_. from_secs 301) (IpV4 7) sample_limiter5) \<and>
   store_get (buckets (snd (limiter_check (\<lambda>_. from_secs 301) (IpV4 7)
      (cleanup_stale (\<lambda>_. from_secs 301) (from_secs 300) sample_limiter5)))) (IpV4 7)
   = store_get (buckets (snd (limiter_check (\<lambda>_. from_secs 301) (IpV4 7) sample_limiter5))) (IpV4 7)"
proof -
  have ok: "limiter_ok sample_limiter5"
    by (auto simp: limiter_ok_def sample_limiter5_def store_ok_def store_get_def sample_bucket_def
        bucket_ok_def u32_as_f64_numerals split: if_splits)
  have rates: "unat (lim_burst sample_limiter5) \<le> 300 * unat (lim_rate sample_limiter5)"
    by (simp add: sample_limiter5_def)
  have "(\<lambda>_::ip_addr. from_secs 301) (IpV4 7) \<le> (\<lambda>_::nat. from_secs 301) 0" by simp
  from eviction_keeps_next_answer [where cleanup_clock = "\<lambda>_. from_secs 301" and clock = "\<lambda>_. from_secs 301",
      OF ok rates this]
  show ?thesis by simp
qed

text \<open>
  Beyond that ratio the cleanup changes behaviour: with rate 1 and burst 1000, a client that
  has used up its tokens and waits 301 seconds has earned 301, but after the eviction of its
  bucket it is given the full burst of 1000.
\<close>

theorem eviction_can_refill_early:
  "map_option tokens (store_get (buckets (snd (limiter_check (\<lambda>_. from_secs 301) (IpV4 7) sample_limiter))) (IpV4 7))
     = Some 300 \<and>
   map_option tokens (store_get (buckets (snd (limiter_check (\<lambda>_. from_secs 301) (IpV4 7)
       (cleanup_stale (\<lambda>_. from_secs 301) (from_secs 300) sample_limiter)))) (IpV4 7))
     = Some 999"
  by code_simp

end
