(* ===== verification/ErrorPages.thy ===== *)
theory ErrorPages
  imports Config Store
begin

text \<open>
  \<open>src/src/middleware/errors.rs\<close>: the store of custom error pages, filled once from the
  configured directory, and the error responses. The file system is the parameter \<open>read_file\<close>.
\<close>

section \<open>Data and operations\<close>

record response =
  resp_status :: nat
  resp_headers :: "(string \<times> string) list"
  resp_body :: bytes

type_synonym error_page_store = "(u16, bytes) store"

text \<open>\<open>Path::join\<close> on Unix.\<close>

definition path_join :: "string \<Rightarrow> string \<Rightarrow> string" where
  "path_join dir file =
     (if starts_with file ''/'' then file
      else if dir \<noteq> [] \<and> last dir \<noteq> CHR ''/'' then dir @ ''/'' @ file
      else dir @ file)"

definition load_page :: "(string \<Rightarrow> bytes option) \<Rightarrow> string \<Rightarrow> error_page \<Rightarrow> bytes option" where
  "load_page read_file dir page = read_file (path_join dir (page_file page))"

definition pages_from_config :: "(string \<Rightarrow> bytes option) \<Rightarrow> error_pages_config \<Rightarrow> error_page_store" where
  "pages_from_config read_file config =
     fold (\<lambda>page pages.
            case load_page read_file (directory config) page of
              Some content \<Rightarrow> store_insert (page_code page) content pages
            | None \<Rightarrow> pages)
          (ep_pages config) store_empty"

definition pages_get :: "error_page_store \<Rightarrow> nat \<Rightarrow> bytes option" where
  "pages_get pages status = store_get pages (of_nat status)"

definition get_error_response :: "error_page_store option \<Rightarrow> nat \<Rightarrow> string \<Rightarrow> response" where
  "get_error_response store status default_body =
     (case (case store of None \<Rightarrow> None | Some pages \<Rightarrow> pages_get pages status) of
        Some body \<Rightarrow> \<lparr>resp_status = status, resp_headers = [(''content-type'', ''text/html'')],
                      resp_body = body\<rparr>
      | None \<Rightarrow> \<lparr>resp_status = status, resp_headers = [], resp_body = default_body\<rparr>)"

section \<open>Which page is served\<close>

definition page_for :: "(string \<Rightarrow> bytes option) \<Rightarrow> error_pages_config \<Rightarrow> u16 \<Rightarrow> bytes option" where
  "page_for read_file config code =
     (case List.find (\<lambda>p. page_code p = code \<and> load_page read_file (directory config) p \<noteq> None)
             (rev (ep_pages config)) of
        None \<Rightarrow> None
      | Some p \<Rightarrow> load_page read_file (directory config) p)"

lemma pages_from_config_get: "store_get (pages_from_config read_file config) code = page_for read_file config code"
proof -
  have "store_get (fold (\<lambda>page pages.
            case load_page read_file d page of
              Some content \<Rightarrow> store_insert (page_code page) content pages
            | None \<Rightarrow> pages) ps store_empty) code =
     (case List.find (\<lambda>p. page_code p = code \<and> load_page read_file d p \<noteq> None) (rev ps) of
        None \<Rightarrow> None | Some p \<Rightarrow> load_page read_file d p)" for ps d
    by (induction ps rule: rev_induct) (auto simp: store_gets split: option.splits)
  then show ?thesis by (simp add: pages_from_config_def page_for_def)
qed

lemma pages_from_config_ok: "store_ok (pages_from_config read_file config)"
proof -
  have "store_ok m \<Longrightarrow> store_ok (fold (\<lambda>page pages.
            case load_page read_file d page of
              Some content \<Rightarrow> store_insert (page_code page) content pages
            | None \<Rightarrow> pages) ps m)" for ps m d
    by (induction ps arbitrary: m) (auto simp: store_invars split: option.splits)
  then show ?thesis by (simp add: pages_from_config_def store_invars)
qed

text \<open>
  C40. An error response always carries the status asked for. Its body is the last configured
  page for that status whose file could be read, served as HTML; without one it is the default
  text with no content type, so an unreadable page never hides a readable one nor the error.
\<close>

theorem error_response_page:
  "get_error_response (Some (pages_from_config read_file config)) status default_body =
     (case page_for read_file config (of_nat status) of
        Some body \<Rightarrow> \<lparr>resp_status = status, resp_headers = [(''content-type'', ''text/html'')], resp_body = body\<rparr>
      | None \<Rightarrow> \<lparr>resp_status = status, resp_headers = [], resp_body = default_body\<rparr>)"
  by (simp add: get_error_response_def pages_get_def pages_from_config_get)

lemma get_error_response_status [simp]: "resp_status (get_error_response store status body) = status"
  by (simp add: get_error_response_def split: option.splits)

end
