(* ===== verification/AppState.thy ===== *)
theory AppState
  imports Route RateLimit ErrorPages
begin

text \<open>
  \<open>src/src/state.rs\<close>: the shared state of the proxy and its construction. The HTTP client and
  the metrics handle are handles to other crates and are left out; every \<open>ArcSwap\<close> and atomic
  is a field. \<open>app_ok\<close> is the invariant all later operations preserve.
\<close>

section \<open>Data and construction\<close>

record 'u app_state =
  config :: "'u proxy_config"
  router :: "'u router"
  origin_states :: origin_states
  ratelimiter :: "rate_limiter option"
  route_ratelimiters :: "(string, rate_limiter) store"
  error_pages :: "error_page_store option"
  passive_enabled :: bool
  passive_failure_threshold :: u32
  passive_success_threshold :: u32

text \<open>\<open>entry(url.to_string()).or_default()\<close> for each URL in turn.\<close>

definition register_origins :: "'u url_ops \<Rightarrow> 'u list \<Rightarrow> origin_states \<Rightarrow> origin_states" where
  "register_origins U urls m = fold (store_or_insert new_origin_state) (map (url_to_string U) urls) m"

text \<open>\<open>AppState::route_key\<close> repeats the \<open>format!\<close> of the router, which must agree with it.\<close>

definition state_route_key :: "string option \<Rightarrow> string option \<Rightarrow> string" where
  "state_route_key h p =
     (case h of Some x \<Rightarrow> x | None \<Rightarrow> ''*'') @ '':'' @ (case p of Some x \<Rightarrow> x | None \<Rightarrow> ''*'')"

lemma state_route_key_agrees [simp]: "state_route_key = route_key"
  by (intro ext) (simp add: state_route_key_def route_key_def)

definition route_limiters :: "'u route_config list \<Rightarrow> (string \<times> rate_limiter) list" where
  "route_limiters rs = concat (map (\<lambda>r.
     case rt_ratelimit r of
       None \<Rightarrow> []
     | Some rl \<Rightarrow> [(state_route_key (match_host r) (match_path r), limiter_new (rl_rate rl) (rl_burst rl))]) rs)"

definition install_route_limiters ::
  "'u route_config list \<Rightarrow> (string, rate_limiter) store \<Rightarrow> (string, rate_limiter) store" where
  "install_route_limiters rs m = fold (\<lambda>(k, l). store_insert k l) (route_limiters rs) m"

definition app_new :: "'u url_ops \<Rightarrow> (string \<Rightarrow> bytes option) \<Rightarrow> 'u proxy_config \<Rightarrow> 'u app_state" where
  "app_new U read_file c = \<lparr>
     config = c,
     router = from_config U c,
     origin_states = register_origins U (config_urls c) store_empty,
     ratelimiter = map_option (\<lambda>rl. limiter_new (rl_rate rl) (rl_burst rl)) (ratelimit c),
     route_ratelimiters = install_route_limiters (routes c) store_empty,
     error_pages = map_option (pages_from_config read_file) (cfg_error_pages c),
     passive_enabled = ph_enabled (hc_passive (health c)),
     passive_failure_threshold = failure_threshold (hc_passive (health c)),
     passive_success_threshold = success_threshold (hc_passive (health c))\<rparr>"

section \<open>The invariant\<close>

definition router_ok :: "'u url_ops \<Rightarrow> origin_states \<Rightarrow> 'u router \<Rightarrow> bool" where
  "router_ok U m R \<longleftrightarrow>
     list_all (\<lambda>e. list_all (\<lambda>og. endpoint_ok U og \<and> store_get m (url_key og) \<noteq> None) (re_candidates e)) (entries R)"

definition limiters_ok :: "(string, rate_limiter) store \<Rightarrow> bool" where
  "limiters_ok m \<longleftrightarrow> store_ok m \<and> (\<forall>k l. store_get m k = Some l \<longrightarrow> limiter_ok l)"

definition app_ok :: "'u url_ops \<Rightarrow> 'u app_state \<Rightarrow> bool" where
  "app_ok U s \<longleftrightarrow> store_ok (origin_states s) \<and> router_ok U (origin_states s) (router s) \<and>
     limiters_ok (route_ratelimiters s) \<and>
     (case ratelimiter s of None \<Rightarrow> True | Some l \<Rightarrow> limiter_ok l) \<and>
     set (map (url_to_string U) (config_urls (config s))) \<subseteq> dom (store_get (origin_states s))"

lemma register_origins_get:
  "store_get (register_origins U urls m) k =
     (case store_get m k of Some v \<Rightarrow> Some v
      | None \<Rightarrow> if k \<in> url_to_string U ` set urls then Some new_origin_state else None)"
  by (simp add: register_origins_def dm.get_fold_or_insert)

lemma register_origins_ok: "store_ok m \<Longrightarrow> store_ok (register_origins U urls m)"
  by (simp add: register_origins_def store_invars)

lemma register_origins_dom:
  "dom (store_get (register_origins U urls m)) = dom (store_get m) \<union> url_to_string U ` set urls"
  by (auto simp: register_origins_get split: option.splits if_splits)

lemma route_limiters_ok: "(k, l) \<in> set (route_limiters rs) \<Longrightarrow> limiter_ok l"
  by (auto simp: route_limiters_def limiter_new_ok split: option.splits)

lemma install_route_limiters_ok:
  assumes "limiters_ok m"
  shows "limiters_ok (install_route_limiters rs m)"
proof -
  have "limiter_ok l" if "map_of (rev (route_limiters rs)) k = Some l" for k l
    using map_of_SomeD [OF that] route_limiters_ok [of k l rs] by simp
  with assms show ?thesis
    by (auto simp: limiters_ok_def install_route_limiters_def dm.get_fold_insert store_invars
        split: option.splits)
qed

lemma limiters_ok_empty: "limiters_ok store_empty"
  by (simp add: limiters_ok_def store_gets store_invars)

lemma router_ok_from_config_with_k8s:
  assumes "url_to_string U ` (set (config_urls c) \<union> set (k8s_urls ks)) \<subseteq> dom (store_get m)"
  shows "router_ok U m (from_config_with_k8s U c ks)"
proof -
  have "endpoint_ok U og \<and> store_get m (url_key og) \<noteq> None"
    if "e \<in> set (entries (from_config_with_k8s U c ks))" "og \<in> set (re_candidates e)" for e og
    using from_config_with_k8s_candidates [OF that] assms by (auto simp: endpoint_ok_def)
  then show ?thesis by (auto simp: router_ok_def list_all_iff)
qed

lemma router_ok_mono:
  "router_ok U m R \<Longrightarrow> dom (store_get m) \<subseteq> dom (store_get m') \<Longrightarrow> router_ok U m' R"
  by (fastforce simp: router_ok_def list_all_iff)

lemma router_ok_from_config:
  "url_to_string U ` set (config_urls c) \<subseteq> dom (store_get m) \<Longrightarrow> router_ok U m (from_config U c)"
  using router_ok_from_config_with_k8s [of U c store_empty m]
  by (simp add: from_config_eq k8s_urls_def store_empty_def)

lemma app_new_ok: "app_ok U (app_new U read_file c)"
  by (auto simp: app_ok_def app_new_def register_origins_ok store_invars register_origins_dom
      register_origins_get image_iff install_route_limiters_ok limiters_ok_empty limiter_new_ok
      intro!: router_ok_from_config split: option.splits)

text \<open>
  A new state is well formed and starts with every configured origin registered, healthy
  and unused, and nothing else registered.
\<close>

theorem app_new_initial:
  "app_ok U (app_new U read_file c) \<and>
   store_get (origin_states (app_new U read_file c)) k =
     (if k \<in> url_to_string U ` set (config_urls c) then Some new_origin_state else None)"
  using app_new_ok [of U read_file c]
  by (simp add: app_new_def register_origins_get store_gets)

section \<open>Route limiters are found by key\<close>

text \<open>The last route with a limit for the key.\<close>

lemma route_limiters_map_of:
  assumes "distinct (map (\<lambda>r. route_key (match_host r) (match_path r)) rs)" and "r \<in> set rs"
  shows "map_of (rev (route_limiters rs)) (route_key (match_host r) (match_path r)) =
     map_option (\<lambda>rl. limiter_new (rl_rate rl) (rl_burst rl)) (rt_ratelimit r)"
  using assms
proof (induction rs)
  case (Cons x xs)
  define key :: "'a route_config \<Rightarrow> string" where "key r = route_key (match_host r) (match_path r)" for r
  have rl: "route_limiters (x # xs) = route_limiters [x] @ route_limiters xs"
    by (simp add: route_limiters_def)
  have keys: "k \<in> key ` set ys" if "(k, l) \<in> set (route_limiters ys)" for k l ys
    using that by (auto simp: route_limiters_def key_def split: option.splits)
  have absent: "map_of (rev (route_limiters ys)) k = None" if "k \<notin> key ` set ys" for k ys
    using that keys by (fastforce simp: map_of_eq_None_iff)
  show ?case
  proof (cases "r = x")
    case True
    then have "map_of (rev (route_limiters xs)) (key r) = None"
      using Cons.prems(1) by (intro absent) (simp add: key_def)
    moreover have "map_of (rev (route_limiters [x])) (key x) =
        map_option (\<lambda>rl. limiter_new (rl_rate rl) (rl_burst rl)) (rt_ratelimit x)"
      by (simp add: route_limiters_def key_def split: option.splits)
    ultimately show ?thesis using True by (simp add: rl map_add_def key_def)
  next
    case False
    with Cons.prems(2) have "key r \<in> key ` set xs" by simp
    with Cons.prems(1) have "key r \<noteq> key x" unfolding key_def by force
    then have "map_of (rev (route_limiters [x])) (key r) = None" by (intro absent) simp
    with False Cons show ?thesis by (simp add: rl map_add_def key_def split: option.splits)
  qed
qed simp

text \<open>
  C38. Where no two routes share a key, each route gets exactly its own limiter: the configured
  rate and burst, or none.
\<close>

theorem route_limiters_are_own:
  assumes "distinct (map (\<lambda>r. route_key (match_host r) (match_path r)) (routes c))" and "r \<in> set (routes c)"
  shows "store_get (route_ratelimiters (app_new U read_file c)) (route_key (match_host r) (match_path r)) =
     map_option (\<lambda>rl. limiter_new (rl_rate rl) (rl_burst rl)) (rt_ratelimit r)"
  using route_limiters_map_of [OF assms]
  by (simp add: app_new_def install_route_limiters_def dm.get_fold_insert store_gets split: option.splits)

definition limited_route :: "string option \<Rightarrow> u32 \<Rightarrow> string route_config" where
  "limited_route h rate = (sample_route h (Some ''/a'') [''http://a/''])
     \<lparr>rt_ratelimit := Some \<lparr>rl_rate = rate, rl_burst = rate\<rparr>\<rparr>"

text \<open>
  Validation does not ensure that: a route for any host and one for host \<open>*\<close> are different
  matches but share a key, so the configuration is accepted and the first route is limited by
  the second one's rate.
\<close>

theorem route_key_collision:
  "validate sample_urls (\<lambda>_. True) (sample_config [limited_route None 5, limited_route (Some ''*'') 100]) = Inr () \<and>
   match_route (router (app_new sample_urls (\<lambda>_. None)
     (sample_config [limited_route None 5, limited_route (Some ''*'') 100]))) ''example.com'' ''/a'' = Some 0 \<and>
   map_option lim_rate (store_get (route_ratelimiters (app_new sample_urls (\<lambda>_. None)
     (sample_config [limited_route None 5, limited_route (Some ''*'') 100]))) ''*:/a'') = Some 100"
  by (simp add: validate_ok_iff config_ok_def route_ok_def pool_ok_def origin_ok_def bad_rate_limit_def
      match_key_def limited_route_def sample_route_def sample_origin_def sample_config_def sample_scheme_def
      app_new_def match_route_def from_config_def route_simps entry_matches_def starts_with_def
      install_route_limiters_def route_limiters_def route_key_def store_gets limiter_new_def)

lemma route_limiters_are_own_witness:
  "map_option lim_rate (store_get (route_ratelimiters (app_new sample_urls (\<lambda>_. None)
     (sample_config [limited_route None 5, limited_route (Some ''a'') 100]))) ''a:/a'') = Some 100"
proof -
  have d: "distinct (map (\<lambda>r. route_key (match_host r) (match_path r))
      (routes (sample_config [limited_route None 5, limited_route (Some ''a'') 100])))"
    and m: "limited_route (Some ''a'') 100 \<in> set (routes (sample_config [limited_route None 5, limited_route (Some ''a'') 100]))"
    by (simp_all add: sample_config_def limited_route_def sample_route_def route_key_def)
  from route_limiters_are_own [OF d m, of sample_urls "\<lambda>_. None"] show ?thesis
    by (simp add: limited_route_def sample_route_def route_key_def limiter_new_def)
qed

end
