(* ===== verification/Server.thy ===== *)
theory Server
  imports AppState
begin

text \<open>
  \<open>src/src/server.rs\<close>: what happens to one request. \<open>handle_request\<close> is the composition of
  \<open>admit\<close> (routing, rate limit, choice of an origin), \<open>proxy_request\<close> and \<open>finish_request\<close> (the
  bookkeeping of the origin's health), so that the steps of different requests can be
  interleaved around the wait for the origin.

  Of \<open>hyper\<close> and \<open>http\<close> the code uses three operations whose source is not in the repository;
  they are the fields of \<open>http_ops\<close>. The origin servers are the function \<open>send\<close>.
\<close>

section \<open>Requests\<close>

datatype http_method = GET | HEAD | POST | PUT | DELETE | OPTIONS | CONNECT | PATCH | TRACE
  | Extension string

text \<open>
  Header names are lower case and values are bytes, in the order of the header map. The body is
  the sequence of results of \<open>frame()\<close> until it returns \<open>None\<close>.
\<close>

type_synonym headers = "(string \<times> bytes) list"

datatype body_frame = DataFrame bytes | TrailersFrame headers | FrameError string

record request =
  rq_method :: http_method
  rq_path :: string
  rq_path_and_query :: "string option"
  rq_headers :: headers
  rq_body :: "body_frame list"

record out_request =
  out_method :: http_method
  out_uri :: string
  out_headers :: headers
  out_body :: bytes

record http_ops =
  header_to_str :: "bytes \<Rightarrow> string option"          \<comment> \<open>\<open>HeaderValue::to_str\<close>\<close>
  builder_ok :: "string \<Rightarrow> headers \<Rightarrow> bool"           \<comment> \<open>the request builder accepts URI and headers\<close>

datatype proxy_error = BodyReadError string | RequestBuildError | ClientError string

section \<open>Proxying to the chosen origin\<close>

fun collect_body :: "body_frame list \<Rightarrow> proxy_error + bytes" where
  "collect_body [] = Inr []"
| "collect_body (FrameError e # fs) = Inl (BodyReadError e)"
| "collect_body (TrailersFrame h # fs) = collect_body fs"
| "collect_body (DataFrame chunk # fs) =
     (case collect_body fs of Inl e \<Rightarrow> Inl e | Inr rest \<Rightarrow> Inr (chunk @ rest))"

definition bodyless :: "http_method \<Rightarrow> bool" where
  "bodyless m \<longleftrightarrow> m = GET \<or> m = HEAD \<or> m = DELETE"

definition proxy_request ::
  "'u url_ops \<Rightarrow> http_ops \<Rightarrow> (out_request \<Rightarrow> string + response) \<Rightarrow> request \<Rightarrow> 'u origin_endpoint
     \<Rightarrow> proxy_error + response" where
  "proxy_request U H send req og =
     (let path = (case rq_path_and_query req of Some pq \<Rightarrow> pq | None \<Rightarrow> []);
          origin_uri = url_base og @ path;
          kept = filter (\<lambda>(name, value). name \<noteq> ''host'') (rq_headers req);
          headers = kept @ [(''host'', url_authority U (oe_url og))]
      in case (if bodyless (rq_method req) then Inr [] else collect_body (rq_body req)) of
           Inl e \<Rightarrow> Inl e
         | Inr body \<Rightarrow>
             if \<not> builder_ok H origin_uri headers then Inl RequestBuildError
             else (case send \<lparr>out_method = rq_method req, out_uri = origin_uri,
                              out_headers = headers, out_body = body\<rparr> of
                     Inl e \<Rightarrow> Inl (ClientError e)
                   | Inr resp \<Rightarrow> Inr \<lparr>resp_status = resp_status resp,
                                      resp_headers = resp_headers resp, resp_body = resp_body resp\<rparr>))"

section \<open>Admission\<close>

definition request_host :: "http_ops \<Rightarrow> request \<Rightarrow> string" where
  "request_host H req =
     (case map_of (rq_headers req) ''host'' of
        None \<Rightarrow> []
      | Some v \<Rightarrow> (case header_to_str H v of None \<Rightarrow> [] | Some s \<Rightarrow> s))"

definition check_limits ::
  "(nat \<Rightarrow> instant) \<Rightarrow> ip_addr \<Rightarrow> string \<Rightarrow> 'u app_state \<Rightarrow> bool \<times> 'u app_state" where
  "check_limits clock ip key s =
     (case store_get (route_ratelimiters s) key of
        Some route_limiter \<Rightarrow>
          (let (allowed, l') = limiter_check clock ip route_limiter
           in (allowed, s\<lparr>route_ratelimiters := store_insert key l' (route_ratelimiters s)\<rparr>))
      | None \<Rightarrow>
          (case ratelimiter s of
             Some global_limiter \<Rightarrow>
               (let (allowed, l') = limiter_check clock ip global_limiter
                in (allowed, s\<lparr>ratelimiter := Some l'\<rparr>))
           | None \<Rightarrow> (True, s)))"

definition not_found :: "'u app_state \<Rightarrow> response" where
  "not_found s = get_error_response (error_pages s) 404 ''Not Found''"

definition bad_gateway :: "'u app_state \<Rightarrow> string \<Rightarrow> response" where
  "bad_gateway s message = get_error_response (error_pages s) 502 message"

definition rate_limited :: "'u app_state \<Rightarrow> response" where
  "rate_limited s = get_error_response (error_pages s) 429 ''Too Many Requests''"

text \<open>The balancer of an entry changes its own counter.\<close>

definition set_balancer :: "nat \<Rightarrow> balancer \<Rightarrow> 'u router \<Rightarrow> 'u router" where
  "set_balancer k b R = R\<lparr>entries := (entries R)[k := (entries R ! k)\<lparr>re_load_balancer := b\<rparr>]\<rparr>"

datatype 'u verdict = Respond response | Forward "'u origin_endpoint"

definition admit ::
  "'u url_ops \<Rightarrow> http_ops \<Rightarrow> (nat \<Rightarrow> instant) \<Rightarrow> rng \<Rightarrow> ip_addr \<Rightarrow> request \<Rightarrow> 'u app_state
     \<Rightarrow> 'u verdict \<times> 'u app_state" where
  "admit U H clock g ip req s =
     (case match_route (router s) (request_host H req) (rq_path req) of
        None \<Rightarrow> (Respond (not_found s), s)
      | Some k \<Rightarrow>
          (let route = entries (router s) ! k;
               (allowed, s1) = check_limits clock ip (re_key route) s
           in if \<not> allowed then (Respond (rate_limited s1), s1)
              else
                (let (picked, b) = select_origin U g (re_candidates route) (origin_states s1)
                                     (re_load_balancer route);
                     s2 = s1\<lparr>router := set_balancer k b (router s1)\<rparr>
                 in case picked of
                      Some og \<Rightarrow> (Forward og, s2)
                    | None \<Rightarrow> (Respond (bad_gateway s2 ''No healthy origins available''), s2))))"

section \<open>Bookkeeping\<close>

definition is_server_error :: "nat \<Rightarrow> bool" where
  "is_server_error status \<longleftrightarrow> 500 \<le> status \<and> status < 600"

definition record_outcome ::
  "'u app_state \<Rightarrow> proxy_error + response \<Rightarrow> origin_state \<Rightarrow> origin_state" where
  "record_outcome s result os =
     (if passive_enabled s then
        (case result of
           Inr resp \<Rightarrow>
             if is_server_error (resp_status resp)
             then record_failure_with_threshold (passive_failure_threshold s) os
             else record_success_with_threshold (passive_success_threshold s) os
         | Inl e \<Rightarrow> record_failure_with_threshold (passive_failure_threshold s) os)
      else
        (case result of
           Inr resp \<Rightarrow> if is_server_error (resp_status resp) then record_failure os else record_success os
         | Inl e \<Rightarrow> record_failure os))"

definition finish_request ::
  "duration \<Rightarrow> string \<Rightarrow> proxy_error + response \<Rightarrow> 'u app_state \<Rightarrow> 'u app_state" where
  "finish_request latency origin_url result s =
     s\<lparr>origin_states := store_adjust
         (\<lambda>os. record_outcome s result (record_latency latency (increment_requests os)))
         origin_url (origin_states s)\<rparr>"

text \<open>\<open>Inl\<close> is the error \<open>handle_request\<close> returns to \<open>hyper\<close>, which is to end the connection (\<open>http1_server\<close> in \<open>Process\<close>).\<close>

definition handle_request ::
  "'u url_ops \<Rightarrow> http_ops \<Rightarrow> (out_request \<Rightarrow> string + response) \<Rightarrow> duration \<Rightarrow> (nat \<Rightarrow> instant)
     \<Rightarrow> rng \<Rightarrow> ip_addr \<Rightarrow> request \<Rightarrow> 'u app_state \<Rightarrow> (proxy_error + response) \<times> 'u app_state" where
  "handle_request U H send latency clock g ip req s =
     (case admit U H clock g ip req s of
        (Respond resp, s1) \<Rightarrow> (Inr resp, s1)
      | (Forward og, s1) \<Rightarrow>
          (let result = proxy_request U H send req og
           in (result, finish_request latency (url_key og) result s1)))"

section \<open>Limits\<close>

definition charged_limiter :: "string \<Rightarrow> 'u app_state \<Rightarrow> rate_limiter option" where
  "charged_limiter key s =
     (case store_get (route_ratelimiters s) key of Some l \<Rightarrow> Some l | None \<Rightarrow> ratelimiter s)"

lemma check_limits_allowed:
  "fst (check_limits clock ip key s) =
     (case charged_limiter key s of None \<Rightarrow> True | Some l \<Rightarrow> fst (limiter_check clock ip l))"
  by (simp add: check_limits_def charged_limiter_def split: option.splits prod.splits)

lemma check_limits_fields [proj_simps]:
  "router (snd (check_limits clock ip key s)) = router s"
  "origin_states (snd (check_limits clock ip key s)) = origin_states s"
  "error_pages (snd (check_limits clock ip key s)) = error_pages s"
  "config (snd (check_limits clock ip key s)) = config s"
  "passive_enabled (snd (check_limits clock ip key s)) = passive_enabled s"
  "passive_failure_threshold (snd (check_limits clock ip key s)) = passive_failure_threshold s"
  "passive_success_threshold (snd (check_limits clock ip key s)) = passive_success_threshold s"
  by (simp_all add: check_limits_def split: option.splits prod.splits)

lemma limiter_check_okI: "limiter_ok l \<Longrightarrow> limiter_check clock ip l = (a, l') \<Longrightarrow> limiter_ok l'"
  using limiter_check_ok [of l clock ip] by simp

lemma check_limits_ok: "app_ok U s \<Longrightarrow> app_ok U (snd (check_limits clock ip key s))"
  by (auto simp: app_ok_def limiters_ok_def check_limits_def store_gets store_invars
      intro: limiter_check_okI split: option.splits prod.splits if_splits)

section \<open>What admission does\<close>

lemma set_balancer_entries:
  "entries (set_balancer k b R) = (entries R)[k := (entries R ! k)\<lparr>re_load_balancer := b\<rparr>]"
  by (simp add: set_balancer_def)

lemma router_ok_set_balancer:
  assumes "router_ok U m R" and "k < length (entries R)"
  shows "router_ok U m (set_balancer k b R)"
proof -
  have "entries R ! k \<in> set (entries R)" using assms(2) by simp
  then have "e \<in> set (entries (set_balancer k b R)) \<Longrightarrow> \<exists>e' \<in> set (entries R). re_candidates e = re_candidates e'" for e
    by (auto simp: set_balancer_entries dest!: set_update_subset_insert [THEN subsetD])
  with assms(1) show ?thesis by (fastforce simp: router_ok_def list_all_iff)
qed

lemma match_route_index: "match_route R host path = Some k \<Longrightarrow> k < length (entries R)"
  by (simp add: match_route_def match_entries_Some)

text \<open>Admission in three cases; every lemma about it starts here.\<close>

lemma admit_cases:
  obtains
    (no_route) "match_route (router s) (request_host H req) (rq_path req) = None"
      "admit U H clock g ip req s = (Respond (not_found s), s)"
  | (limited) k s1 where "match_route (router s) (request_host H req) (rq_path req) = Some k"
      "check_limits clock ip (re_key (entries (router s) ! k)) s = (False, s1)"
      "admit U H clock g ip req s = (Respond (rate_limited s1), s1)"
  | (selected) k s1 picked b s2 where "match_route (router s) (request_host H req) (rq_path req) = Some k"
      "check_limits clock ip (re_key (entries (router s) ! k)) s = (True, s1)"
      "select_origin U g (re_candidates (entries (router s) ! k)) (origin_states s)
         (re_load_balancer (entries (router s) ! k)) = (picked, b)"
      "router s1 = router s" "s2 = s1\<lparr>router := set_balancer k b (router s1)\<rparr>"
      "admit U H clock g ip req s =
         (case picked of Some og \<Rightarrow> (Forward og, s2)
          | None \<Rightarrow> (Respond (bad_gateway s2 ''No healthy origins available''), s2))"
proof (cases "match_route (router s) (request_host H req) (rq_path req)")
  case None
  then show ?thesis by (intro no_route) (simp_all add: admit_def)
next
  case (Some k)
  obtain a s1 where c: "check_limits clock ip (re_key (entries (router s) ! k)) s = (a, s1)"
    by (cases "check_limits clock ip (re_key (entries (router s) ! k)) s")
  have o: "origin_states s1 = origin_states s" "router s1 = router s"
    using check_limits_fields(1,2) [of clock ip "re_key (entries (router s) ! k)" s] c by simp_all
  show ?thesis
  proof (cases a)
    case False
    with Some c show ?thesis by (intro limited) (simp_all add: admit_def)
  next
    case True
    obtain picked b where p: "select_origin U g (re_candidates (entries (router s) ! k)) (origin_states s)
         (re_load_balancer (entries (router s) ! k)) = (picked, b)" by force
    from Some c True p o(1) show ?thesis
      by (intro selected [OF Some _ p o(2) refl]) (simp_all add: admit_def Let_def split: option.splits)
  qed
qed

lemma admit_fields [proj_simps]:
  "origin_states (snd (admit U H clock g ip req s)) = origin_states s"
  "config (snd (admit U H clock g ip req s)) = config s"
  "error_pages (snd (admit U H clock g ip req s)) = error_pages s"
  "passive_enabled (snd (admit U H clock g ip req s)) = passive_enabled s"
  "passive_failure_threshold (snd (admit U H clock g ip req s)) = passive_failure_threshold s"
  "passive_success_threshold (snd (admit U H clock g ip req s)) = passive_success_threshold s"
  by (simp_all add: admit_def Let_def split_beta proj_simps split: option.splits)

lemma admit_ok:
  assumes "app_ok U s"
  shows "app_ok U (snd (admit U H clock g ip req s))"
proof (cases rule: admit_cases [of s H req U clock g ip])
  case (limited k s1)
  with check_limits_ok [OF assms, of clock ip "re_key (entries (router s) ! k)"] show ?thesis by simp
next
  case (selected k s1 picked b s2)
  have s1: "app_ok U s1"
    using check_limits_ok [OF assms, of clock ip "re_key (entries (router s) ! k)"] selected(2) by simp
  from s1 match_route_index [OF selected(1)] have "app_ok U s2"
    by (auto simp: selected(4,5) app_ok_def intro: router_ok_set_balancer)
  with selected(6) show ?thesis by (simp split: option.splits)
qed (use assms in simp)

lemma app_ok_candidate:
  assumes "app_ok U s" and "match_route (router s) host path = Some k"
    and "og \<in> set (re_candidates (entries (router s) ! k))"
  obtains os where "endpoint_ok U og" and "store_get (origin_states s) (url_key og) = Some os"
proof -
  have "entries (router s) ! k \<in> set (entries (router s))" using match_route_index [OF assms(2)] by simp
  with assms(1,3) that show thesis by (fastforce simp: app_ok_def router_ok_def list_all_iff)
qed

lemma admissible_healthy:
  assumes "endpoint_ok U og" and "store_get m (url_key og) = Some os" and "origin_admissible U b m og"
  shows "healthy os"
  using assms admissible_not_down [OF assms(1,3)] by (auto simp: is_down_def endpoint_ok_def)

lemma inadmissible_cases:
  assumes "endpoint_ok U og" and "store_get m (url_key og) = Some os" and "\<not> origin_admissible U b m og"
  shows "\<not> healthy os \<or> oe_weight og = Some 0"
  using assms by (cases b) (auto simp: is_up_def weighted_admissible_def is_down_def endpoint_ok_def)

lemma admit_Forward:
  assumes "app_ok U s" and "rng_ok g" and "admit U H clock g ip req s = (Forward og, s')"
  shows "\<exists>k os. match_route (router s) (request_host H req) (rq_path req) = Some k \<and>
     og \<in> set (re_candidates (entries (router s) ! k)) \<and>
     store_get (origin_states s) (url_key og) = Some os \<and> healthy os \<and>
     (case charged_limiter (re_key (entries (router s) ! k)) s of
        None \<Rightarrow> True | Some l \<Rightarrow> fst (limiter_check clock ip l))"
proof (cases rule: admit_cases [of s H req U clock g ip])
  case (selected k s1 picked b s2)
  with assms(3) have "picked = Some og" by (auto split: option.splits)
  with selected(3) lb.select_Some [OF assms(2), of U "re_candidates (entries (router s) ! k)" "origin_states s"
      "re_load_balancer (entries (router s) ! k)" og]
  have og: "og \<in> set (re_candidates (entries (router s) ! k))"
    and adm: "origin_admissible U (re_load_balancer (entries (router s) ! k)) (origin_states s) og" by auto
  obtain os where os: "endpoint_ok U og" "store_get (origin_states s) (url_key og) = Some os"
    using app_ok_candidate [OF assms(1) selected(1) og] .
  with adm have "healthy os" by (intro admissible_healthy)
  moreover from selected(2) check_limits_allowed [of clock ip "re_key (entries (router s) ! k)" s]
  have "case charged_limiter (re_key (entries (router s) ! k)) s of
      None \<Rightarrow> True | Some l \<Rightarrow> fst (limiter_check clock ip l)" by simp
  ultimately show ?thesis using selected(1) og os by auto
qed (use assms in auto)

text \<open>
  C6. A request reaches an origin only if it is entitled to: a route matches it, the limiter
  in charge of that route admits its address, and the origin is a candidate of the route whose
  state exists and is healthy at that moment.
\<close>

theorem forwarded_only_if_entitled:
  assumes "app_ok U s" and "rng_ok g" and "admit U H clock g ip req s = (Forward og, s')"
  shows "\<exists>k os. match_route (router s) (request_host H req) (rq_path req) = Some k \<and>
     og \<in> set (re_candidates (entries (router s) ! k)) \<and>
     store_get (origin_states s) (url_key og) = Some os \<and> healthy os \<and>
     (case charged_limiter (re_key (entries (router s) ! k)) s of
        None \<Rightarrow> True | Some l \<Rightarrow> fst (limiter_check clock ip l))"
  using assms by (rule admit_Forward)

text \<open>
  C8. A request is refused only for a reason, and the status names it: 404 when no route
  matches, 429 when the limiter in charge denies the address, and 502 when every candidate of
  the route is unhealthy or has been given weight zero.
\<close>

theorem refused_only_for_a_reason:
  assumes "app_ok U s" and "rng_ok g" and "admit U H clock g ip req s = (Respond resp, s')"
  shows "resp_status resp = 404 \<and> s' = s \<and>
       list_all (\<lambda>e. \<not> entry_matches (request_host H req) (rq_path req) e) (entries (router s)) \<or>
     (\<exists>k. match_route (router s) (request_host H req) (rq_path req) = Some k \<and>
       (resp_status resp = 429 \<and>
          (\<exists>l. charged_limiter (re_key (entries (router s) ! k)) s = Some l \<and>
               \<not> fst (limiter_check clock ip l)) \<or>
        resp_status resp = 502 \<and>
          list_all (\<lambda>og. oe_weight og = Some 0 \<or>
             (\<exists>os. store_get (origin_states s) (url_key og) = Some os \<and> \<not> healthy os))
            (re_candidates (entries (router s) ! k))))"
proof (cases rule: admit_cases [of s H req U clock g ip])
  case no_route
  with assms(3) show ?thesis
    by (auto simp: not_found_def match_route_def match_entries_None)
next
  case (limited k s1)
  with assms(3) check_limits_allowed [of clock ip "re_key (entries (router s) ! k)" s] show ?thesis
    by (auto simp: rate_limited_def split: option.splits)
next
  case (selected k s1 picked b s2)
  with assms(3) have "picked = None" and r: "resp_status resp = 502"
    by (auto simp: bad_gateway_def split: option.splits)
  with selected(3) have none: "fst (select_origin U g (re_candidates (entries (router s) ! k)) (origin_states s)
      (re_load_balancer (entries (router s) ! k))) = None" by simp
  have "oe_weight og = Some 0 \<or> (\<exists>os. store_get (origin_states s) (url_key og) = Some os \<and> \<not> healthy os)"
    if og: "og \<in> set (re_candidates (entries (router s) ! k))" for og
    using app_ok_candidate [OF assms(1) selected(1) og] lb.select_None [OF assms(2) none og]
    by (metis inadmissible_cases)
  with r selected(1) show ?thesis by (auto simp: list_all_iff)
qed

section \<open>Who pays for a request\<close>

text \<open>A bucket is named by its limiter (the global one or that of a route key) and an address.\<close>

definition bucket_at :: "'u app_state \<Rightarrow> string option \<Rightarrow> ip_addr \<Rightarrow> token_bucket option" where
  "bucket_at s slot ip =
     (case (case slot of None \<Rightarrow> ratelimiter s | Some key \<Rightarrow> store_get (route_ratelimiters s) key) of
        None \<Rightarrow> None
      | Some l \<Rightarrow> store_get (buckets l) ip)"

definition charged_slot :: "string \<Rightarrow> 'u app_state \<Rightarrow> string option" where
  "charged_slot key s = (if store_get (route_ratelimiters s) key = None then None else Some key)"

lemma bucket_at_cong:
  "ratelimiter s = ratelimiter s' \<Longrightarrow> route_ratelimiters s = route_ratelimiters s' \<Longrightarrow>
     bucket_at s slot ip = bucket_at s' slot ip"
  by (simp add: bucket_at_def cong: option.case_cong)

lemma check_limits_bucket_at:
  assumes "(slot, ip') \<noteq> (charged_slot key s, ip)"
  shows "bucket_at (snd (check_limits clock ip key s)) slot ip' = bucket_at s slot ip'"
proof -
  have other: "store_get (buckets l') ip' = store_get (buckets l) ip'"
    if "limiter_check clock ip l = (a, l')" "ip' \<noteq> ip" for l l' a
    using that limiter_check_bucket(2) [of clock ip l ip'] by simp
  then show ?thesis using assms
    by (auto simp: bucket_at_def charged_slot_def check_limits_def store_gets
        split: option.splits prod.splits if_splits)
qed

lemma finish_request_limiters [proj_simps]:
  "ratelimiter (finish_request d k r s) = ratelimiter s"
  "route_ratelimiters (finish_request d k r s) = route_ratelimiters s"
  "router (finish_request d k r s) = router s"
  "config (finish_request d k r s) = config s"
  by (simp_all add: finish_request_def)

lemma admit_bucket_at:
  assumes "case match_route (router s) (request_host H req) (rq_path req) of
      None \<Rightarrow> True
    | Some k \<Rightarrow> (slot, ip') \<noteq> (charged_slot (re_key (entries (router s) ! k)) s, ip)"
  shows "bucket_at (snd (admit U H clock g ip req s)) slot ip' = bucket_at s slot ip'"
proof (cases rule: admit_cases [of s H req U clock g ip])
  case (limited k s1)
  with assms check_limits_bucket_at [of slot ip' "re_key (entries (router s) ! k)" s ip clock]
  show ?thesis by simp
next
  case (selected k s1 picked b s2)
  have "bucket_at s2 slot ip' = bucket_at s1 slot ip'" by (rule bucket_at_cong) (simp_all add: selected(5))
  with selected assms check_limits_bucket_at [of slot ip' "re_key (entries (router s) ! k)" s ip clock]
  show ?thesis by (simp split: option.splits)
qed simp

text \<open>
  C10. A request is charged to one bucket: its own address's, in the limiter of the matched
  route or, when that route has none, in the global limiter. Every other bucket of every
  limiter is left as it was, and an unrouted request is charged to nobody.
\<close>

theorem request_charges_one_bucket:
  assumes "case match_route (router s) (request_host H req) (rq_path req) of
      None \<Rightarrow> True
    | Some k \<Rightarrow> (slot, ip') \<noteq> (charged_slot (re_key (entries (router s) ! k)) s, ip)"
  shows "bucket_at (snd (handle_request U H send latency clock g ip req s)) slot ip' = bucket_at s slot ip'"
proof -
  have "bucket_at (snd (handle_request U H send latency clock g ip req s)) slot ip'
      = bucket_at (snd (admit U H clock g ip req s)) slot ip'"
    by (auto simp: handle_request_def Let_def proj_simps intro: bucket_at_cong split: prod.splits verdict.splits)
  also have "\<dots> = bucket_at s slot ip'" using assms by (rule admit_bucket_at)
  finally show ?thesis .
qed

section \<open>What a request does to the origin's record\<close>

definition outcome_failed :: "proxy_error + response \<Rightarrow> bool" where
  "outcome_failed result = (case result of Inl _ \<Rightarrow> True | Inr resp \<Rightarrow> is_server_error (resp_status resp))"

text \<open>The thresholds in force: the configured ones, or 5 and 2 when passive checks are disabled.\<close>

definition failure_limit :: "'u app_state \<Rightarrow> u32" where
  "failure_limit s = (if passive_enabled s then passive_failure_threshold s else 5)"

definition success_limit :: "'u app_state \<Rightarrow> u32" where
  "success_limit s = (if passive_enabled s then passive_success_threshold s else 2)"

lemma record_outcome_eq:
  "record_outcome s result os =
     (if outcome_failed result then record_failure_with_threshold (failure_limit s) os
      else record_success_with_threshold (success_limit s) os)"
  by (auto simp: record_outcome_def outcome_failed_def failure_limit_def success_limit_def
      record_failure_def record_success_def split: sum.splits)

lemma finish_request_get:
  "store_get (origin_states (finish_request d key result s)) k =
     (if k = key then map_option (\<lambda>os. record_outcome s result (record_latency d (increment_requests os)))
        (store_get (origin_states s) key)
      else store_get (origin_states s) k)"
  by (simp add: finish_request_def store_gets)

lemma finish_request_dom:
  "dom (store_get (origin_states (finish_request d key result s))) = dom (store_get (origin_states s))"
  by (auto simp: finish_request_get dom_def split: if_splits)

lemma finish_request_ok: "app_ok U s \<Longrightarrow> app_ok U (finish_request d key result s)"
proof -
  assume ok: "app_ok U s"
  have "dom (store_get (origin_states s)) \<subseteq> dom (store_get (origin_states (finish_request d key result s)))"
    by (simp only: finish_request_dom order_refl)
  with ok have "router_ok U (origin_states (finish_request d key result s)) (router s)"
    unfolding app_ok_def by (blast intro: router_ok_mono)
  moreover have "store_ok (origin_states (finish_request d key result s))"
    using ok by (simp add: app_ok_def finish_request_def store_invars)
  ultimately show ?thesis
    using ok unfolding app_ok_def by (simp only: finish_request_dom finish_request_limiters)
qed

lemma handle_request_ok:
  assumes "app_ok U s"
  shows "app_ok U (snd (handle_request U H send latency clock g ip req s))"
  using admit_ok [OF assms, of H clock g ip req]
  by (auto simp: handle_request_def Let_def finish_request_ok split: prod.splits verdict.splits)

lemma handle_request_Forward:
  "admit U H clock g ip req s = (Forward og, s1) \<Longrightarrow>
     handle_request U H send latency clock g ip req s =
       (proxy_request U H send req og,
        finish_request latency (url_key og) (proxy_request U H send req og) s1)"
  by (simp add: handle_request_def Let_def)

lemma admit_limits:
  assumes "admit U H clock g ip req s = (v, s1)"
  shows "origin_states s1 = origin_states s" "failure_limit s1 = failure_limit s"
    "success_limit s1 = success_limit s"
  using admit_fields [of U H clock g ip req s] assms by (simp_all add: failure_limit_def success_limit_def)

text \<open>
  C5. A forwarded request is recorded once, on its own origin: the request count grows by one,
  the failure count by one exactly when the exchange failed or the status was 5xx, and the
  health flag changes only by the thresholds in force. Every other origin is untouched, and a
  refused request touches none.
\<close>

theorem request_is_recorded_once:
  assumes "app_ok U s" and "rng_ok g"
  shows "case admit U H clock g ip req s of
      (Respond resp, s1) \<Rightarrow>
        origin_states (snd (handle_request U H send latency clock g ip req s)) = origin_states s
    | (Forward og, s1) \<Rightarrow>
        (let (result, s') = handle_request U H send latency clock g ip req s in
         \<exists>os os'. store_get (origin_states s) (url_key og) = Some os \<and>
           origin_states s' = store_insert (url_key og) os' (origin_states s) \<and>
           total_requests os' = total_requests os + 1 \<and>
           total_failures os' = total_failures os + of_bool (outcome_failed result) \<and>
           ewma_latency_ns os' = ewma (of_nat latency) (ewma_latency_ns os) \<and>
           (healthy os' \<longleftrightarrow>
              (if outcome_failed result then consecutive_failures os + 1 < failure_limit s
               else True)))"
proof (cases "admit U H clock g ip req s")
  case (Pair v s1)
  note lim = admit_limits [OF Pair]
  show ?thesis
  proof (cases v)
    case (Respond resp)
    with Pair lim show ?thesis by (simp add: handle_request_def)
  next
    case (Forward og)
    note fw = Pair [unfolded Forward]
    from fw show ?thesis
    proof (cases rule: admit_cases [of s H req U clock g ip])
      case (selected k s2 picked b s3)
      with fw have "picked = Some og" by (auto split: option.splits)
      with selected(3) lb.select_Some [OF assms(2), of U "re_candidates (entries (router s) ! k)" "origin_states s"
        "re_load_balancer (entries (router s) ! k)" og]
      have og: "og \<in> set (re_candidates (entries (router s) ! k))"
        and adm: "origin_admissible U (re_load_balancer (entries (router s) ! k)) (origin_states s) og" by auto
      obtain os where os: "endpoint_ok U og" "store_get (origin_states s) (url_key og) = Some os"
        using app_ok_candidate [OF assms(1) selected(1) og] .
      with adm have h: "healthy os" by (intro admissible_healthy)
      have "origin_states (finish_request latency (url_key og) result s1) =
          store_insert (url_key og) (record_outcome s1 result (record_latency latency (increment_requests os)))
            (origin_states s)" for result
        using os(2) lim(1) by (simp add: finish_request_def store_adjust_def store_insert_def store_get_def)
      with os h fw lim show ?thesis
        by (auto simp: handle_request_Forward [OF fw] Forward record_outcome_eq health_simps)
    qed simp_all
  qed
qed

section \<open>The request sent to the origin\<close>

definition header_values :: "string \<Rightarrow> headers \<Rightarrow> bytes list" where
  "header_values n hs = map snd (filter (\<lambda>(name, value). name = n) hs)"

definition body_data :: "body_frame list \<Rightarrow> bytes" where
  "body_data fs = concat (map (\<lambda>f. case f of DataFrame chunk \<Rightarrow> chunk | _ \<Rightarrow> []) fs)"

definition body_complete :: "body_frame list \<Rightarrow> bool" where
  "body_complete fs = list_all (\<lambda>f. case f of FrameError _ \<Rightarrow> False | _ \<Rightarrow> True) fs"

lemma collect_body_complete: "body_complete fs \<Longrightarrow> collect_body fs = Inr (body_data fs)"
  by (induction fs rule: collect_body.induct) (auto simp: body_complete_def body_data_def)

lemma collect_body_incomplete: "\<not> body_complete fs \<Longrightarrow> \<exists>e. collect_body fs = Inl (BodyReadError e)"
  by (induction fs rule: collect_body.induct) (auto simp: body_complete_def split: sum.splits)

lemma header_values_filter:
  "header_values n (filter (\<lambda>(name, value). name \<noteq> h) hs) = (if n = h then [] else header_values n hs)"
  by (induction hs) (auto simp: header_values_def)

lemma header_values_append: "header_values n (xs @ ys) = header_values n xs @ header_values n ys"
  by (simp add: header_values_def)

text \<open>
  C13. Whatever the client sends, the origin is sent a request with the same method and headers,
  for the client's path and query under the origin's base URL, with exactly one \<open>Host\<close>, the
  origin's authority. Its body is the client's, gathered from all data frames; the bodies of
  \<open>GET\<close>, \<open>HEAD\<close> and \<open>DELETE\<close> are dropped. The origin's answer is passed on unchanged.
\<close>

theorem origin_request_is_faithful:
  assumes "bodyless (rq_method req) \<or> body_complete (rq_body req)"
  shows "\<exists>r. proxy_request U H send req og =
      (if builder_ok H (out_uri r) (out_headers r)
       then (case send r of Inl e \<Rightarrow> Inl (ClientError e) | Inr resp \<Rightarrow> Inr resp)
       else Inl RequestBuildError) \<and>
    out_method r = rq_method req \<and>
    out_uri r = url_base og @ (case rq_path_and_query req of None \<Rightarrow> [] | Some pq \<Rightarrow> pq) \<and>
    header_values n (out_headers r) =
      (if n = ''host'' then [url_authority U (oe_url og)] else header_values n (rq_headers req)) \<and>
    out_body r = (if bodyless (rq_method req) then [] else body_data (rq_body req))"
proof -
  define r where "r = \<lparr>out_method = rq_method req,
    out_uri = url_base og @ (case rq_path_and_query req of Some pq \<Rightarrow> pq | None \<Rightarrow> []),
    out_headers = filter (\<lambda>(name, value). name \<noteq> ''host'') (rq_headers req) @ [(''host'', url_authority U (oe_url og))],
    out_body = if bodyless (rq_method req) then [] else body_data (rq_body req)\<rparr>"
  have "proxy_request U H send req og =
      (if builder_ok H (out_uri r) (out_headers r)
       then (case send r of Inl e \<Rightarrow> Inl (ClientError e) | Inr resp \<Rightarrow> Inr resp)
       else Inl RequestBuildError)"
    using assms
    by (cases "bodyless (rq_method req)")
       (simp_all add: proxy_request_def r_def Let_def collect_body_complete split: sum.splits)
  moreover have "header_values n (out_headers r) =
      (if n = ''host'' then [url_authority U (oe_url og)] else header_values n (rq_headers req))"
    by (simp add: r_def header_values_append header_values_filter) (simp add: header_values_def)
  ultimately show ?thesis by (intro exI [of _ r]) (simp add: r_def)
qed

section \<open>Failures that are not the origin's\<close>

text \<open>Requests handled one after the other, with one latency, clock and random source.\<close>

fun handle_all ::
  "'u url_ops \<Rightarrow> http_ops \<Rightarrow> (out_request \<Rightarrow> string + response) \<Rightarrow> duration \<Rightarrow> (nat \<Rightarrow> instant)
     \<Rightarrow> rng \<Rightarrow> ip_addr \<Rightarrow> request list \<Rightarrow> 'u app_state \<Rightarrow> (proxy_error + response) list \<times> 'u app_state" where
  "handle_all U H send latency clock g ip [] s = ([], s)"
| "handle_all U H send latency clock g ip (req # reqs) s =
     (let (r, s1) = handle_request U H send latency clock g ip req s;
          (rs, s2) = handle_all U H send latency clock g ip reqs s1
      in (r # rs, s2))"

definition sample_http :: http_ops where
  "sample_http = \<lparr>header_to_str = Some, builder_ok = (\<lambda>_ _. True)\<rparr>"

definition sample_get :: request where
  "sample_get = \<lparr>rq_method = GET, rq_path = ''/x'', rq_path_and_query = Some ''/x?q=1'',
     rq_headers = [(''host'', ''example.com''), (''accept'', ''text/html'')], rq_body = []\<rparr>"

definition sample_upload :: "body_frame list \<Rightarrow> request" where
  "sample_upload fs = \<lparr>rq_method = POST, rq_path = ''/x'', rq_path_and_query = Some ''/x'',
     rq_headers = [(''host'', ''example.com'')], rq_body = fs\<rparr>"

definition sample_app :: "string app_state" where
  "sample_app = app_new sample_urls (\<lambda>_. None) (sample_config [sample_route None None [''http://a/'']])"

text \<open>Its states: the ticket of the balancer and the record of the one origin vary.\<close>

definition sample_endpoint_a :: "string origin_endpoint" where
  "sample_endpoint_a = endpoint_for sample_urls None None ''http://a/''"

definition one_origin :: "u64 \<Rightarrow> origin_state \<Rightarrow> string app_state" where
  "one_origin c os = \<lparr>config = sample_config [sample_route None None [''http://a/'']],
     router = \<lparr>entries = [(entry_for (sample_route None None [''http://a/'']) [sample_endpoint_a])
                            \<lparr>re_load_balancer := RoundRobinBalancer c\<rparr>]\<rparr>,
     origin_states = [(''http://a/'', os)], ratelimiter = None, route_ratelimiters = store_empty,
     error_pages = None, passive_enabled = True, passive_failure_threshold = 5,
     passive_success_threshold = 2\<rparr>"

lemma sample_app_one_origin: "sample_app = one_origin 0 new_origin_state"
  by (simp add: one_origin_def sample_app_def app_new_def sample_config_def sample_route_def sample_origin_def
      from_config_def entry_for_def new_load_balancer_def register_origins_def config_urls_def
      static_endpoints_def sample_endpoint_a_def install_route_limiters_def route_limiters_def
      default_health_def default_passive_health_def store_or_insert_def store_empty_def)

lemma one_origin_check: "check_limits clock ip key (one_origin c os) = (True, one_origin c os)"
  by (simp add: check_limits_def one_origin_def store_gets)

lemma one_origin_match: "match_route (router (one_origin c os)) host path = Some 0"
  by (simp add: match_route_def one_origin_def entry_matches_def route_simps sample_route_def)

lemma one_origin_select:
  "rr_select [sample_endpoint_a] [(''http://a/'', os)] c =
     (if healthy os then Some sample_endpoint_a else None, c + 1)"
  by (simp add: rr_select_def store_get_def sample_endpoint_a_def route_simps)

lemma one_origin_admit:
  "admit sample_urls H clock g ip req (one_origin c os) =
     (if healthy os then Forward sample_endpoint_a
      else Respond \<lparr>resp_status = 502, resp_headers = [], resp_body = ''No healthy origins available''\<rparr>,
      one_origin (c + 1) os)"
proof -
  have e: "re_candidates (entries (router (one_origin c os)) ! 0) = [sample_endpoint_a]"
    "re_load_balancer (entries (router (one_origin c os)) ! 0) = RoundRobinBalancer c"
    "origin_states (one_origin c os) = [(''http://a/'', os)]"
    by (simp_all add: one_origin_def route_simps)
  have s: "(one_origin c os)\<lparr>router := set_balancer 0 (RoundRobinBalancer (c + 1)) (router (one_origin c os))\<rparr>
      = one_origin (c + 1) os"
    by (simp add: one_origin_def set_balancer_def)
  have b: "bad_gateway (one_origin (c + 1) os) m = \<lparr>resp_status = 502, resp_headers = [], resp_body = m\<rparr>" for m
    by (simp add: bad_gateway_def get_error_response_def one_origin_def)
  show ?thesis
    by (simp add: admit_def one_origin_match one_origin_check e one_origin_select s b)
qed

lemma one_origin_finish:
  "finish_request d (url_key sample_endpoint_a) result (one_origin c os) =
     one_origin c (record_outcome (one_origin c os) result (record_latency d (increment_requests os)))"
  by (simp add: finish_request_def one_origin_def store_adjust_def sample_endpoint_a_def route_simps record_outcome_def)

text \<open>
  The failure count does not tell whose failure it was: five clients that break off their
  upload take a healthy origin out of service, whatever the origin answers (it is never asked);
  they get no response, and the next client gets a 502.
\<close>

theorem aborted_uploads_take_origin_down:
  "fst (handle_all sample_urls sample_http send latency (\<lambda>_. 0) g (IpV4 7)
      (replicate 5 (sample_upload [DataFrame ''ab'', FrameError ''reset'']) @ [sample_get]) sample_app)
   = replicate 5 (Inl (BodyReadError ''reset'')) @
     [Inr \<lparr>resp_status = 502, resp_headers = [], resp_body = ''No healthy origins available''\<rparr>]"
proof -
  have upload: "proxy_request sample_urls sample_http send (sample_upload [DataFrame ''ab'', FrameError ''reset'']) og
      = Inl (BodyReadError ''reset'')" for og
    by (simp add: proxy_request_def sample_upload_def bodyless_def)
  define F where "F os = record_failure_with_threshold 5 (record_latency latency (increment_requests os))" for os
  have step: "handle_request sample_urls sample_http send latency (\<lambda>_. 0) g (IpV4 7)
      (sample_upload [DataFrame ''ab'', FrameError ''reset'']) (one_origin c os)
      = (Inl (BodyReadError ''reset''), one_origin (c + 1) (F os))" if "healthy os" for c os
    using that
    by (simp add: handle_request_def one_origin_admit upload one_origin_finish record_outcome_eq
        outcome_failed_def failure_limit_def F_def) (simp add: one_origin_def)
  have last: "handle_request sample_urls sample_http send latency (\<lambda>_. 0) g (IpV4 7) sample_get (one_origin c os)
      = (Inr \<lparr>resp_status = 502, resp_headers = [], resp_body = ''No healthy origins available''\<rparr>,
         one_origin (c + 1) os)" if "\<not> healthy os" for c os
    using that by (simp add: handle_request_def one_origin_admit)
  have F: "consecutive_failures (F os) = consecutive_failures os + 1"
    "healthy (F os) \<longleftrightarrow> healthy os \<and> \<not> 5 \<le> consecutive_failures os + 1" for os
    by (simp_all add: F_def health_simps)
  have new: "healthy new_origin_state" "consecutive_failures new_origin_state = 0"
    by (simp_all add: new_origin_state_def)
  have five: "replicate 5 x = [x, x, x, x, x]" for x :: 'b
    by (simp add: eval_nat_numeral)
  show ?thesis
    unfolding five append_Cons append_Nil handle_all.simps sample_app_one_origin
    by (simp add: step last F new word_le_nat_alt)
qed

section \<open>Witnesses\<close>

lemma sample_app_ok: "app_ok sample_urls sample_app"
  by (simp add: sample_app_def app_new_ok)

lemma sample_app_admit:
  "admit sample_urls H clock g ip req sample_app = (Forward sample_endpoint_a, one_origin 1 new_origin_state)"
  by (simp add: sample_app_one_origin one_origin_admit) (simp add: new_origin_state_def)

lemma forwarded_only_if_entitled_witness:
  "\<exists>os. store_get (origin_states sample_app) ''http://a/'' = Some os \<and> healthy os"
  using forwarded_only_if_entitled [OF sample_app_ok sample_rng_ok
      sample_app_admit [of sample_http "\<lambda>_. 0" sample_rng "IpV4 7" sample_get]]
  by (auto simp: sample_endpoint_a_def route_simps)

definition down_state :: origin_state where
  "down_state = new_origin_state\<lparr>healthy := False\<rparr>"

lemma refused_only_for_a_reason_witness:
  "app_ok sample_urls (one_origin 3 down_state) \<and>
   list_all (\<lambda>og. oe_weight og = Some 0 \<or>
      (\<exists>os. store_get (origin_states (one_origin 3 down_state)) (url_key og) = Some os \<and> \<not> healthy os))
    (re_candidates (entries (router (one_origin 3 down_state)) ! 0))"
proof -
  have ok: "app_ok sample_urls (one_origin 3 down_state)"
    by (auto simp: app_ok_def one_origin_def store_ok_def router_ok_def limiters_ok_empty sample_endpoint_a_def
        route_simps store_get_def config_urls_def sample_config_def sample_route_def sample_origin_def)
  have "admit sample_urls sample_http (\<lambda>_. 0) sample_rng (IpV4 7) sample_get (one_origin 3 down_state) =
     (Respond \<lparr>resp_status = 502, resp_headers = [], resp_body = ''No healthy origins available''\<rparr>, one_origin 4 down_state)"
    by (simp add: one_origin_admit down_state_def)
  from refused_only_for_a_reason [OF ok sample_rng_ok this] ok show ?thesis
    by (simp add: one_origin_match)
qed

text \<open>A route with a limiter of its own beside a global one: the global one is left alone.\<close>

definition two_limiters :: "string app_state" where
  "two_limiters = app_new sample_urls (\<lambda>_. None)
     ((sample_config [limited_route None 5])\<lparr>ratelimit := Some \<lparr>rl_rate = 9, rl_burst = 9\<rparr>\<rparr>)"

lemma two_limiters_charged:
  "match_route (router two_limiters) (request_host sample_http (sample_get\<lparr>rq_path := ''/a''\<rparr>)) ''/a'' = Some 0"
  "charged_slot (re_key (entries (router two_limiters) ! 0)) two_limiters = Some ''*:/a''"
  "ratelimiter two_limiters = Some (limiter_new 9 9)"
  by (simp_all add: two_limiters_def app_new_def sample_get_def request_host_def sample_config_def match_route_def
      from_config_def route_simps entry_matches_def starts_with_def install_route_limiters_def route_limiters_def
      route_key_def limited_route_def sample_route_def store_gets limiter_new_def charged_slot_def)

lemma request_charges_one_bucket_witness:
  "ratelimiter two_limiters = Some (limiter_new 9 9) \<and>
   bucket_at (snd (handle_request sample_urls sample_http (\<lambda>_. Inl ''refused'') 5 (\<lambda>_. 0) sample_rng (IpV4 7)
     (sample_get\<lparr>rq_path := ''/a''\<rparr>) two_limiters)) None (IpV4 7) = bucket_at two_limiters None (IpV4 7)"
proof (intro conjI)
  show "bucket_at (snd (handle_request sample_urls sample_http (\<lambda>_. Inl ''refused'') 5 (\<lambda>_. 0) sample_rng (IpV4 7)
     (sample_get\<lparr>rq_path := ''/a''\<rparr>) two_limiters)) None (IpV4 7) = bucket_at two_limiters None (IpV4 7)"
    by (rule request_charges_one_bucket) (simp add: two_limiters_charged)
qed (rule two_limiters_charged)

lemma request_is_recorded_once_witness:
  "\<exists>os'. store_get (origin_states (snd (handle_request sample_urls sample_http (\<lambda>_. Inl ''refused'') 5 (\<lambda>_. 0)
      sample_rng (IpV4 7) sample_get sample_app))) ''http://a/'' = Some os' \<and> total_requests os' = 1"
proof -
  have f: "store_get (origin_states sample_app) ''http://a/'' = Some new_origin_state"
    by (simp add: sample_app_one_origin one_origin_def store_get_def)
  have a: "url_key sample_endpoint_a = ''http://a/''"
    by (simp add: sample_endpoint_a_def route_simps)
  show ?thesis
    using request_is_recorded_once [OF sample_app_ok sample_rng_ok, where H = sample_http and clock = "\<lambda>_. 0"
        and ip = "IpV4 7" and req = sample_get and send = "\<lambda>_. Inl ''refused''" and latency = 5]
    by (auto simp: sample_app_admit f a new_origin_state_def store_gets split: prod.splits)
qed

definition echo_origin :: "out_request \<Rightarrow> string + response" where
  "echo_origin r = Inr \<lparr>resp_status = 200, resp_headers = [], resp_body = out_uri r @ '' '' @ out_body r\<rparr>"

lemma origin_request_is_faithful_witness:
  "proxy_request sample_urls sample_http echo_origin (sample_upload [DataFrame ''ab'', TrailersFrame [], DataFrame ''c''])
     sample_endpoint_a = Inr \<lparr>resp_status = 200, resp_headers = [], resp_body = ''http://a/x abc''\<rparr>"
proof -
  have "bodyless (rq_method (sample_upload [DataFrame ''ab'', TrailersFrame [], DataFrame ''c''])) \<or>
      body_complete (rq_body (sample_upload [DataFrame ''ab'', TrailersFrame [], DataFrame ''c'']))"
    by (simp add: sample_upload_def body_complete_def)
  from origin_request_is_faithful [OF this, of sample_urls sample_http echo_origin sample_endpoint_a "''host''"]
  show ?thesis
    by (auto simp: sample_upload_def sample_http_def sample_endpoint_a_def route_simps bodyless_def body_data_def
        trim_end_matches_def echo_origin_def)
qed

end
