(* ===== verification/Discovery.thy ===== *)
theory Discovery
  imports AppState
begin

text \<open>
  \<open>src/src/health/discovery.rs\<close>: the task that watches Kubernetes services and rebuilds the
  router with the origins they stand for. The types of \<open>k8s_openapi\<close> are records of the fields
  the code reads; the watcher is the sequence of its events (it reports services that were
  applied, deletions are filtered out before they reach the task).
\<close>

section \<open>Services\<close>

record service_spec =
  cluster_ip :: "string option"
  svc_ports :: "32 word list option"     \<comment> \<open>\<open>i32\<close>\<close>

record service =
  svc_name :: "string option"
  annotations :: "(string, string) store option"
  svc_spec :: "service_spec option"

definition pool_annotation :: string where
  "pool_annotation = ''upstreamer/pool''"

definition port_annotation :: string where
  "port_annotation = ''upstreamer/port''"

text \<open>\<open>i32::to_string\<close>.\<close>

definition show_i32 :: "32 word \<Rightarrow> string" where
  "show_i32 w = (if sint w < 0 then CHR ''-'' # show_nat (nat (- sint w)) else show_nat (nat (sint w)))"

definition annotation :: "service \<Rightarrow> string \<Rightarrow> string option" where
  "annotation svc k = (case annotations svc of None \<Rightarrow> None | Some a \<Rightarrow> store_get a k)"

definition service_port :: "service \<Rightarrow> service_spec \<Rightarrow> string option" where
  "service_port svc sp =
     (case annotation svc port_annotation of
        Some port \<Rightarrow> Some port
      | None \<Rightarrow>
          (case svc_ports sp of
             Some (p # ps) \<Rightarrow> Some (show_i32 p)
           | _ \<Rightarrow> None))"

definition service_to_origin :: "'u url_ops \<Rightarrow> service \<Rightarrow> (string \<times> 'u) option" where
  "service_to_origin U svc =
     (case svc_name svc of None \<Rightarrow> None | Some name \<Rightarrow>
     (case svc_spec svc of None \<Rightarrow> None | Some sp \<Rightarrow>
     (case cluster_ip sp of None \<Rightarrow> None | Some ip \<Rightarrow>
     (case service_port svc sp of None \<Rightarrow> None | Some port_str \<Rightarrow>
     (case parse_uint (2 ^ 16) port_str of None \<Rightarrow> None | Some port \<Rightarrow>
     (case url_parse U (''http://'' @ ip @ '':'' @ show_nat port) of None \<Rightarrow> None | Some url \<Rightarrow>
        let pool = (case annotation svc pool_annotation of Some p \<Rightarrow> p | None \<Rightarrow> name)
        in Some (pool, url)))))))"

section \<open>The task\<close>

text \<open>The router is swapped first, the states are registered after it: two steps.\<close>

definition swap_k8s_router :: "'u url_ops \<Rightarrow> (string, 'u list) store \<Rightarrow> 'u app_state \<Rightarrow> 'u app_state" where
  "swap_k8s_router U k8s_origins s = s\<lparr>router := from_config_with_k8s U (config s) k8s_origins\<rparr>"

definition register_k8s_origins :: "'u url_ops \<Rightarrow> (string, 'u list) store \<Rightarrow> 'u app_state \<Rightarrow> 'u app_state" where
  "register_k8s_origins U k8s_origins s =
     s\<lparr>origin_states := register_origins U (k8s_urls k8s_origins) (origin_states s)\<rparr>"

definition rebuild_router :: "'u url_ops \<Rightarrow> (string, 'u list) store \<Rightarrow> 'u app_state \<Rightarrow> 'u app_state" where
  "rebuild_router U k8s_origins s = register_k8s_origins U k8s_origins (swap_k8s_router U k8s_origins s)"

datatype watch_event = Applied service | WatchError string

text \<open>\<open>entry(pool).or_default()\<close>, \<open>clear()\<close>, \<open>push(url)\<close>.\<close>

definition replace_pool :: "string \<Rightarrow> 'u \<Rightarrow> (string, 'u list) store \<Rightarrow> (string, 'u list) store" where
  "replace_pool pool url m =
     store_adjust (\<lambda>entry. entry @ [url]) pool (store_adjust (\<lambda>_. []) pool (store_or_insert [] pool m))"

fun discovery_event ::
  "'u url_ops \<Rightarrow> watch_event \<Rightarrow> (string, 'u list) store \<times> 'u app_state \<Rightarrow> (string, 'u list) store \<times> 'u app_state" where
  "discovery_event U (Applied svc) (k8s_origins, s) =
     (case service_to_origin U svc of
        Some (pool, url) \<Rightarrow>
          (let k8s_origins' = replace_pool pool url k8s_origins
           in (k8s_origins', rebuild_router U k8s_origins' s))
      | None \<Rightarrow> (k8s_origins, s))"
| "discovery_event U (WatchError e) (k8s_origins, s) = (k8s_origins, s)"

text \<open>The task on a finite stream; \<open>client_ok\<close> is whether the client could be built.\<close>

definition run_k8s_discovery ::
  "'u url_ops \<Rightarrow> bool \<Rightarrow> watch_event list \<Rightarrow> 'u app_state \<Rightarrow> (string, 'u list) store \<times> 'u app_state" where
  "run_k8s_discovery U client_ok events s =
     (case kubernetes (config s) of
        None \<Rightarrow> (store_empty, s)
      | Some k8s_config \<Rightarrow>
          if \<not> client_ok then (store_empty, s)
          else fold (discovery_event U) events (store_empty, s))"

section \<open>Which URL a service stands for\<close>

lemma parse_show_i32:
  "parse_uint (2 ^ 16) (show_i32 p) = (if 0 \<le> sint p \<and> sint p < 2 ^ 16 then Some (nat (sint p)) else None)"
proof (cases "0 \<le> sint p")
  case True
  then show ?thesis by (simp add: show_i32_def parse_show_nat_iff nat_less_iff del: power_numeral)
next
  case False
  then show ?thesis by (simp add: show_i32_def parse_uint_def is_digit_def)
qed

text \<open>
  C35. The URL of a discovered service: without a port annotation it is the cluster IP at the
  first port, exactly when that port is in the range of \<open>u16\<close>; the pool is the annotated one
  or the service's own name. A port annotation replaces the port and must be a decimal number.
\<close>

theorem service_origin_spec:
  assumes "svc_name svc = Some name" and "svc_spec svc = Some sp" and "cluster_ip sp = Some ip"
  shows "service_to_origin U svc =
     (case (case annotation svc port_annotation of
              Some str \<Rightarrow> parse_uint (2 ^ 16) str
            | None \<Rightarrow> (case svc_ports sp of
                 Some (p # _) \<Rightarrow> if 0 \<le> sint p \<and> sint p < 2 ^ 16 then Some (nat (sint p)) else None
               | _ \<Rightarrow> None)) of
        None \<Rightarrow> None
      | Some port \<Rightarrow> map_option (\<lambda>url. (case annotation svc pool_annotation of Some p \<Rightarrow> p | None \<Rightarrow> name, url))
           (url_parse U (''http://'' @ ip @ '':'' @ show_nat port)))"
proof -
  have "(case annotation svc port_annotation of
              Some str \<Rightarrow> parse_uint (2 ^ 16) str
            | None \<Rightarrow> (case svc_ports sp of
                 Some (p # _) \<Rightarrow> if 0 \<le> sint p \<and> sint p < 2 ^ 16 then Some (nat (sint p)) else None
               | _ \<Rightarrow> None))
      = (case service_port svc sp of None \<Rightarrow> None | Some str \<Rightarrow> parse_uint (2 ^ 16) str)"
    by (auto simp add: service_port_def parse_show_i32 simp del: power_numeral split: option.splits list.splits)
  moreover have "service_to_origin U svc =
     (case (case service_port svc sp of None \<Rightarrow> None | Some str \<Rightarrow> parse_uint (2 ^ 16) str) of
        None \<Rightarrow> None
      | Some port \<Rightarrow> map_option (\<lambda>url. (case annotation svc pool_annotation of Some p \<Rightarrow> p | None \<Rightarrow> name, url))
           (url_parse U (''http://'' @ ip @ '':'' @ show_nat port)))"
    using assms by (auto simp add: service_to_origin_def Let_def simp del: power_numeral split: option.splits)
  ultimately show ?thesis by (simp only:)
qed

section \<open>What a pool holds\<close>

lemma replace_pool_get:
  "store_get (replace_pool pool url m) k = (if k = pool then Some [url] else store_get m k)"
  by (simp add: replace_pool_def store_gets)

lemma replace_pool_ok: "store_ok m \<Longrightarrow> store_ok (replace_pool pool url m)"
  by (simp add: replace_pool_def store_invars)

definition event_origin :: "'u url_ops \<Rightarrow> watch_event \<Rightarrow> (string \<times> 'u) option" where
  "event_origin U e = (case e of Applied svc \<Rightarrow> service_to_origin U svc | WatchError _ \<Rightarrow> None)"

lemma discovery_event_eq:
  "discovery_event U e (m, s) =
     (case event_origin U e of None \<Rightarrow> (m, s)
      | Some (pool, url) \<Rightarrow> (replace_pool pool url m, rebuild_router U (replace_pool pool url m) s))"
  by (cases e) (auto simp: event_origin_def Let_def split: option.splits)

text \<open>The last URL announced for a pool.\<close>

definition last_origin :: "'u url_ops \<Rightarrow> watch_event list \<Rightarrow> string \<Rightarrow> 'u option" where
  "last_origin U events pool = map_of (rev (List.map_filter (event_origin U) events)) pool"

lemma last_origin_snoc:
  "last_origin U (events @ [e]) pool =
     (case event_origin U e of
        Some (p, url) \<Rightarrow> if p = pool then Some url else last_origin U events pool
      | None \<Rightarrow> last_origin U events pool)"
  by (auto simp: last_origin_def List.map_filter_def split: option.splits)

lemma discovery_pools:
  "store_get (fst (fold (discovery_event U) events (store_empty, s))) pool =
     map_option (\<lambda>url. [url]) (last_origin U events pool)"
proof (induction events rule: rev_induct)
  case Nil
  then show ?case by (simp add: last_origin_def store_gets List.map_filter_def)
next
  case (snoc e events)
  obtain m s' where m: "fold (discovery_event U) events (store_empty, s) = (m, s')" by force
  with snoc show ?case
    by (auto simp: discovery_event_eq last_origin_snoc replace_pool_get split: option.splits)
qed

text \<open>
  C36. A pool never holds more than one discovered origin: whatever services were announced for
  it, the last one has replaced all the others.
\<close>

theorem pool_keeps_last_service:
  "store_get (fst (run_k8s_discovery U True events s)) pool =
     (case kubernetes (config s) of None \<Rightarrow> None
      | Some _ \<Rightarrow> map_option (\<lambda>url. [url]) (last_origin U events pool))"
  by (simp add: run_k8s_discovery_def discovery_pools store_gets split: option.splits)

text \<open>
  Nothing takes an origin out of a pool but another announcement for that pool: deletions of
  services are not in the stream, and a service that moves to another pool by a new annotation
  stays in the old one, where it goes on getting requests.
\<close>

theorem moved_service_stays:
  assumes "kubernetes (config s) \<noteq> None"
    and "event_origin U e = Some (old_pool, url)" and "event_origin U e' = Some (new_pool, url')"
    and "old_pool \<noteq> new_pool"
    and "\<forall>e'' \<in> set later. \<forall>pool u. event_origin U e'' = Some (pool, u) \<longrightarrow> pool \<noteq> old_pool"
  shows "store_get (fst (run_k8s_discovery U True (earlier @ [e, e'] @ later) s)) old_pool = Some [url]"
proof -
  have "last_origin U (events @ later) old_pool = last_origin U events old_pool" for events
    using assms(5)
  proof (induction later rule: rev_induct)
    case (snoc e'' later)
    then show ?case using last_origin_snoc [of U "events @ later" e'' old_pool] by (auto split: option.splits)
  qed simp
  moreover have "last_origin U (earlier @ [e, e']) old_pool = Some url"
    using last_origin_snoc [of U "earlier @ [e]" e' old_pool] last_origin_snoc [of U earlier e old_pool] assms(2-4)
    by simp
  ultimately have "last_origin U ((earlier @ [e, e']) @ later) old_pool = Some url" by (simp only:)
  with discovery_pools [of U "earlier @ [e, e'] @ later" s old_pool]
  have "store_get (fst (fold (discovery_event U) (earlier @ [e, e'] @ later) (store_empty, s))) old_pool = Some [url]"
    by (simp only: append_assoc option.map)
  with assms(1) show ?thesis by (auto simp: run_k8s_discovery_def simp del: fold_append fold_simps)
qed

section \<open>The invariant\<close>

lemma k8s_urls_get: "store_get m pool = Some urls \<Longrightarrow> set urls \<subseteq> set (k8s_urls m)"
  by (force simp: k8s_urls_def store_get_def dest: map_of_SomeD)

lemma rebuild_router_ok:
  assumes "app_ok U s"
  shows "app_ok U (rebuild_router U m s)"
proof -
  have "url_to_string U ` (set (config_urls (config s)) \<union> set (k8s_urls m))
      \<subseteq> dom (store_get (register_origins U (k8s_urls m) (origin_states s)))"
    using assms by (simp add: app_ok_def register_origins_dom image_Un le_supI1)
  from router_ok_from_config_with_k8s [OF this] assms show ?thesis
    by (simp add: app_ok_def rebuild_router_def register_k8s_origins_def swap_k8s_router_def
      register_origins_ok register_origins_dom le_supI1)
qed

lemma discovery_event_ok: "app_ok U (snd ms) \<Longrightarrow> app_ok U (snd (discovery_event U e ms))"
  by (cases ms) (auto simp: discovery_event_eq rebuild_router_ok split: option.splits)

lemma rebuild_router_origin_states:
  "store_get (origin_states (rebuild_router U m s)) k =
     (case store_get (origin_states s) k of Some os \<Rightarrow> Some os
      | None \<Rightarrow> if k \<in> url_to_string U ` set (k8s_urls m) then Some new_origin_state else None)"
  by (simp add: rebuild_router_def register_k8s_origins_def swap_k8s_router_def register_origins_get)

lemma rebuild_router_fields [proj_simps]:
  "config (rebuild_router U m s) = config s" "ratelimiter (rebuild_router U m s) = ratelimiter s"
  "route_ratelimiters (rebuild_router U m s) = route_ratelimiters s"
  by (simp_all add: rebuild_router_def register_k8s_origins_def swap_k8s_router_def)

section \<open>Witnesses\<close>

definition sample_service :: "string \<Rightarrow> string \<Rightarrow> 32 word \<Rightarrow> service" where
  "sample_service name ip p = \<lparr>svc_name = Some name, annotations = Some [(pool_annotation, ''backend'')],
     svc_spec = Some \<lparr>cluster_ip = Some ip, svc_ports = Some [p]\<rparr>\<rparr>"

lemma show_nat_small: "n < 10 \<Longrightarrow> show_nat n = [digit_char n]"
  by (subst show_nat.simps) simp

lemma sample_service_origin:
  "service_to_origin sample_urls (sample_service name ''a'' 80) = Some (''backend'', ''http://a:80/'')"
proof -
  have "show_nat 80 = ''80''" by code_simp
  moreover have "parse_uint 65536 ''80'' = Some 80"
    using parse_show_nat [of 80 65536] calculation by simp
  moreover have "show_i32 80 = ''80''"
    using calculation(1) by (simp add: show_i32_def)
  ultimately show ?thesis
    by (simp add: service_to_origin_def service_port_def annotation_def sample_service_def store_get_def
        pool_annotation_def port_annotation_def sample_parse_def starts_with_def sample_scheme_def)
qed

lemma service_origin_spec_witness:
  "service_to_origin sample_urls (sample_service ''svc'' ''a'' 70000) = None"
  by (subst service_origin_spec [of _ "''svc''" "\<lparr>cluster_ip = Some ''a'', svc_ports = Some [70000]\<rparr>" "''a''"])
     (simp_all add: sample_service_def annotation_def store_get_def pool_annotation_def port_annotation_def)

end
