(* ===== verification/Reload.thy ===== *)
theory Reload
  imports Server Discovery
begin

text \<open>
  \<open>src/src/config/reload.rs\<close>: the task that watches the configuration file. The stores of a
  reload into the shared state happen one after the other while requests are served;
  \<open>reload_steps\<close> lists them in order, \<open>apply_config\<close> is their composition.
\<close>

section \<open>Applying a configuration\<close>

definition swap_static_router :: "'u url_ops \<Rightarrow> 'u proxy_config \<Rightarrow> 'u app_state \<Rightarrow> 'u app_state" where
  "swap_static_router U c s = s\<lparr>router := from_config U c\<rparr>"

definition clear_route_limiters :: "'u app_state \<Rightarrow> 'u app_state" where
  "clear_route_limiters s = s\<lparr>route_ratelimiters := store_empty\<rparr>"

definition insert_route_limiters :: "'u proxy_config \<Rightarrow> 'u app_state \<Rightarrow> 'u app_state" where
  "insert_route_limiters c s =
     s\<lparr>route_ratelimiters := install_route_limiters (routes c) (route_ratelimiters s)\<rparr>"

definition add_origin_states :: "'u url_ops \<Rightarrow> 'u proxy_config \<Rightarrow> 'u app_state \<Rightarrow> 'u app_state" where
  "add_origin_states U c s = s\<lparr>origin_states := register_origins U (config_urls c) (origin_states s)\<rparr>"

definition store_passive :: "'u proxy_config \<Rightarrow> 'u app_state \<Rightarrow> 'u app_state" where
  "store_passive c s =
     s\<lparr>passive_enabled := ph_enabled (hc_passive (health c)),
       passive_failure_threshold := failure_threshold (hc_passive (health c)),
       passive_success_threshold := success_threshold (hc_passive (health c))\<rparr>"

definition swap_config :: "'u proxy_config \<Rightarrow> 'u app_state \<Rightarrow> 'u app_state" where
  "swap_config c s = s\<lparr>config := c\<rparr>"

definition reload_steps :: "'u url_ops \<Rightarrow> 'u proxy_config \<Rightarrow> ('u app_state \<Rightarrow> 'u app_state) list" where
  "reload_steps U c = [swap_static_router U c, clear_route_limiters, insert_route_limiters c,
     add_origin_states U c, store_passive c, swap_config c]"

definition apply_config :: "'u url_ops \<Rightarrow> 'u proxy_config \<Rightarrow> 'u app_state \<Rightarrow> 'u app_state" where
  "apply_config U c s = fold (\<lambda>f. f) (reload_steps U c) s"

text \<open>One reload; \<open>read\<close>, \<open>from_str\<close> and \<open>path_exists\<close> are the file system and the TOML parser.\<close>

definition reload ::
  "'u url_ops \<Rightarrow> (string \<Rightarrow> string option) \<Rightarrow> (string \<Rightarrow> 'u proxy_config option) \<Rightarrow> (string \<Rightarrow> bool)
     \<Rightarrow> string \<Rightarrow> 'u app_state \<Rightarrow> 'u app_state" where
  "reload U read from_str path_exists config_path s =
     (case load read from_str config_path of
        Inl e \<Rightarrow> s
      | Inr new_config \<Rightarrow>
          (case validate U path_exists new_config of
             Inl e \<Rightarrow> s
           | Inr _ \<Rightarrow> apply_config U new_config s))"

section \<open>Watching the file\<close>

datatype fs_event = Modified | Created | OtherEvent | WatchFailed

definition notifies :: "fs_event \<Rightarrow> bool" where
  "notifies e \<longleftrightarrow> e = Modified \<or> e = Created"

text \<open>
  A batch is the events that arrive from one \<open>recv\<close> until the queue has been drained half a
  second later, with the file contents seen by the read after it.
\<close>

fun watch_config ::
  "'u url_ops \<Rightarrow> (string \<Rightarrow> 'u proxy_config option) \<Rightarrow> (string \<Rightarrow> bool) \<Rightarrow> string
     \<Rightarrow> (fs_event list \<times> (string \<Rightarrow> string option)) list \<Rightarrow> 'u app_state \<Rightarrow> 'u app_state" where
  "watch_config U from_str path_exists config_path [] s = s"
| "watch_config U from_str path_exists config_path ((events, read) # batches) s =
     (if list_ex notifies events
      then watch_config U from_str path_exists config_path batches
             (reload U read from_str path_exists config_path s)
      else watch_config U from_str path_exists config_path batches s)"

section \<open>A reload is a restart that keeps the live state\<close>

lemmas reload_step_defs = swap_static_router_def clear_route_limiters_def insert_route_limiters_def
  add_origin_states_def store_passive_def swap_config_def

lemma apply_config_eq:
  "apply_config U c s = (app_new U read_file c)
     \<lparr>origin_states := register_origins U (config_urls c) (origin_states s),
      ratelimiter := ratelimiter s, error_pages := error_pages s\<rparr>"
  by (simp add: apply_config_def reload_steps_def reload_step_defs app_new_def)

lemma apply_config_get:
  "store_get (origin_states (apply_config U c s)) k =
     (case store_get (origin_states s) k of Some os \<Rightarrow> Some os
      | None \<Rightarrow> if k \<in> url_to_string U ` set (config_urls c) then Some new_origin_state else None)"
  by (simp add: apply_config_def reload_steps_def reload_step_defs register_origins_get)

lemma apply_config_ok:
  assumes "app_ok U s"
  shows "app_ok U (apply_config U c s)"
proof -
  have "url_to_string U ` set (config_urls c)
      \<subseteq> dom (store_get (register_origins U (config_urls c) (origin_states s)))"
    by (simp add: register_origins_dom)
  from router_ok_from_config [OF this] assms show ?thesis
    by (simp add: app_ok_def apply_config_def reload_steps_def reload_step_defs register_origins_ok
        register_origins_dom install_route_limiters_ok limiters_ok_empty)
qed

lemma reload_cases:
  obtains "reload U read from_str path_exists config_path s = s"
  | c where "validate U path_exists c = Inr ()" and "load read from_str config_path = Inr c"
      and "reload U read from_str path_exists config_path s = apply_config U c s"
  by (cases "load read from_str config_path"; cases "validate U path_exists (projr (load read from_str config_path))")
     (auto simp: reload_def)

lemma reload_ok: "app_ok U s \<Longrightarrow> app_ok U (reload U read from_str path_exists config_path s)"
  by (rule reload_cases [of U read from_str path_exists config_path s]) (simp_all add: apply_config_ok)

lemma reload_get:
  "store_get (origin_states s) k = Some os \<Longrightarrow>
     store_get (origin_states (reload U read from_str path_exists config_path s)) k = Some os"
  by (rule reload_cases [of U read from_str path_exists config_path s]) (simp_all add: apply_config_get)

text \<open>
  C18. A reload is all or nothing, and a successful one is a restart that keeps the live state:
  a file that cannot be read, parsed or validated changes nothing; otherwise the state is the
  one a fresh start on the new file would build, except that known origins keep their health
  records and the global limiter and the error pages stay as they were.
\<close>

theorem reload_is_all_or_nothing:
  "reload U read from_str path_exists config_path s =
     (case load read from_str config_path of
        Inl e \<Rightarrow> s
      | Inr c \<Rightarrow>
          if config_ok U path_exists c
          then (app_new U read_file c)
            \<lparr>origin_states := register_origins U (config_urls c) (origin_states s),
             ratelimiter := ratelimiter s, error_pages := error_pages s\<rparr>
          else s)"
proof (cases "load read from_str config_path")
  case (Inr c)
  then show ?thesis
    using validate_ok_iff [of U path_exists c] apply_config_eq [of U c s read_file]
    by (cases "validate U path_exists c") (simp_all add: reload_def)
qed (simp add: reload_def)

lemma watch_config_ok:
  "app_ok U s \<Longrightarrow> app_ok U (watch_config U from_str path_exists config_path batches s)"
  by (induction batches arbitrary: s) (auto simp: reload_ok)

lemma watch_config_get:
  "store_get (origin_states s) k = Some os \<Longrightarrow>
     store_get (origin_states (watch_config U from_str path_exists config_path batches s)) k = Some os"
  by (induction batches arbitrary: s) (auto simp: reload_get)

text \<open>
  No sequence of edits of the file breaks the running proxy or forgets what it has learnt:
  the state stays well formed, and the health record of every known origin is untouched.
\<close>

theorem watching_is_safe:
  assumes "app_ok U s" and "store_get (origin_states s) k = Some os"
  shows "app_ok U (watch_config U from_str path_exists config_path batches s) \<and>
    store_get (origin_states (watch_config U from_str path_exists config_path batches s)) k = Some os"
  using assms watch_config_ok watch_config_get by blast

section \<open>What a reload loses\<close>

definition sample_k8s_app :: "string app_state" where
  "sample_k8s_app = app_new sample_urls (\<lambda>_. None)
     ((sample_config [sample_route None None [''http://b/'']])
       \<lparr>kubernetes := Some \<lparr>namespace = None, label_selector = None, poll_interval = default_poll_interval\<rparr>\<rparr>)"

definition proxied_urls :: "'u app_state \<Rightarrow> 'u list" where
  "proxied_urls s = concat (map (\<lambda>e. map oe_url (re_candidates e)) (entries (router s)))"

text \<open>
  A reload drops every discovered origin: after a service has joined the pool of a route,
  reloading the very same configuration leaves the route with its static origins only, until
  the next event of the watcher.
\<close>

theorem reload_drops_discovered_origins:
  "let s = snd (run_k8s_discovery sample_urls True [Applied (sample_service name ''a'' 80)] sample_k8s_app)
   in proxied_urls s = [''http://b/'', ''http://a:80/''] \<and>
      proxied_urls (reload sample_urls (\<lambda>_. Some []) (\<lambda>_. Some (config s)) (\<lambda>_. True) ''upstreamer.toml'' s)
        = [''http://b/'']"
proof -
  define s where "s = snd (run_k8s_discovery sample_urls True [Applied (sample_service name ''a'' 80)] sample_k8s_app)"
  have svc: "service_to_origin sample_urls (sample_service name ''a'' 80) = Some (''backend'', ''http://a:80/'')"
    by (rule sample_service_origin)
  have k: "kubernetes (config sample_k8s_app) \<noteq> None"
    by (simp add: sample_k8s_app_def app_new_def)
  then obtain kc where k: "kubernetes (config sample_k8s_app) = Some kc" by blast
  have run: "s = rebuild_router sample_urls [(''backend'', [''http://a:80/''])] sample_k8s_app"
    using svc by (simp add: s_def run_k8s_discovery_def discovery_event_eq event_origin_def k replace_pool_def
        store_or_insert_def store_adjust_def store_empty_def)
  have c: "config s = config sample_k8s_app" by (simp add: run proj_simps)
  have ok: "config_ok sample_urls (\<lambda>_. True) (config sample_k8s_app)"
    by (simp add: sample_k8s_app_def app_new_def config_ok_def route_ok_def pool_ok_def origin_ok_def
        bad_rate_limit_def match_key_def sample_route_def sample_origin_def sample_config_def sample_scheme_def)
  have "reload sample_urls (\<lambda>_. Some []) (\<lambda>_. Some (config s)) (\<lambda>_. True) ''upstreamer.toml'' s
      = apply_config sample_urls (config sample_k8s_app) s"
    using ok by (simp add: reload_def load_def c flip: validate_ok_iff)
  moreover have "proxied_urls (apply_config sample_urls (config sample_k8s_app) s) = [''http://b/'']"
    by (simp add: apply_config_def reload_steps_def reload_step_defs proxied_urls_def from_config_def
        sample_k8s_app_def app_new_def sample_config_def sample_route_def sample_origin_def static_endpoints_def route_simps)
  moreover have "proxied_urls s = [''http://b/'', ''http://a:80/'']"
    by (simp add: run rebuild_router_def swap_k8s_router_def register_k8s_origins_def proxied_urls_def
        from_config_with_k8s_def sample_k8s_app_def app_new_def sample_config_def sample_route_def sample_origin_def
        static_endpoints_def k8s_endpoints_def store_get_def route_simps)
  ultimately show ?thesis by (simp add: s_def [symmetric])
qed

text \<open>
  Between the clearing of the route limiters and their re-insertion no route limit is
  enforced: in that state every route falls back to the global limiter, and without one every
  address is admitted.
\<close>

theorem reload_suspends_route_limits:
  "charged_limiter key (fold (\<lambda>f. f) (take 2 (reload_steps U c)) s) = ratelimiter s \<and>
   (ratelimiter s = None \<longrightarrow>
     fst (check_limits clock ip key (fold (\<lambda>f. f) (take 2 (reload_steps U c)) s)))"
  by (simp add: check_limits_allowed charged_limiter_def reload_steps_def reload_step_defs store_gets eval_nat_numeral)

section \<open>Witnesses\<close>

lemma watching_is_safe_witness:
  "app_ok sample_urls (watch_config sample_urls (\<lambda>_. None) (\<lambda>_. True) ''c.toml'' [([Modified], \<lambda>_. Some ''x'')] sample_app)"
proof -
  have "store_get (origin_states sample_app) ''http://a/'' = Some new_origin_state"
    by (simp add: sample_app_one_origin one_origin_def store_get_def)
  from watching_is_safe [OF sample_app_ok this] show ?thesis by blast
qed

lemma reload_suspends_route_limits_witness:
  "fst (check_limits (\<lambda>_. 0) (IpV4 7) ''*:*'' (fold (\<lambda>f. f) (take 2 (reload_steps sample_urls (config sample_app))) sample_app))"
proof -
  have "ratelimiter sample_app = None" by (simp add: sample_app_one_origin one_origin_def)
  with reload_suspends_route_limits [of "''*:*''" sample_urls "config sample_app" sample_app "\<lambda>_. 0" "IpV4 7"]
  show ?thesis by blast
qed

end
