(* ===== verification/Checker.thy ===== *)
theory Checker
  imports AppState
begin

text \<open>
  \<open>src/src/health/checker.rs\<close>: the active health checker and the HTTP endpoint that reports the
  state of the origins. The answer of an origin to a probe, the acceptance of a URI by the
  request builder, the text of the metrics and the JSON printer are parameters.
\<close>

section \<open>The checker task\<close>

datatype check_result = CheckResponse nat | CheckError | CheckTimeout

text \<open>What the task copies out of the configuration when it starts, and never reads again.\<close>

record checker =
  targets :: "(string \<times> string) list"
  ck_healthy_threshold :: u32
  ck_unhealthy_threshold :: u32
  ck_interval :: duration
  ck_timeout :: duration

definition check_target_of :: "'u url_ops \<Rightarrow> 'u origin_config \<Rightarrow> string \<times> string" where
  "check_target_of U og =
     (let base = trim_end_matches (CHR ''/'') (url_to_string U (oc_url og));
          path = (case oc_health_check_path og of Some p \<Rightarrow> p | None \<Rightarrow> ''/'')
      in (base, path))"

definition check_targets :: "'u url_ops \<Rightarrow> 'u proxy_config \<Rightarrow> (string \<times> string) list" where
  "check_targets U c =
     map (check_target_of U) (concat (map pl_origins (concat (map pools (routes c)))))"

text \<open>\<open>None\<close>: the checks are disabled and the task returns at once.\<close>

definition checker_start :: "'u url_ops \<Rightarrow> 'u app_state \<Rightarrow> checker option" where
  "checker_start U s =
     (let active = hc_active (health (config s))
      in if \<not> ah_enabled active then None
         else Some \<lparr>targets = check_targets U (config s),
                    ck_healthy_threshold = healthy_threshold active,
                    ck_unhealthy_threshold = unhealthy_threshold active,
                    ck_interval = ah_interval active, ck_timeout = ah_timeout active\<rparr>)"

definition is_success :: "nat \<Rightarrow> bool" where
  "is_success status \<longleftrightarrow> 200 \<le> status \<and> status < 300"

definition record_check :: "checker \<Rightarrow> check_result \<Rightarrow> origin_state \<Rightarrow> origin_state" where
  "record_check ck result os =
     (case result of
        CheckResponse status \<Rightarrow>
          if is_success status then record_success_with_threshold (ck_healthy_threshold ck) os
          else record_failure_with_threshold (ck_unhealthy_threshold ck) os
      | CheckError \<Rightarrow> record_failure_with_threshold (ck_unhealthy_threshold ck) os
      | CheckTimeout \<Rightarrow> record_failure_with_threshold (ck_unhealthy_threshold ck) os)"

definition check_url :: "string \<times> string \<Rightarrow> string" where
  "check_url t = (case t of (base, path) \<Rightarrow> base @ path)"

definition check_target :: "checker \<Rightarrow> string \<Rightarrow> check_result \<Rightarrow> 'u app_state \<Rightarrow> 'u app_state" where
  "check_target ck base result s =
     s\<lparr>origin_states := store_adjust (record_check ck result) base (origin_states s)\<rparr>"

text \<open>
  One tick: every target in turn. \<open>probe i url\<close> is what the \<open>i\<close>-th probe yields. Where the builder
  rejects the URI, \<open>expect\<close> panics and ends the task: the flag is \<open>False\<close>, and the targets
  before have been recorded.
\<close>

fun check_tick ::
  "(string \<Rightarrow> bool) \<Rightarrow> (nat \<Rightarrow> string \<Rightarrow> check_result) \<Rightarrow> checker \<Rightarrow> nat \<Rightarrow> (string \<times> string) list
     \<Rightarrow> 'u app_state \<Rightarrow> bool \<times> 'u app_state" where
  "check_tick uri_ok probe ck i [] s = (True, s)"
| "check_tick uri_ok probe ck i ((base, path) # ts) s =
     (let url = check_url (base, path)
      in if \<not> uri_ok url then (False, s)
         else check_tick uri_ok probe ck (Suc i) ts (check_target ck base (probe i url) s))"

text \<open>
  The task for a number of ticks; \<open>probes\<close> gives the probe results of each tick. A zero interval
  makes \<open>tokio::time::interval\<close> panic before the first tick.
\<close>

fun check_loop ::
  "(string \<Rightarrow> bool) \<Rightarrow> (nat \<Rightarrow> string \<Rightarrow> check_result) list \<Rightarrow> checker \<Rightarrow> 'u app_state \<Rightarrow> bool \<times> 'u app_state" where
  "check_loop uri_ok [] ck s = (True, s)"
| "check_loop uri_ok (probe # probes) ck s =
     (let (alive, s1) = check_tick uri_ok probe ck 0 (targets ck) s
      in if alive then check_loop uri_ok probes ck s1 else (False, s1))"

definition run_active_checks ::
  "'u url_ops \<Rightarrow> (string \<Rightarrow> bool) \<Rightarrow> (nat \<Rightarrow> string \<Rightarrow> check_result) list \<Rightarrow> 'u app_state \<Rightarrow> bool \<times> 'u app_state" where
  "run_active_checks U uri_ok probes s =
     (case checker_start U s of
        None \<Rightarrow> (False, s)
      | Some ck \<Rightarrow> if ck_interval ck = 0 then (False, s) else check_loop uri_ok probes ck s)"

section \<open>The effect of a tick\<close>

lemma check_target_get:
  "store_get (origin_states (check_target ck base r s)) k =
     (if k = base then map_option (record_check ck r) (store_get (origin_states s) base)
      else store_get (origin_states s) k)"
  by (simp add: check_target_def store_gets)

lemma check_target_fields [proj_simps]:
  "router (check_target ck base r s) = router s" "config (check_target ck base r s) = config s"
  "ratelimiter (check_target ck base r s) = ratelimiter s"
  "route_ratelimiters (check_target ck base r s) = route_ratelimiters s"
  by (simp_all add: check_target_def)

lemma check_target_dom:
  "dom (store_get (origin_states (check_target ck base r s))) = dom (store_get (origin_states s))"
  by (auto simp: check_target_get dom_def split: if_splits)

lemma check_target_ok:
  assumes ok: "app_ok U s"
  shows "app_ok U (check_target ck base r s)"
proof -
  have "dom (store_get (origin_states s)) \<subseteq> dom (store_get (origin_states (check_target ck base r s)))"
    by (simp only: check_target_dom order_refl)
  with ok have "router_ok U (origin_states (check_target ck base r s)) (router s)"
    unfolding app_ok_def by (blast intro: router_ok_mono)
  moreover have "store_ok (origin_states (check_target ck base r s))"
    using ok by (simp add: app_ok_def check_target_def store_invars)
  ultimately show ?thesis
    using ok unfolding app_ok_def by (simp only: check_target_dom check_target_fields)
qed

text \<open>The outcomes a tick holds for one key, in order.\<close>

definition check_outcome :: "check_result \<Rightarrow> bool" where
  "check_outcome r = (case r of CheckResponse status \<Rightarrow> is_success status | _ \<Rightarrow> False)"

lemma record_check_eq:
  "record_check ck r = (if check_outcome r then record_success_with_threshold (ck_healthy_threshold ck)
     else record_failure_with_threshold (ck_unhealthy_threshold ck))"
  by (auto simp: record_check_def check_outcome_def fun_eq_iff split: check_result.splits)

fun tick_outcomes :: "(nat \<Rightarrow> string \<Rightarrow> check_result) \<Rightarrow> nat \<Rightarrow> (string \<times> string) list \<Rightarrow> string \<Rightarrow> bool list" where
  "tick_outcomes probe i [] k = []"
| "tick_outcomes probe i ((base, path) # ts) k =
     (if base = k then [check_outcome (probe i (base @ path))] else []) @ tick_outcomes probe (Suc i) ts k"

lemma check_tick_get:
  assumes "list_all (\<lambda>t. uri_ok (check_url t)) ts"
  shows "fst (check_tick uri_ok probe ck i ts s) \<and>
    store_get (origin_states (snd (check_tick uri_ok probe ck i ts s))) k =
      map_option (record_outcomes (ck_healthy_threshold ck) (ck_unhealthy_threshold ck) (tick_outcomes probe i ts k))
        (store_get (origin_states s) k)"
  using assms
proof (induction ts arbitrary: i s)
  case Nil
  then show ?case by (simp add: record_outcomes_def option.map_ident)
next
  case (Cons t ts)
  obtain base path where t: "t = (base, path)" by force
  with Cons.prems have uri: "uri_ok (base @ path)" by (simp add: check_url_def)
  show ?case
    using Cons.IH [of "Suc i" "check_target ck base (probe i (base @ path)) s"] Cons.prems
    by (auto simp: t uri check_url_def check_target_get record_check_eq record_outcomes_def
        option.map_comp comp_def)
qed

lemma check_tick_ok: "app_ok U s \<Longrightarrow> app_ok U (snd (check_tick uri_ok probe ck i ts s))"
  by (induction ts arbitrary: i s) (auto simp: Let_def check_target_ok)

lemma check_loop_ok: "app_ok U s \<Longrightarrow> app_ok U (snd (check_loop uri_ok probes ck s))"
proof (induction probes arbitrary: s)
  case (Cons probe probes)
  then show ?case
    using check_tick_ok [of U s uri_ok probe ck 0 "targets ck"] by (auto split: prod.splits)
qed simp

lemma run_active_checks_ok: "app_ok U s \<Longrightarrow> app_ok U (snd (run_active_checks U uri_ok probes s))"
  by (auto simp: run_active_checks_def check_loop_ok split: option.splits)

lemma check_loop_get:
  assumes "list_all (\<lambda>t. uri_ok (check_url t)) (targets ck)"
  shows "store_get (origin_states (snd (check_loop uri_ok probes ck s))) k =
      map_option (record_outcomes (ck_healthy_threshold ck) (ck_unhealthy_threshold ck)
        (concat (map (\<lambda>probe. tick_outcomes probe 0 (targets ck) k) probes)))
        (store_get (origin_states s) k)"
proof (induction probes arbitrary: s)
  case Nil
  then show ?case by (simp add: record_outcomes_def option.map_ident)
next
  case (Cons probe probes)
  obtain alive s1 where t: "check_tick uri_ok probe ck 0 (targets ck) s = (alive, s1)" by force
  with check_tick_get [OF assms, of probe ck 0 s k] Cons.IH [of s1] show ?case
    by (simp add: option.map_comp comp_def record_outcomes_append)
qed

text \<open>
  C31. A registered origin whose key is a target's base is judged by its checks alone: while no
  other outcome is recorded, it is healthy exactly when the history of its check results says
  so - no run of failed checks has reached \<open>unhealthy_threshold\<close> without a later run of passed
  checks reaching \<open>healthy_threshold\<close>; only a 2xx answer in time is a pass.
\<close>

theorem active_checks_judge_by_history:
  assumes "list_all (\<lambda>t. uri_ok (check_url t)) (targets ck)"
    and "store_get (origin_states s) k = Some new_origin_state"
    and "outcomes = concat (map (\<lambda>probe. tick_outcomes probe 0 (targets ck) k) probes)"
    and "length outcomes < 2 ^ 32"
  shows "\<exists>os. store_get (origin_states (snd (check_loop uri_ok probes ck s))) k = Some os \<and>
     (healthy os \<longleftrightarrow> up_spec (unat (ck_healthy_threshold ck)) (unat (ck_unhealthy_threshold ck)) outcomes)"
proof -
  have "healthy (record_outcomes (ck_healthy_threshold ck) (ck_unhealthy_threshold ck) outcomes new_origin_state)
      \<longleftrightarrow> up_spec (unat (ck_healthy_threshold ck)) (unat (ck_unhealthy_threshold ck)) outcomes"
    unfolding record_outcomes_def using assms(4)
    by (intro tracker.run_spec [THEN conjunct2, THEN conjunct2]) (simp_all add: new_origin_state_def)
  with check_loop_get [OF assms(1), of probes s k] assms(2,3) show ?thesis by simp
qed

lemma record_successes:
  assumes "h = replicate (Suc n) True" and "unat (consecutive_successes os) + Suc n < 2 ^ 32"
    and "unat st \<le> Suc n"
  shows "healthy (record_outcomes st ft h os)"
proof -
  have succ: "unat (consecutive_successes (record_outcomes st ft (replicate m True) os))
      = unat (consecutive_successes os) + m" if "m \<le> n" for m
    using that
  proof (induction m)
    case (Suc m)
    have "replicate (Suc m) True = replicate m True @ [True]" by (simp add: replicate_append_same)
    with Suc assms(2) show ?case
      by (simp only: record_outcomes_append) (simp add: record_outcomes_def health_simps unat_Suc_u32)
  qed (simp add: record_outcomes_def)
  have "h = replicate n True @ [True]" by (simp add: assms(1) replicate_append_same)
  then have "healthy (record_outcomes st ft h os) \<longleftrightarrow>
      healthy (record_outcomes st ft (replicate n True) os) \<or>
      st \<le> consecutive_successes (record_outcomes st ft (replicate n True) os) + 1"
    by (simp only: record_outcomes_append) (simp add: record_outcomes_def health_simps)
  moreover have "unat (consecutive_successes (record_outcomes st ft (replicate n True) os) + 1)
      = unat (consecutive_successes os) + Suc n"
    using succ [of n] assms(2) by (subst unat_Suc_u32) simp_all
  ultimately show ?thesis using assms(3) by (simp add: word_le_nat_alt)
qed

text \<open>
  C32. Such an origin recovers: whatever state it is in, once all its checks pass for as many
  checks as \<open>healthy_threshold\<close>, it is healthy again (while the counter does not wrap).
\<close>

theorem passing_checks_restore:
  assumes "list_all (\<lambda>t. uri_ok (check_url t)) (targets ck)"
    and "store_get (origin_states s) k = Some os"
    and "outcomes = concat (map (\<lambda>probe. tick_outcomes probe 0 (targets ck) k) probes)"
    and "list_all (\<lambda>b. b) outcomes" and "outcomes \<noteq> []"
    and "unat (ck_healthy_threshold ck) \<le> length outcomes"
    and "unat (consecutive_successes os) + length outcomes < 2 ^ 32"
  shows "\<exists>os'. store_get (origin_states (snd (check_loop uri_ok probes ck s))) k = Some os' \<and> healthy os'"
proof -
  obtain n where n: "length outcomes = Suc n" using assms(5) by (cases outcomes) auto
  have "outcomes = replicate (Suc n) True"
    using assms(4) n by (intro replicate_eqI) (auto simp: list_all_iff)
  then have "healthy (record_outcomes (ck_healthy_threshold ck) (ck_unhealthy_threshold ck) outcomes os)"
    using assms(6,7) n by (intro record_successes) simp_all
  with check_loop_get [OF assms(1), of probes s k] assms(2,3) show ?thesis by simp
qed

section \<open>Active checks miss their origin\<close>

lemma check_target_miss: "store_get (origin_states s) base = None \<Longrightarrow> check_target ck base r s = s"
  by (simp add: check_target_def store_adjust_def store_get_def)

lemma check_tick_miss:
  assumes "list_all (\<lambda>t. store_get (origin_states s) (fst t) = None) ts"
  shows "snd (check_tick uri_ok probe ck i ts s) = s"
  using assms by (induction ts arbitrary: i) (auto simp: Let_def check_target_miss)

lemma check_loop_miss:
  assumes "list_all (\<lambda>t. store_get (origin_states s) (fst t) = None) (targets ck)"
  shows "snd (check_loop uri_ok probes ck s) = s"
proof (induction probes)
  case (Cons probe probes)
  with check_tick_miss [OF assms, of uri_ok probe ck 0] show ?case by (auto split: prod.splits)
qed simp

text \<open>\<open>http://host:port\<close> is serialised with a final slash, so this is the key of every origin without a path.\<close>

definition slash_keys :: "origin_states \<Rightarrow> bool" where
  "slash_keys m = list_all (\<lambda>k. k \<noteq> [] \<and> last k = CHR ''/'') (map fst m)"

lemma slash_keys_miss:
  assumes "slash_keys m" and "base = trim_end_matches (CHR ''/'') t"
  shows "store_get m base = None"
proof (rule ccontr)
  assume "store_get m base \<noteq> None"
  then have "base \<in> set (map fst m)"
    by (auto simp: store_get_def dest: map_of_SomeD intro: rev_image_eqI)
  with assms trim_end_matches_neq [of base "CHR ''/''" t] show False
    by (auto simp: slash_keys_def list_all_iff)
qed

lemma check_targets_trimmed:
  "t \<in> set (check_targets U c) \<Longrightarrow> \<exists>u. fst t = trim_end_matches (CHR ''/'') u"
  by (auto simp: check_targets_def check_target_of_def Let_def)

text \<open>
  C30. Active health checks have no effect where every origin key ends in a slash: targets are
  looked up by the URL without its trailing slash, but states are registered under the URL
  with it, so no result of any probe in any number of ticks is ever recorded.
\<close>

theorem active_checks_never_apply:
  assumes "slash_keys (origin_states s)"
  shows "snd (run_active_checks U uri_ok probes s) = s"
proof -
  have "list_all (\<lambda>t. store_get (origin_states s) (fst t) = None) (check_targets U (config s))"
    using slash_keys_miss [OF assms] check_targets_trimmed by (fastforce simp: list_all_iff)
  then have "snd (check_loop uri_ok probes ck s) = s" if "targets ck = check_targets U (config s)" for ck
    using that by (intro check_loop_miss) simp
  then show ?thesis
    by (auto simp: run_active_checks_def checker_start_def Let_def)
qed

section \<open>The health endpoint\<close>

text \<open>A \<open>serde_json::Value\<close> as far as the report uses it; an object is its entries.\<close>

datatype json = JBool bool | JNum nat | JStr string | JObject "(string \<times> json) list"

definition upstream_json :: "origin_state \<Rightarrow> json" where
  "upstream_json os =
     (let obj = store_empty;
          obj = store_insert ''healthy'' (JBool (healthy os)) obj;
          obj = store_insert ''consecutive_successes'' (JNum (unat (consecutive_successes os))) obj;
          obj = store_insert ''consecutive_failures'' (JNum (unat (consecutive_failures os))) obj;
          obj = store_insert ''total_requests'' (JNum (unat (total_requests os))) obj;
          obj = store_insert ''total_failures'' (JNum (unat (total_failures os))) obj;
          obj = store_insert ''ewma_latency_ns'' (JNum (unat (ewma_latency_ns os))) obj
      in JObject obj)"

definition upstreams_json :: "origin_states \<Rightarrow> json" where
  "upstreams_json m =
     JObject [(''origins'', JObject (fold (\<lambda>(key, os) origins. store_insert key (upstream_json os) origins)
                                     m store_empty))]"

definition handle_health_request ::
  "string \<Rightarrow> (json \<Rightarrow> string) \<Rightarrow> string \<Rightarrow> 'u app_state \<Rightarrow> response" where
  "handle_health_request metrics_text json_to_string path s =
     (if path = ''/metrics'' then
        \<lparr>resp_status = 200, resp_headers = [(''content-type'', ''text/plain; version=0.0.4'')],
         resp_body = metrics_text\<rparr>
      else if path = ''/healthz'' then
        \<lparr>resp_status = 200, resp_headers = [], resp_body = ''{\"status\":\"ok\"}''\<rparr>
      else if path = ''/healthz/upstreams'' then
        \<lparr>resp_status = 200, resp_headers = [], resp_body = json_to_string (upstreams_json (origin_states s))\<rparr>
      else \<lparr>resp_status = 404, resp_headers = [], resp_body = ''Not Found''\<rparr>)"

text \<open>A client reads a member of an object.\<close>

definition json_member :: "json \<Rightarrow> string \<Rightarrow> json option" where
  "json_member j k = (case j of JObject kvs \<Rightarrow> store_get kvs k | _ \<Rightarrow> None)"

text \<open>What a client of the endpoint can rebuild from the report.\<close>

definition json_nat :: "json option \<Rightarrow> nat" where
  "json_nat j = (case j of Some (JNum n) \<Rightarrow> n | _ \<Rightarrow> 0)"

definition read_upstream :: "json \<Rightarrow> origin_state" where
  "read_upstream j = \<lparr>ewma_latency_ns = of_nat (json_nat (json_member j ''ewma_latency_ns'')),
     consecutive_successes = of_nat (json_nat (json_member j ''consecutive_successes'')),
     consecutive_failures = of_nat (json_nat (json_member j ''consecutive_failures'')),
     total_requests = of_nat (json_nat (json_member j ''total_requests'')),
     total_failures = of_nat (json_nat (json_member j ''total_failures'')),
     healthy = (json_member j ''healthy'' = Some (JBool True))\<rparr>"

definition read_report :: "json \<Rightarrow> string \<Rightarrow> origin_state option" where
  "read_report j k =
     (case json_member j ''origins'' of None \<Rightarrow> None
      | Some origins \<Rightarrow> map_option read_upstream (json_member origins k))"

lemma read_upstream_json: "read_upstream (upstream_json os) = os"
  by (simp add: read_upstream_def upstream_json_def json_member_def json_nat_def store_gets)

lemma upstreams_json_member:
  assumes "store_ok m"
  shows "json_member (upstreams_json m) ''origins'' =
     Some (JObject (fold (\<lambda>(key, os) origins. store_insert key (upstream_json os) origins) m store_empty))"
    and "store_get (fold (\<lambda>(key, os) origins. store_insert key (upstream_json os) origins) m store_empty) k =
     map_option upstream_json (store_get m k)"
proof -
  show "json_member (upstreams_json m) ''origins'' =
     Some (JObject (fold (\<lambda>(key, os) origins. store_insert key (upstream_json os) origins) m store_empty))"
    by (simp add: json_member_def upstreams_json_def store_get_def)
  have "fold (\<lambda>(key, os) origins. store_insert key (upstream_json os) origins) m m0 =
      fold (\<lambda>(k, v). store_insert k v) (map (\<lambda>(k, os). (k, upstream_json os)) m) m0" for m0
    by (simp add: fold_map comp_def case_prod_unfold)
  moreover have "map_of (rev (map (\<lambda>(k, os). (k, upstream_json os)) m)) k =
      map_of (map (\<lambda>(k, os). (k, upstream_json os)) m) k"
    by (intro map_of_inject_set [THEN iffD2, THEN fun_cong])
       (use assms in \<open>simp_all add: store_ok_def comp_def case_prod_unfold flip: rev_map\<close>)
  ultimately show "store_get (fold (\<lambda>(key, os) origins. store_insert key (upstream_json os) origins) m store_empty) k =
     map_option upstream_json (store_get m k)"
    by (simp add: dm.get_fold_insert store_gets map_of_map store_get_def [of m] split: option.splits)
qed

text \<open>
  C27. The upstreams report is complete and exact: a reader of the JSON rebuilds the state of
  every origin, counters and flag, and finds no origin that is not registered.
\<close>

theorem upstreams_report_roundtrip:
  assumes "app_ok U s"
  shows "read_report (upstreams_json (origin_states s)) k = store_get (origin_states s) k"
proof -
  have ok: "store_ok (origin_states s)" using assms by (simp add: app_ok_def)
  show ?thesis
    unfolding read_report_def upstreams_json_member(1) [OF ok]
    by (simp add: json_member_def upstreams_json_member(2) [OF ok] option.map_comp comp_def
        read_upstream_json option.map_ident)
qed

section \<open>Witnesses\<close>

definition sample_checked_app :: "string app_state" where
  "sample_checked_app = app_new sample_urls (\<lambda>_. None) (sample_config [sample_route None None [''http://a/api'']])"

definition sample_checker :: checker where
  "sample_checker = \<lparr>targets = [(''http://a/api'', ''/'')], ck_healthy_threshold = 2, ck_unhealthy_threshold = 3,
     ck_interval = from_secs 10, ck_timeout = from_secs 5\<rparr>"

lemma active_checks_judge_by_history_witness:
  "\<exists>os. store_get (origin_states (snd (check_loop (\<lambda>_. True)
     [\<lambda>_ _. CheckTimeout, \<lambda>_ _. CheckError, \<lambda>_ _. CheckResponse 404] sample_checker sample_checked_app)))
     ''http://a/api'' = Some os \<and> (healthy os \<longleftrightarrow> up_spec 2 3 [False, False, False])"
proof -
  have a: "list_all (\<lambda>t. (\<lambda>_. True) (check_url t)) (targets sample_checker)"
    by (simp add: sample_checker_def)
  have b: "store_get (origin_states sample_checked_app) ''http://a/api'' = Some new_origin_state"
    by (simp add: sample_checked_app_def app_new_def register_origins_get store_gets config_urls_def
        sample_config_def sample_route_def sample_origin_def)
  have c: "[False, False, False] = concat (map (\<lambda>probe. tick_outcomes probe 0 (targets sample_checker) ''http://a/api'')
     [\<lambda>_ _. CheckTimeout, \<lambda>_ _. CheckError, \<lambda>_ _. CheckResponse 404])"
    by (simp add: sample_checker_def check_outcome_def is_success_def)
  from active_checks_judge_by_history [OF a b c] show ?thesis by (simp add: sample_checker_def)
qed

lemma passing_checks_restore_witness:
  "\<exists>os'. store_get (origin_states (snd (check_loop (\<lambda>_. True) [\<lambda>_ _. CheckResponse 200, \<lambda>_ _. CheckResponse 204] sample_checker
     (sample_checked_app\<lparr>origin_states := [(''http://a/api'', new_origin_state\<lparr>healthy := False\<rparr>)]\<rparr>))))
     ''http://a/api'' = Some os' \<and> healthy os'"
  by (rule passing_checks_restore [where os = "new_origin_state\<lparr>healthy := False\<rparr>" and outcomes = "[True, True]"])
     (simp_all add: sample_checker_def store_get_def check_outcome_def is_success_def new_origin_state_def)

definition sample_slash_app :: "string app_state" where
  "sample_slash_app = app_new sample_urls (\<lambda>_. None) (sample_config [sample_route None None [''http://a/'']])"

lemma active_checks_never_apply_witness:
  "snd (run_active_checks sample_urls (\<lambda>_. True) (replicate 100 (\<lambda>_ _. CheckTimeout)) sample_slash_app) = sample_slash_app \<and>
   check_targets sample_urls (config sample_slash_app) = [(''http://a'', ''/'')]"
proof
  have "slash_keys (origin_states sample_slash_app)"
    by (simp add: slash_keys_def sample_slash_app_def app_new_def register_origins_def config_urls_def store_or_insert_def
        store_empty_def sample_config_def sample_route_def sample_origin_def)
  then show "snd (run_active_checks sample_urls (\<lambda>_. True) (replicate 100 (\<lambda>_ _. CheckTimeout)) sample_slash_app)
      = sample_slash_app"
    by (rule active_checks_never_apply)
  show "check_targets sample_urls (config sample_slash_app) = [(''http://a'', ''/'')]"
    by (simp add: check_targets_def check_target_of_def sample_slash_app_def app_new_def sample_config_def
        sample_route_def sample_origin_def trim_end_matches_def)
qed

lemma upstreams_report_roundtrip_witness:
  "read_report (upstreams_json (origin_states sample_slash_app)) ''http://a/'' = Some new_origin_state"
proof -
  have "app_ok sample_urls sample_slash_app" by (simp add: sample_slash_app_def app_new_ok)
  from upstreams_report_roundtrip [OF this] show ?thesis
    by (simp add: sample_slash_app_def app_new_def register_origins_get store_gets config_urls_def
        sample_config_def sample_route_def sample_origin_def)
qed

end
