(* ===== verification/System.thy ===== *)
theory System
  imports Reload Checker
begin

text \<open>
  The running proxy as a transition system: the tasks that \<open>src/src/bin/upstreamer/main.rs\<close>
  spawns and the requests in flight, interleaved in any order over the one shared state. A
  request is two steps, its admission and, after the wait for the origin, its bookkeeping;
  every other task advances by one pass of its loop body (the checker by one target).
\<close>

section \<open>The cleanup task\<close>

text \<open>One tick; \<open>clock\<close> gives the reading for each bucket, by limiter and address.\<close>

definition cleanup_limiters :: "(string option \<Rightarrow> ip_addr \<Rightarrow> instant) \<Rightarrow> 'u app_state \<Rightarrow> 'u app_state" where
  "cleanup_limiters clock s =
     s\<lparr>ratelimiter := map_option (cleanup_stale (clock None) (from_secs 300)) (ratelimiter s),
       route_ratelimiters := store_map (\<lambda>key. cleanup_stale (clock (Some key)) (from_secs 300))
                               (route_ratelimiters s)\<rparr>"

section \<open>States and steps\<close>

text \<open>
  \<open>inflight\<close>: the origins being waited for; \<open>sys_checker\<close>: the snapshot of the checker task, if it
  runs (a zero interval or a URI the builder rejects makes it panic, and it is gone); \<open>sys_k8s\<close>:
  the map of the discovery task.
\<close>

record 'u system =
  sys_app :: "'u app_state"
  inflight :: "'u origin_endpoint list"
  sys_checker :: "checker option"
  sys_k8s :: "(string, 'u list) store"

definition start :: "'u url_ops \<Rightarrow> (string \<Rightarrow> bytes option) \<Rightarrow> 'u proxy_config \<Rightarrow> 'u system" where
  "start U read_file c = \<lparr>sys_app = app_new U read_file c, inflight = [],
     sys_checker = (case checker_start U (app_new U read_file c) of None \<Rightarrow> None
                    | Some ck \<Rightarrow> if ck_interval ck = 0 then None else Some ck), sys_k8s = store_empty\<rparr>"

inductive step :: "'u url_ops \<Rightarrow> http_ops \<Rightarrow> 'u system \<Rightarrow> 'u system \<Rightarrow> bool" for U H where
  refuse: "rng_ok g \<Longrightarrow> admit U H clock g ip req (sys_app S) = (Respond r, s') \<Longrightarrow>
     step U H S (S\<lparr>sys_app := s'\<rparr>)"
| forward: "rng_ok g \<Longrightarrow> admit U H clock g ip req (sys_app S) = (Forward og, s') \<Longrightarrow>
     step U H S (S\<lparr>sys_app := s', inflight := og # inflight S\<rparr>)"
| complete: "og \<in> set (inflight S) \<Longrightarrow>
     step U H S (S\<lparr>sys_app := finish_request latency (url_key og) result (sys_app S),
                   inflight := remove1 og (inflight S)\<rparr>)"
| abandon: "og \<in> set (inflight S) \<Longrightarrow> step U H S (S\<lparr>inflight := remove1 og (inflight S)\<rparr>)"
| check: "sys_checker S = Some ck \<Longrightarrow> (base, path) \<in> set (targets ck) \<Longrightarrow>
     builder_ok H (check_url (base, path)) [] \<Longrightarrow>
     step U H S (S\<lparr>sys_app := check_target ck base result (sys_app S)\<rparr>)"
| checker_panic: "sys_checker S = Some ck \<Longrightarrow> t \<in> set (targets ck) \<Longrightarrow>
     \<not> builder_ok H (check_url t) [] \<Longrightarrow> step U H S (S\<lparr>sys_checker := None\<rparr>)"
| discover: "discovery_event U e (sys_k8s S, sys_app S) = (m', s') \<Longrightarrow>
     step U H S (S\<lparr>sys_app := s', sys_k8s := m'\<rparr>)"
| reloaded: "step U H S (S\<lparr>sys_app := reload U read from_str path_exists config_path (sys_app S)\<rparr>)"
| cleanup: "step U H S (S\<lparr>sys_app := cleanup_limiters clock (sys_app S)\<rparr>)"

inductive_cases stepE [consumes 1, case_names refuse forward complete abandon check checker_panic discover reloaded cleanup]:
  "step U H S S'"

abbreviation steps :: "'u url_ops \<Rightarrow> http_ops \<Rightarrow> 'u system \<Rightarrow> 'u system \<Rightarrow> bool" where
  "steps U H \<equiv> rtranclp (step U H)"

section \<open>The invariant\<close>

definition sys_ok :: "'u url_ops \<Rightarrow> 'u system \<Rightarrow> bool" where
  "sys_ok U S \<longleftrightarrow> app_ok U (sys_app S) \<and>
     list_all (\<lambda>og. endpoint_ok U og \<and> store_get (origin_states (sys_app S)) (url_key og) \<noteq> None) (inflight S) \<and>
     (case sys_checker S of None \<Rightarrow> True
      | Some ck \<Rightarrow> list_all (\<lambda>t. fst t = [] \<or> last (fst t) \<noteq> CHR ''/'') (targets ck))"

lemma cleanup_limiters_ok:
  assumes "app_ok U s"
  shows "app_ok U (cleanup_limiters clock s)"
  using assms
  by (auto simp: app_ok_def cleanup_limiters_def limiters_ok_def store_map_get store_map_ok
      intro: cleanup_stale_ok split: option.splits)

lemma cleanup_limiters_fields [proj_simps]:
  "origin_states (cleanup_limiters clock s) = origin_states s"
  "router (cleanup_limiters clock s) = router s" "config (cleanup_limiters clock s) = config s"
  by (simp_all add: cleanup_limiters_def)

lemma start_ok: "sys_ok U (start U read_file c)"
proof -
  have "fst t = [] \<or> last (fst t) \<noteq> CHR ''/''" if "t \<in> set (check_targets U c)" for t
    using check_targets_trimmed [OF that] trim_end_matches_last by fastforce
  then have "list_all (\<lambda>t. fst t = [] \<or> last (fst t) \<noteq> CHR ''/'') (check_targets U c)"
    unfolding list_all_iff by blast
  moreover have "config (app_new U read_file c) = c" by (simp add: app_new_def)
  ultimately show ?thesis using app_new_ok [of U read_file c]
    by (simp add: sys_ok_def start_def checker_start_def Let_def)
qed

text \<open>No step ever forgets the record of an origin.\<close>

lemma admit_Forward_state:
  assumes "app_ok U s" and "rng_ok g" and "admit U H clock g ip req s = (Forward og, s')"
  shows "endpoint_ok U og \<and> (\<exists>os. store_get (origin_states s) (url_key og) = Some os \<and> healthy os)"
proof -
  from admit_Forward [OF assms] obtain k os where
    m: "match_route (router s) (request_host H req) (rq_path req) = Some k"
    "og \<in> set (re_candidates (entries (router s) ! k))"
    and os: "store_get (origin_states s) (url_key og) = Some os" "healthy os" by blast
  from app_ok_candidate [OF assms(1) m] os show ?thesis by blast
qed

lemma discovery_event_get:
  "store_get (origin_states s) k = Some os \<Longrightarrow> discovery_event U e (m, s) = (m', s') \<Longrightarrow>
     store_get (origin_states s') k = Some os"
  by (auto simp: discovery_event_eq rebuild_router_origin_states split: option.splits)

lemma step_dom:
  assumes "step U H S S'"
  shows "dom (store_get (origin_states (sys_app S))) \<subseteq> dom (store_get (origin_states (sys_app S')))"
  using assms
proof (cases rule: stepE)
  case (refuse g clock ip req r s')
  with admit_fields(1) [of U H clock g ip req "sys_app S"] show ?thesis by simp
next
  case (forward g clock ip req og s')
  with admit_fields(1) [of U H clock g ip req "sys_app S"] show ?thesis by simp
next
  case (discover e m' s')
  then show ?thesis using discovery_event_get [of "sys_app S" _ _ U e "sys_k8s S" m' s'] by fastforce
next
  case (reloaded read from_str path_exists config_path)
  then show ?thesis using reload_get [of "sys_app S"] by fastforce
qed (simp_all add: finish_request_dom check_target_dom proj_simps)

lemma step_ok:
  assumes "step U H S S'" and ok: "sys_ok U S"
  shows "sys_ok U S'"
proof -
  have app: "app_ok U (sys_app S)" using ok by (simp add: sys_ok_def)
  have fl: "list_all (\<lambda>og. endpoint_ok U og \<and> store_get (origin_states (sys_app S')) (url_key og) \<noteq> None) (inflight S)"
    using ok step_dom [OF assms(1)] by (fastforce simp: sys_ok_def list_all_iff)
  then have rm: "list_all (\<lambda>og. endpoint_ok U og \<and> store_get (origin_states (sys_app S')) (url_key og) \<noteq> None)
      (remove1 x (inflight S))" for x
    by (auto simp: list_all_iff dest: notin_set_remove1)
  from assms(1) show ?thesis
  proof (cases rule: stepE)
    case (refuse g clock ip req r s')
    with ok fl admit_ok [OF app, of H clock g ip req] show ?thesis by (simp add: sys_ok_def)
  next
    case (forward g clock ip req og s')
    with ok fl admit_ok [OF app, of H clock g ip req] admit_Forward_state [OF app forward(2,3)]
      admit_fields(1) [of U H clock g ip req "sys_app S"]
    show ?thesis by (auto simp: sys_ok_def)
  next
    case (discover e m' s')
    with ok fl discovery_event_ok [of U "(sys_k8s S, sys_app S)" e] app show ?thesis by (simp add: sys_ok_def)
  qed (use ok fl rm app in \<open>simp_all add: sys_ok_def finish_request_ok check_target_ok reload_ok cleanup_limiters_ok\<close>)
qed

lemma steps_ok: "steps U H S S' \<Longrightarrow> sys_ok U S \<Longrightarrow> sys_ok U S'"
  by (induction rule: rtranclp_induct) (auto intro: step_ok)

text \<open>
  Whatever the interleaving of requests, health checks, discovery, reloads and cleanups, the
  running proxy stays well formed, and every request in flight will find the record of its
  origin when it completes, even if its route has been reloaded away.
\<close>

theorem running_proxy_stays_ok:
  assumes "steps U H (start U read_file c) S"
  shows "app_ok U (sys_app S) \<and>
    list_all (\<lambda>og. store_get (origin_states (sys_app S)) (url_key og) \<noteq> None) (inflight S)"
  using steps_ok [OF assms start_ok] by (auto simp: sys_ok_def list_all_iff)

text \<open>
  In every reachable state, whatever has been reloaded or discovered on the way, a request
  is only ever forwarded to an origin that is registered and healthy at that moment.
\<close>

theorem reachable_forward_is_healthy:
  assumes "steps U H (start U read_file c) S" and "rng_ok g"
    and "admit U H clock g ip req (sys_app S) = (Forward og, s')"
  shows "\<exists>os. store_get (origin_states (sys_app S)) (url_key og) = Some os \<and> healthy os"
proof -
  have "app_ok U (sys_app S)" using steps_ok [OF assms(1) start_ok] by (simp add: sys_ok_def)
  from admit_Forward_state [OF this assms(2,3)] show ?thesis by simp
qed

section \<open>An origin that is down stays down\<close>

definition is_dead :: "string \<Rightarrow> 'u system \<Rightarrow> bool" where
  "is_dead k S \<longleftrightarrow>
     (case store_get (origin_states (sys_app S)) k of None \<Rightarrow> False | Some os \<Rightarrow> \<not> healthy os) \<and>
     list_all (\<lambda>og. url_key og \<noteq> k) (inflight S)"

lemma is_dead_get:
  "is_dead k S \<longleftrightarrow> (\<exists>os. store_get (origin_states (sys_app S)) k = Some os \<and> \<not> healthy os) \<and>
     list_all (\<lambda>og. url_key og \<noteq> k) (inflight S)"
  by (auto simp: is_dead_def split: option.splits)

lemma step_dead:
  assumes "step U H S S'" and ok: "sys_ok U S" and dead: "is_dead k S"
    and slash: "k \<noteq> []" "last k = CHR ''/''"
  shows "is_dead k S'"
proof -
  have app: "app_ok U (sys_app S)" using ok by (simp add: sys_ok_def)
  obtain os where os: "store_get (origin_states (sys_app S)) k = Some os" "\<not> healthy os"
    and fl: "list_all (\<lambda>og. url_key og \<noteq> k) (inflight S)"
    using dead by (auto simp: is_dead_get)
  have rm: "list_all (\<lambda>og. url_key og \<noteq> k) (remove1 x (inflight S))" for x
    using fl by (auto simp: list_all_iff dest: notin_set_remove1)
  from assms(1) show ?thesis
  proof (cases rule: stepE)
    case (refuse g clock ip req r s')
    with os fl admit_fields(1) [of U H clock g ip req "sys_app S"] show ?thesis by (simp add: is_dead_get)
  next
    case (forward g clock ip req og s')
    with os fl admit_fields(1) [of U H clock g ip req "sys_app S"] admit_Forward_state [OF app forward(2,3)]
    show ?thesis by (auto simp: is_dead_get)
  next
    case (complete og latency result)
    then have "url_key og \<noteq> k" using fl by (auto simp: list_all_iff)
    with complete os rm show ?thesis by (simp add: is_dead_get finish_request_get)
  next
    case (check ck base path result)
    then have "base = [] \<or> last base \<noteq> CHR ''/''" using ok by (fastforce simp: sys_ok_def list_all_iff)
    with slash have "base \<noteq> k" by auto
    with check os fl show ?thesis by (simp add: is_dead_get check_target_get)
  next
    case (discover e m' s')
    with os fl discovery_event_get [OF os(1), of U e "sys_k8s S" m' s'] show ?thesis by (simp add: is_dead_get)
  next
    case (reloaded read from_str path_exists config_path)
    with os fl reload_get [OF os(1)] show ?thesis by (simp add: is_dead_get)
  qed (use os fl rm in \<open>simp_all add: is_dead_get cleanup_limiters_fields\<close>)
qed

text \<open>
  An origin whose key ends in a slash and that is unhealthy with no request in flight is out
  of service for good: no health check, discovery, reload or other request ever brings it
  back, and it is never sent a request again until the process is restarted.
\<close>

theorem unhealthy_origin_never_recovers:
  assumes "steps U H (start U read_file c) S" and "is_dead k S" and "k \<noteq> []" and "last k = CHR ''/''"
    and "steps U H S S'"
  shows "is_dead k S'"
  using assms(5)
proof (induction rule: rtranclp_induct)
  case (step S1 S2)
  have "sys_ok U S1" by (rule steps_ok [OF step(1) steps_ok [OF assms(1) start_ok]])
  from step_dead [OF step(2) this step(3) assms(3,4)] show ?case .
qed (rule assms(2))

section \<open>Witnesses\<close>

definition sample_start :: "string system" where
  "sample_start = start sample_urls (\<lambda>_. None) (sample_config [sample_route None None [''http://a/'']])"

lemma sample_start_app: "sys_app sample_start = sample_app"
  by (simp add: sample_start_def start_def sample_app_def)

text \<open>A run that reaches a state with the origin down: five requests that the origin fails.\<close>

definition fail_once :: "string app_state \<Rightarrow> string app_state" where
  "fail_once s = finish_request 0 ''http://a/'' (Inl (ClientError ''refused'')) s"

lemma one_origin_fail:
  "fail_once (one_origin c os) = one_origin c (record_failure_with_threshold 5 (record_latency 0 (increment_requests os)))"
  using one_origin_finish [of 0 "Inl (ClientError ''refused'')" c os]
  by (simp add: fail_once_def sample_endpoint_a_def route_simps record_outcome_eq outcome_failed_def failure_limit_def)
     (simp add: one_origin_def)

definition at_app :: "string app_state \<Rightarrow> string system" where
  "at_app s = sample_start\<lparr>sys_app := s, inflight := []\<rparr>"

lemma sample_start_at: "sample_start = at_app (one_origin 0 new_origin_state)"
proof -
  have "inflight sample_start = []" by (simp add: sample_start_def start_def)
  then show ?thesis using sample_start_app
    by (cases sample_start) (simp add: at_app_def sample_app_one_origin)
qed

lemma one_origin_round:
  assumes "healthy os"
  shows "steps sample_urls H (at_app (one_origin c os)) (at_app (fail_once (one_origin (c + 1) os)))"
proof -
  define S1 where "S1 = (at_app (one_origin (c + 1) os))\<lparr>inflight := [sample_endpoint_a]\<rparr>"
  have "admit sample_urls H (\<lambda>_. 0) sample_rng (IpV4 7) sample_get (sys_app (at_app (one_origin c os)))
      = (Forward sample_endpoint_a, one_origin (c + 1) os)"
    using assms by (simp add: one_origin_admit at_app_def)
  from step.forward [OF sample_rng_ok this] have one: "step sample_urls H (at_app (one_origin c os)) S1"
    by (simp add: S1_def at_app_def)
  have "url_key sample_endpoint_a = ''http://a/''" by (simp add: sample_endpoint_a_def route_simps)
  with step.complete [of sample_endpoint_a S1 sample_urls H 0 "Inl (ClientError ''refused'')"]
  have "step sample_urls H S1 (at_app (fail_once (one_origin (c + 1) os)))"
    by (simp add: S1_def fail_once_def at_app_def)
  with one show ?thesis by (meson r_into_rtranclp rtranclp.rtrancl_into_rtrancl)
qed

definition failed_times :: "nat \<Rightarrow> origin_state" where
  "failed_times n = ((\<lambda>os. record_failure_with_threshold 5 (record_latency 0 (increment_requests os))) ^^ n) new_origin_state"

lemma failed_times_fields:
  "consecutive_failures (failed_times n) = of_nat n"
  "n < 5 \<Longrightarrow> healthy (failed_times n)"
  "\<not> healthy (failed_times 5)"
proof -
  show f: "consecutive_failures (failed_times n) = of_nat n" for n
    by (induction n) (simp_all add: failed_times_def new_origin_state_def health_simps)
  have Suc: "healthy (failed_times (Suc n)) \<longleftrightarrow> healthy (failed_times n) \<and> \<not> 5 \<le> (of_nat n + 1 :: u32)" for n
    using f [of n] by (simp add: failed_times_def health_simps)
  have "\<not> 5 \<le> (of_nat n + 1 :: u32)" if "n < 4" for n
    using that by (simp add: word_le_nat_alt unat_word_ariths unat_of_nat)
  then show "n < 5 \<Longrightarrow> healthy (failed_times n)"
    by (induction n) (simp_all add: Suc, simp add: failed_times_def new_origin_state_def)
  show "\<not> healthy (failed_times 5)"
    using Suc [of 4] by (simp add: eval_nat_numeral)
qed

lemma sample_run: "n \<le> 5 \<Longrightarrow> steps sample_urls H sample_start (at_app (one_origin (of_nat n) (failed_times n)))"
proof (induction n)
  case 0
  then show ?case by (simp add: sample_start_at failed_times_def)
next
  case (Suc n)
  then have "healthy (failed_times n)" by (simp add: failed_times_fields)
  from one_origin_round [OF this, of H "of_nat n"]
  have "steps sample_urls H (at_app (one_origin (of_nat n) (failed_times n)))
      (at_app (one_origin (of_nat (Suc n)) (failed_times (Suc n))))"
    by (simp add: one_origin_fail failed_times_def add.commute)
  with Suc show ?case by (meson Suc_leD rtranclp_trans)
qed

lemma sample_run_dead: "is_dead ''http://a/'' (at_app (one_origin 5 (failed_times 5)))"
  by (simp add: is_dead_get at_app_def one_origin_def store_get_def failed_times_fields)

lemma running_proxy_stays_ok_witness:
  "app_ok sample_urls (sys_app (at_app (one_origin 5 (failed_times 5))))"
  using running_proxy_stays_ok [OF sample_run [of 5, unfolded sample_start_def]] by simp

lemma reachable_forward_is_healthy_witness:
  "\<exists>os. store_get (origin_states (sys_app sample_start)) ''http://a/'' = Some os \<and> healthy os"
proof -
  have "admit sample_urls sample_http (\<lambda>_. 0) sample_rng (IpV4 7) sample_get (sys_app sample_start)
      = (Forward sample_endpoint_a, one_origin 1 new_origin_state)"
    by (simp add: sample_start_app sample_app_admit)
  from reachable_forward_is_healthy [OF _ sample_rng_ok this, of "\<lambda>_. None" "sample_config [sample_route None None [''http://a/'']]"]
  show ?thesis by (simp add: sample_start_def sample_endpoint_a_def route_simps)
qed

lemma unhealthy_origin_never_recovers_witness:
  "is_dead ''http://a/'' ((at_app (one_origin 5 (failed_times 5)))
     \<lparr>sys_app := cleanup_limiters (\<lambda>_ _. 0) (one_origin 5 (failed_times 5))\<rparr>)"
proof -
  have "step sample_urls sample_http (at_app (one_origin 5 (failed_times 5))) ((at_app (one_origin 5 (failed_times 5)))
     \<lparr>sys_app := cleanup_limiters (\<lambda>_ _. 0) (one_origin 5 (failed_times 5))\<rparr>)"
    using step.cleanup [of sample_urls sample_http "at_app (one_origin 5 (failed_times 5))" "\<lambda>_ _. 0"]
    by (simp add: at_app_def)
  then have after: "steps sample_urls sample_http (at_app (one_origin 5 (failed_times 5))) ((at_app (one_origin 5 (failed_times 5)))
     \<lparr>sys_app := cleanup_limiters (\<lambda>_ _. 0) (one_origin 5 (failed_times 5))\<rparr>)" ..
  have run: "steps sample_urls sample_http (start sample_urls (\<lambda>_. None) (sample_config [sample_route None None [''http://a/'']]))
      (at_app (one_origin 5 (failed_times 5)))"
    using sample_run [of 5 sample_http] by (simp add: sample_start_def)
  show ?thesis by (rule unhealthy_origin_never_recovers [OF run sample_run_dead _ _ after]) simp_all
qed

end
