(* ===== verification/Concurrent.thy ===== *)
theory Concurrent
  imports System
begin

text \<open>
  The running proxy with its tasks interleaved store by store. A reload and a rebuild are
  programs of single stores into the shared state, and requests, checks and the other task may
  run between any two of them. The coarse system of theory \<open>System\<close> is the special case in
  which they are never interrupted; what holds here holds of every schedule of the tasks.
\<close>

section \<open>Programs of single stores\<close>

datatype 'u store_op =
    InstallRouter "'u router"
  | ClearLimiters
  | InsertLimiter string rate_limiter
  | AddOrigin string
  | StoreEnabled bool
  | StoreFailureThreshold u32
  | StoreSuccessThreshold u32
  | InstallConfig "'u proxy_config"

fun exec :: "'u store_op \<Rightarrow> 'u app_state \<Rightarrow> 'u app_state" where
  "exec (InstallRouter R) s = s\<lparr>router := R\<rparr>"
| "exec ClearLimiters s = s\<lparr>route_ratelimiters := store_empty\<rparr>"
| "exec (InsertLimiter key l) s = s\<lparr>route_ratelimiters := store_insert key l (route_ratelimiters s)\<rparr>"
| "exec (AddOrigin key) s = s\<lparr>origin_states := store_or_insert new_origin_state key (origin_states s)\<rparr>"
| "exec (StoreEnabled b) s = s\<lparr>passive_enabled := b\<rparr>"
| "exec (StoreFailureThreshold n) s = s\<lparr>passive_failure_threshold := n\<rparr>"
| "exec (StoreSuccessThreshold n) s = s\<lparr>passive_success_threshold := n\<rparr>"
| "exec (InstallConfig c) s = s\<lparr>config := c\<rparr>"

abbreviation run_ops :: "'u store_op list \<Rightarrow> 'u app_state \<Rightarrow> 'u app_state" where
  "run_ops ops s \<equiv> fold exec ops s"

definition reload_program :: "'u url_ops \<Rightarrow> 'u proxy_config \<Rightarrow> 'u store_op list" where
  "reload_program U c =
     [InstallRouter (from_config U c), ClearLimiters] @
     map (\<lambda>(key, l). InsertLimiter key l) (route_limiters (routes c)) @
     map (\<lambda>url. AddOrigin (url_to_string U url)) (config_urls c) @
     [StoreEnabled (ph_enabled (hc_passive (health c))),
      StoreFailureThreshold (failure_threshold (hc_passive (health c))),
      StoreSuccessThreshold (success_threshold (hc_passive (health c))),
      InstallConfig c]"

text \<open>The configuration is loaded and the router built before the first store.\<close>

definition rebuild_program ::
  "'u url_ops \<Rightarrow> 'u proxy_config \<Rightarrow> (string, 'u list) store \<Rightarrow> 'u store_op list" where
  "rebuild_program U c m =
     InstallRouter (from_config_with_k8s U c m) # map (\<lambda>url. AddOrigin (url_to_string U url)) (k8s_urls m)"

section \<open>Uninterrupted, the programs are the operations\<close>

lemma run_inserts:
  "run_ops (map (\<lambda>(key, l). InsertLimiter key l) kls) s =
     s\<lparr>route_ratelimiters := fold (\<lambda>(key, l). store_insert key l) kls (route_ratelimiters s)\<rparr>"
  by (induction kls arbitrary: s) auto

lemma run_adds:
  "run_ops (map (\<lambda>url. AddOrigin (url_to_string U url)) urls) s =
     s\<lparr>origin_states := register_origins U urls (origin_states s)\<rparr>"
  by (induction urls arbitrary: s) (auto simp: register_origins_def)

lemma run_reload_program: "run_ops (reload_program U c) s = apply_config U c s"
  by (simp add: reload_program_def run_inserts run_adds apply_config_def reload_steps_def reload_step_defs
      install_route_limiters_def)

lemma run_rebuild_program: "run_ops (rebuild_program U (config s) m) s = rebuild_router U m s"
  by (simp add: rebuild_program_def run_adds rebuild_router_def register_k8s_origins_def swap_k8s_router_def)

text \<open>
  Uninterrupted, the programs of single stores are the operations: a reload run to its end
  is \<open>apply_config\<close>, and a rebuild begun on the current configuration is \<open>rebuild_router\<close>.
\<close>

theorem programs_refine_operations:
  "fold exec (reload_program U c) s = apply_config U c s \<and>
   fold exec (rebuild_program U (config s) m) s = rebuild_router U m s"
  by (simp add: run_reload_program run_rebuild_program)

section \<open>The fine-grained system\<close>

text \<open>
  \<open>cc_reload\<close> and \<open>cc_rebuild\<close>: the stores the two tasks still have to make; \<open>cc_watching\<close>: the
  discovery task was spawned.
\<close>

record 'u concurrent =
  cc_app :: "'u app_state"
  cc_inflight :: "'u origin_endpoint list"
  cc_checker :: "checker option"
  cc_watching :: bool
  cc_k8s :: "(string, 'u list) store"
  cc_reload :: "'u store_op list"
  cc_rebuild :: "'u store_op list"

definition cc_start :: "'u url_ops \<Rightarrow> (string \<Rightarrow> bytes option) \<Rightarrow> 'u proxy_config \<Rightarrow> 'u concurrent" where
  "cc_start U read_file c = \<lparr>cc_app = app_new U read_file c, cc_inflight = [],
     cc_checker = sys_checker (start U read_file c),
     cc_watching = (kubernetes c \<noteq> None), cc_k8s = store_empty, cc_reload = [], cc_rebuild = []\<rparr>"

inductive cstep :: "'u url_ops \<Rightarrow> http_ops \<Rightarrow> 'u concurrent \<Rightarrow> 'u concurrent \<Rightarrow> bool" for U H where
  cc_refuse: "rng_ok g \<Longrightarrow> admit U H clock g ip req (cc_app S) = (Respond r, s') \<Longrightarrow>
     cstep U H S (S\<lparr>cc_app := s'\<rparr>)"
| cc_forward: "rng_ok g \<Longrightarrow> admit U H clock g ip req (cc_app S) = (Forward og, s') \<Longrightarrow>
     cstep U H S (S\<lparr>cc_app := s', cc_inflight := og # cc_inflight S\<rparr>)"
| cc_complete: "og \<in> set (cc_inflight S) \<Longrightarrow>
     cstep U H S (S\<lparr>cc_app := finish_request latency (url_key og) result (cc_app S),
                    cc_inflight := remove1 og (cc_inflight S)\<rparr>)"
| cc_abandon: "og \<in> set (cc_inflight S) \<Longrightarrow> cstep U H S (S\<lparr>cc_inflight := remove1 og (cc_inflight S)\<rparr>)"
| cc_check: "cc_checker S = Some ck \<Longrightarrow> (base, path) \<in> set (targets ck) \<Longrightarrow>
     builder_ok H (check_url (base, path)) [] \<Longrightarrow>
     cstep U H S (S\<lparr>cc_app := check_target ck base result (cc_app S)\<rparr>)"
| cc_panic: "cc_checker S = Some ck \<Longrightarrow> t \<in> set (targets ck) \<Longrightarrow> \<not> builder_ok H (check_url t) [] \<Longrightarrow>
     cstep U H S (S\<lparr>cc_checker := None\<rparr>)"
| cc_discover: "cc_watching S \<Longrightarrow> cc_rebuild S = [] \<Longrightarrow> event_origin U e = Some (pool, url) \<Longrightarrow>
     m' = replace_pool pool url (cc_k8s S) \<Longrightarrow>
     cstep U H S (S\<lparr>cc_k8s := m', cc_rebuild := rebuild_program U (config (cc_app S)) m'\<rparr>)"
| cc_rebuild_op: "cc_rebuild S = p # ops \<Longrightarrow> cstep U H S (S\<lparr>cc_app := exec p (cc_app S), cc_rebuild := ops\<rparr>)"
| cc_load: "cc_reload S = [] \<Longrightarrow> load read from_str config_path = Inr c \<Longrightarrow> validate U path_exists c = Inr () \<Longrightarrow>
     cstep U H S (S\<lparr>cc_reload := reload_program U c\<rparr>)"
| cc_reload_op: "cc_reload S = p # ops \<Longrightarrow> cstep U H S (S\<lparr>cc_app := exec p (cc_app S), cc_reload := ops\<rparr>)"
| cc_cleanup: "cstep U H S (S\<lparr>cc_app := cleanup_limiters clock (cc_app S)\<rparr>)"

inductive_cases cstepE [consumes 1, case_names refuse forward complete abandon check panic discover rebuild_op
    load reload_op cleanup]:
  "cstep U H S S'"

abbreviation csteps :: "'u url_ops \<Rightarrow> http_ops \<Rightarrow> 'u concurrent \<Rightarrow> 'u concurrent \<Rightarrow> bool" where
  "csteps U H \<equiv> rtranclp (cstep U H)"

section \<open>The invariant of every intermediate state\<close>

text \<open>The candidates of a router are well formed and their keys lie in a set.\<close>

definition covered :: "'u url_ops \<Rightarrow> string set \<Rightarrow> 'u router \<Rightarrow> bool" where
  "covered U K R \<longleftrightarrow> list_all (\<lambda>e. list_all (\<lambda>og. endpoint_ok U og \<and> url_key og \<in> K) (re_candidates e)) (entries R)"

fun added_by :: "'u store_op \<Rightarrow> string set" where
  "added_by (AddOrigin key) = {key}"
| "added_by _ = {}"

definition added :: "'u store_op list \<Rightarrow> string set" where
  "added ops = (\<Union>p \<in> set ops. added_by p)"

definition config_keys :: "'u url_ops \<Rightarrow> 'u proxy_config \<Rightarrow> string set" where
  "config_keys U c = url_to_string U ` set (config_urls c)"

text \<open>
  What a task may still store, given the keys \<open>D\<close> that have a record: a router whose keys have a
  record or will get one from the same task, only well-formed limiters, and a configuration
  only once its origins have records.
\<close>

fun ops_ok :: "'u url_ops \<Rightarrow> string set \<Rightarrow> 'u store_op list \<Rightarrow> bool" where
  "ops_ok U D [] \<longleftrightarrow> True"
| "ops_ok U D (p # ops) \<longleftrightarrow>
     (case p of InstallRouter R \<Rightarrow> covered U (D \<union> added ops) R
      | InsertLimiter key l \<Rightarrow> limiter_ok l
      | InstallConfig c \<Rightarrow> config_keys U c \<subseteq> D
      | _ \<Rightarrow> True) \<and>
     ops_ok U (D \<union> added_by p) ops"

definition known :: "'u concurrent \<Rightarrow> string set" where
  "known S = dom (store_get (origin_states (cc_app S)))"

definition cc_ok :: "'u url_ops \<Rightarrow> 'u concurrent \<Rightarrow> bool" where
  "cc_ok U S \<longleftrightarrow> store_ok (origin_states (cc_app S)) \<and> limiters_ok (route_ratelimiters (cc_app S)) \<and>
     (case ratelimiter (cc_app S) of None \<Rightarrow> True | Some l \<Rightarrow> limiter_ok l) \<and>
     config_keys U (config (cc_app S)) \<subseteq> known S \<and>
     covered U (known S \<union> added (cc_reload S) \<union> added (cc_rebuild S)) (router (cc_app S)) \<and>
     ops_ok U (known S) (cc_reload S) \<and> ops_ok U (known S) (cc_rebuild S) \<and>
     list_all (endpoint_ok U) (cc_inflight S) \<and>
     (case cc_checker S of None \<Rightarrow> True
      | Some ck \<Rightarrow> list_all (\<lambda>t. fst t = [] \<or> last (fst t) \<noteq> CHR ''/'') (targets ck))"

lemma added_simps [simp]: "added [] = {}" "added (p # ops) = added_by p \<union> added ops"
  "added (ops @ ops') = added ops \<union> added ops'"
  by (auto simp: added_def)

lemma added_AddOrigin: "added (map (\<lambda>url. AddOrigin (f url)) urls) = f ` set urls"
  by (auto simp: added_def)

lemma covered_mono: "covered U K R \<Longrightarrow> K \<subseteq> K' \<Longrightarrow> covered U K' R"
  by (fastforce simp: covered_def list_all_iff)

lemma covered_router_ok: "covered U (dom (store_get m)) R \<longleftrightarrow> router_ok U m R"
  by (auto simp: covered_def router_ok_def list_all_iff)

lemma ops_ok_mono: "ops_ok U D ops \<Longrightarrow> D \<subseteq> D' \<Longrightarrow> ops_ok U D' ops"
proof (induction ops arbitrary: D D')
  case (Cons p ops)
  then have "ops_ok U (D' \<union> added_by p) ops" by (meson Un_mono ops_ok.simps(2) order_refl)
  moreover have "D \<union> added ops \<subseteq> D' \<union> added ops" using Cons.prems(2) by blast
  ultimately show ?case using Cons.prems
    by (auto split: store_op.splits intro: covered_mono)
qed simp

lemma ops_ok_adds: "ops_ok U (D \<union> f ` set urls) ops \<Longrightarrow> ops_ok U D (map (\<lambda>url. AddOrigin (f url)) urls @ ops)"
  by (induction urls arbitrary: D) (auto simp: Un_commute Un_left_commute insert_commute)

lemma ops_ok_inserts:
  "ops_ok U D ops \<Longrightarrow> list_all (\<lambda>(key, l). limiter_ok l) kls \<Longrightarrow>
     ops_ok U D (map (\<lambda>(key, l). InsertLimiter key l) kls @ ops)"
  by (induction kls) auto

lemma ops_ok_reload_program: "ops_ok U D (reload_program U c)"
proof -
  have "covered U (D \<union> config_keys U c) (from_config U c)"
    using from_config_candidates [of _ U c]
    by (fastforce simp: covered_def list_all_iff endpoint_ok_def config_keys_def)
  moreover have "list_all (\<lambda>(key, l). limiter_ok l) (route_limiters (routes c))"
    using route_limiters_ok by (fastforce simp: list_all_iff)
  moreover have "ops_ok U D (map (\<lambda>url. AddOrigin (url_to_string U url)) (config_urls c) @
     [StoreEnabled (ph_enabled (hc_passive (health c))),
      StoreFailureThreshold (failure_threshold (hc_passive (health c))),
      StoreSuccessThreshold (success_threshold (hc_passive (health c))), InstallConfig c])"
    by (intro ops_ok_adds) (auto simp: config_keys_def)
  ultimately show ?thesis
    by (auto simp: reload_program_def added_AddOrigin config_keys_def intro: ops_ok_inserts elim: covered_mono)
qed

lemma ops_ok_rebuild_program:
  assumes "config_keys U c \<subseteq> D"
  shows "ops_ok U D (rebuild_program U c m)"
proof -
  have "covered U (D \<union> url_to_string U ` set (k8s_urls m)) (from_config_with_k8s U c m)"
    using from_config_with_k8s_candidates [of _ U c m] assms
    by (fastforce simp: covered_def list_all_iff endpoint_ok_def config_keys_def)
  moreover have "ops_ok U D (map (\<lambda>url. AddOrigin (url_to_string U url)) (k8s_urls m) @ [])"
    by (rule ops_ok_adds) simp
  ultimately show ?thesis by (simp add: rebuild_program_def added_AddOrigin)
qed

section \<open>The invariant is preserved\<close>

lemma admit_router:
  assumes "admit U H clock g ip req s = (v, s')"
  shows "map re_candidates (entries (router s')) = map re_candidates (entries (router s))"
proof (cases rule: admit_cases [of s H req U clock g ip])
  case (limited k s1)
  with assms check_limits_fields(1) [of clock ip "re_key (entries (router s) ! k)" s] show ?thesis by simp
next
  case (selected k s1 picked b s2)
  then have "s' = s2" using assms by (auto split: option.splits)
  with selected(4,5) match_route_index [OF selected(1)] show ?thesis
    by (simp add: set_balancer_entries map_update list_update_same_conv)
qed (use assms in simp)

lemma covered_candidates:
  "covered U K R \<longleftrightarrow> list_all (list_all (\<lambda>og. endpoint_ok U og \<and> url_key og \<in> K)) (map re_candidates (entries R))"
  by (auto simp: covered_def list_all_iff)

lemma admit_limiters:
  assumes "admit U H clock g ip req s = (v, s')" and "limiters_ok (route_ratelimiters s)"
    and "case ratelimiter s of None \<Rightarrow> True | Some l \<Rightarrow> limiter_ok l"
  shows "limiters_ok (route_ratelimiters s') \<and> (case ratelimiter s' of None \<Rightarrow> True | Some l \<Rightarrow> limiter_ok l)"
proof -
  have lim: "limiters_ok (route_ratelimiters (snd (check_limits clock ip key s))) \<and>
      (case ratelimiter (snd (check_limits clock ip key s)) of None \<Rightarrow> True | Some l \<Rightarrow> limiter_ok l)" for key
    using assms(2,3)
    by (auto simp: limiters_ok_def check_limits_def store_gets store_invars
        intro: limiter_check_okI split: option.splits prod.splits if_splits)
  show ?thesis
  proof (cases rule: admit_cases [of s H req U clock g ip])
    case (limited k s1)
    with assms(1) lim [of "re_key (entries (router s) ! k)"] show ?thesis by simp
  next
    case (selected k s1 picked b s2)
    then have "s' = s2" using assms(1) by (auto split: option.splits)
    with selected lim [of "re_key (entries (router s) ! k)"] show ?thesis by simp
  qed (use assms in simp)
qed

lemma exec_known:
  "dom (store_get (origin_states (exec p s))) = dom (store_get (origin_states s)) \<union> added_by p"
  by (cases p) (auto simp: store_gets split: if_splits)

lemma exec_stores:
  assumes "ops_ok U D (p # ops)" and "store_ok (origin_states s)" and "limiters_ok (route_ratelimiters s)"
  shows "store_ok (origin_states (exec p s)) \<and> limiters_ok (route_ratelimiters (exec p s)) \<and>
    ratelimiter (exec p s) = ratelimiter s"
  using assms by (cases p) (auto simp: store_invars limiters_ok_empty limiters_ok_def store_gets split: if_splits)

lemma exec_router:
  assumes "ops_ok U D (p # ops)" and "covered U (D \<union> added (p # ops) \<union> other) (router s)"
  shows "covered U (D \<union> added_by p \<union> added ops \<union> other) (router (exec p s))"
  using assms by (cases p) (auto simp: Un_assoc elim: covered_mono)

lemma exec_config:
  assumes "ops_ok U D (p # ops)" and "config_keys U (config s) \<subseteq> D"
  shows "config_keys U (config (exec p s)) \<subseteq> D \<union> added_by p"
  using assms by (cases p) auto

text \<open>The part of the invariant a single store of either task preserves.\<close>

definition shared_ok :: "'u url_ops \<Rightarrow> string set \<Rightarrow> 'u app_state \<Rightarrow> bool" where
  "shared_ok U pending s \<longleftrightarrow> store_ok (origin_states s) \<and> limiters_ok (route_ratelimiters s) \<and>
     (case ratelimiter s of None \<Rightarrow> True | Some l \<Rightarrow> limiter_ok l) \<and>
     config_keys U (config s) \<subseteq> dom (store_get (origin_states s)) \<and>
     covered U (dom (store_get (origin_states s)) \<union> pending) (router s)"

lemma cc_ok_shared:
  "cc_ok U S \<longleftrightarrow> shared_ok U (added (cc_reload S) \<union> added (cc_rebuild S)) (cc_app S) \<and>
     ops_ok U (known S) (cc_reload S) \<and> ops_ok U (known S) (cc_rebuild S) \<and>
     list_all (endpoint_ok U) (cc_inflight S) \<and>
     (case cc_checker S of None \<Rightarrow> True
      | Some ck \<Rightarrow> list_all (\<lambda>t. fst t = [] \<or> last (fst t) \<noteq> CHR ''/'') (targets ck))"
  by (auto simp: cc_ok_def shared_ok_def known_def Un_assoc)

lemma shared_ok_exec:
  assumes "shared_ok U (added (p # ops) \<union> other) s" and "ops_ok U (dom (store_get (origin_states s))) (p # ops)"
  shows "shared_ok U (added ops \<union> other) (exec p s)"
proof -
  have "covered U (dom (store_get (origin_states s)) \<union> added (p # ops) \<union> other) (router s)"
    using assms(1) by (simp add: shared_ok_def Un_assoc)
  from exec_router [OF assms(2) this] exec_config [OF assms(2)] exec_stores [OF assms(2)] assms(1)
  show ?thesis by (auto simp: shared_ok_def exec_known Un_assoc)
qed

lemma shared_ok_admit:
  assumes "shared_ok U K s" and "admit U H clock g ip req s = (v, s')"
  shows "shared_ok U K s'"
proof -
  have "config s' = config s" "origin_states s' = origin_states s"
    using admit_fields [of U H clock g ip req s] assms(2) by simp_all
  with admit_limiters [OF assms(2)] admit_router [OF assms(2)] assms(1) show ?thesis
    by (simp add: shared_ok_def covered_candidates)
qed

lemma shared_ok_finish: "shared_ok U K s \<Longrightarrow> shared_ok U K (finish_request d key result s)"
  unfolding shared_ok_def finish_request_dom finish_request_limiters
  by (simp add: finish_request_def store_invars)

lemma shared_ok_check: "shared_ok U K s \<Longrightarrow> shared_ok U K (check_target ck base r s)"
  unfolding shared_ok_def check_target_dom check_target_fields
  by (simp add: check_target_def store_invars)

lemma shared_ok_cleanup: "shared_ok U K s \<Longrightarrow> shared_ok U K (cleanup_limiters clock s)"
  by (auto simp: shared_ok_def cleanup_limiters_def limiters_ok_def store_map_get store_map_ok
      intro: cleanup_stale_ok split: option.splits)

lemma admit_Forward_up:
  assumes "shared_ok U K s" and "rng_ok g" and "admit U H clock g ip req s = (Forward og, s')"
  shows "endpoint_ok U og \<and> \<not> is_down U (origin_states s) og"
proof (cases rule: admit_cases [of s H req U clock g ip])
  case (selected k s1 picked b s2)
  with assms(3) have "picked = Some og" by (auto split: option.splits)
  with selected(3) lb.select_Some [OF assms(2), of U "re_candidates (entries (router s) ! k)" "origin_states s"
      "re_load_balancer (entries (router s) ! k)" og]
  have og: "og \<in> set (re_candidates (entries (router s) ! k))"
    and adm: "origin_admissible U (re_load_balancer (entries (router s) ! k)) (origin_states s) og" by auto
  have "entries (router s) ! k \<in> set (entries (router s))" using match_route_index [OF selected(1)] by simp
  with og assms(1) have "endpoint_ok U og" by (auto simp: shared_ok_def covered_def list_all_iff)
  with adm admissible_not_down show ?thesis by blast
qed (use assms in simp_all)

lemma csteps_known:
  assumes "cstep U H S S'"
  shows "known S \<subseteq> known S'"
  using assms
proof (cases rule: cstepE)
  case (refuse g clock ip req r s')
  with admit_fields(1) [of U H clock g ip req "cc_app S"] show ?thesis by (simp add: known_def)
next
  case (forward g clock ip req og s')
  with admit_fields(1) [of U H clock g ip req "cc_app S"] show ?thesis by (simp add: known_def)
qed (auto simp: known_def finish_request_dom check_target_dom proj_simps exec_known)

lemma cstep_ok:
  assumes "cstep U H S S'" and ok: "cc_ok U S"
  shows "cc_ok U S'"
proof -
  have sh: "shared_ok U (added (cc_reload S) \<union> added (cc_rebuild S)) (cc_app S)"
    and ops: "ops_ok U (known S) (cc_reload S)" "ops_ok U (known S) (cc_rebuild S)"
    and fl: "list_all (endpoint_ok U) (cc_inflight S)"
    and ck: "case cc_checker S of None \<Rightarrow> True
      | Some ck \<Rightarrow> list_all (\<lambda>t. fst t = [] \<or> last (fst t) \<noteq> CHR ''/'') (targets ck)"
    using ok by (simp_all add: cc_ok_shared)
  note ops' = ops [THEN ops_ok_mono, OF csteps_known [OF assms(1)]]
  have rm: "list_all (endpoint_ok U) (remove1 og (cc_inflight S))" for og
    using fl by (auto simp: list_all_iff dest: notin_set_remove1)
  from assms(1) show ?thesis
  proof (cases rule: cstepE)
    case (refuse g clock ip req r s')
    with shared_ok_admit [OF sh refuse(3)] ops' fl ck show ?thesis by (simp add: cc_ok_shared)
  next
    case (forward g clock ip req og s')
    with shared_ok_admit [OF sh forward(3)] admit_Forward_up [OF sh forward(2,3)] ops' fl ck
    show ?thesis by (simp add: cc_ok_shared)
  next
    case (complete og latency result)
    with shared_ok_finish [OF sh] ops' rm ck show ?thesis by (simp add: cc_ok_shared)
  next
    case (abandon og)
    with sh ops' rm ck show ?thesis by (simp add: cc_ok_shared)
  next
    case (check ck' base path result)
    with shared_ok_check [OF sh] ops' fl ck show ?thesis by (simp add: cc_ok_shared)
  next
    case (panic ck' t)
    with sh ops' fl show ?thesis by (simp add: cc_ok_shared)
  next
    case (discover e pool url)
    have "config_keys U (config (cc_app S)) \<subseteq> known S" using sh by (simp add: shared_ok_def known_def)
    then have "ops_ok U (known S) (rebuild_program U (config (cc_app S)) (replace_pool pool url (cc_k8s S)))" by (rule ops_ok_rebuild_program)
    moreover have "shared_ok U (added (cc_reload S) \<union> added (rebuild_program U (config (cc_app S)) (replace_pool pool url (cc_k8s S)))) (cc_app S)"
      using sh discover(3) by (auto simp: shared_ok_def elim: covered_mono)
    ultimately show ?thesis using discover ops fl ck by (simp add: cc_ok_shared known_def)
  next
    case (rebuild_op p ops2)
    have "shared_ok U (added (p # ops2) \<union> added (cc_reload S)) (cc_app S)"
      using sh rebuild_op(2) by (simp add: Un_commute)
    from shared_ok_exec [OF this] ops(2) rebuild_op(2)
    have "shared_ok U (added ops2 \<union> added (cc_reload S)) (exec p (cc_app S))" by (simp add: known_def)
    with rebuild_op ops ops' fl ck show ?thesis
      by (auto simp: cc_ok_shared known_def exec_known Un_commute)
  next
    case (load read from_str config_path c path_exists)
    have "shared_ok U (added (reload_program U c) \<union> added (cc_rebuild S)) (cc_app S)"
      using sh load(2) by (auto simp: shared_ok_def elim: covered_mono)
    with load ops ops_ok_reload_program fl ck show ?thesis by (simp add: cc_ok_shared known_def)
  next
    case (reload_op p ops2)
    from shared_ok_exec [of U p ops2 "added (cc_rebuild S)" "cc_app S"] sh ops(1) reload_op(2)
    have "shared_ok U (added ops2 \<union> added (cc_rebuild S)) (exec p (cc_app S))" by (simp add: known_def)
    with reload_op ops ops' fl ck show ?thesis by (auto simp: cc_ok_shared known_def exec_known)
  next
    case (cleanup clock)
    with shared_ok_cleanup [OF sh] ops' fl ck show ?thesis by (simp add: cc_ok_shared)
  qed
qed

lemma csteps_ok: "csteps U H S S' \<Longrightarrow> cc_ok U S \<Longrightarrow> cc_ok U S'"
  by (induction rule: rtranclp_induct) (auto intro: cstep_ok)

lemma cc_start_ok: "cc_ok U (cc_start U read_file c)"
proof -
  have "app_ok U (app_new U read_file c)" and "config (app_new U read_file c) = c"
    using app_new_ok [of U read_file c] by (simp_all add: app_new_def)
  then have "shared_ok U {} (app_new U read_file c)"
    by (auto simp: shared_ok_def app_ok_def config_keys_def covered_router_ok)
  with start_ok [of U read_file c] show ?thesis
    by (simp add: cc_ok_shared cc_start_def sys_ok_def)
qed

section \<open>What holds under every schedule\<close>

text \<open>
  C2. Under every interleaving of single stores, requests, checks and cleanups, the state is
  well formed again whenever neither the reload nor the discovery task is in the middle of its
  stores - even if they overlapped - and in between every candidate without a record is one
  that a task is about to register.
\<close>

theorem every_schedule_settles_ok:
  assumes "csteps U H (cc_start U read_file c) S"
  shows "covered U (known S \<union> added (cc_reload S) \<union> added (cc_rebuild S)) (router (cc_app S)) \<and>
    (cc_reload S = [] \<and> cc_rebuild S = [] \<longrightarrow> app_ok U (cc_app S))"
proof -
  have ok: "cc_ok U S" using csteps_ok [OF assms cc_start_ok] .
  moreover have "app_ok U (cc_app S)" if "cc_reload S = []" "cc_rebuild S = []"
    using ok that by (simp add: cc_ok_def app_ok_def known_def covered_router_ok config_keys_def)
  ultimately show ?thesis by (simp add: cc_ok_def)
qed

text \<open>
  C1. Under every such interleaving, also between the stores of a reload or a rebuild, no request
  is ever forwarded to an origin that is marked unhealthy.
\<close>

theorem no_schedule_forwards_to_unhealthy:
  assumes "csteps U H (cc_start U read_file c) S" and "rng_ok g"
    and "admit U H clock g ip req (cc_app S) = (Forward og, s')"
  shows "case store_get (origin_states (cc_app S)) (url_key og) of None \<Rightarrow> True | Some os \<Rightarrow> healthy os"
proof -
  have "cc_ok U S" by (rule csteps_ok [OF assms(1) cc_start_ok])
  then have "shared_ok U (added (cc_reload S) \<union> added (cc_rebuild S)) (cc_app S)" by (simp add: cc_ok_shared)
  from admit_Forward_up [OF this assms(2,3)] show ?thesis
    by (auto simp: is_down_def endpoint_ok_def split: option.splits)
qed

text \<open>An origin is down and nobody is waiting for it.\<close>

definition cc_dead :: "string \<Rightarrow> 'u concurrent \<Rightarrow> bool" where
  "cc_dead k S \<longleftrightarrow>
     (case store_get (origin_states (cc_app S)) k of None \<Rightarrow> False | Some os \<Rightarrow> \<not> healthy os) \<and>
     list_all (\<lambda>og. url_key og \<noteq> k) (cc_inflight S)"

lemma cc_dead_get:
  "cc_dead k S \<longleftrightarrow> (\<exists>os. store_get (origin_states (cc_app S)) k = Some os \<and> \<not> healthy os) \<and>
     list_all (\<lambda>og. url_key og \<noteq> k) (cc_inflight S)"
  by (auto simp: cc_dead_def split: option.splits)

lemma exec_get:
  "store_get (origin_states s) k = Some os \<Longrightarrow> store_get (origin_states (exec p s)) k = Some os"
  by (cases p) (auto simp: store_gets)

lemma cstep_dead:
  assumes "cstep U H S S'" and ok: "cc_ok U S" and dead: "cc_dead k S"
    and slash: "k \<noteq> []" "last k = CHR ''/''"
  shows "cc_dead k S'"
proof -
  have sh: "shared_ok U (added (cc_reload S) \<union> added (cc_rebuild S)) (cc_app S)"
    using ok by (simp add: cc_ok_shared)
  obtain os where os: "store_get (origin_states (cc_app S)) k = Some os" "\<not> healthy os"
    and fl: "list_all (\<lambda>og. url_key og \<noteq> k) (cc_inflight S)"
    using dead by (auto simp: cc_dead_get)
  have rm: "list_all (\<lambda>og. url_key og \<noteq> k) (remove1 x (cc_inflight S))" for x
    using fl by (auto simp: list_all_iff dest: notin_set_remove1)
  from assms(1) show ?thesis
  proof (cases rule: cstepE)
    case (refuse g clock ip req r s')
    with os fl admit_fields(1) [of U H clock g ip req "cc_app S"] show ?thesis by (simp add: cc_dead_get)
  next
    case (forward g clock ip req og s')
    have "url_key og \<noteq> k"
      using admit_Forward_up [OF sh forward(2,3)] os by (auto simp: is_down_def endpoint_ok_def)
    with forward os fl admit_fields(1) [of U H clock g ip req "cc_app S"] show ?thesis by (simp add: cc_dead_get)
  next
    case (complete og latency result)
    then have "url_key og \<noteq> k" using fl by (auto simp: list_all_iff)
    with complete os rm show ?thesis by (simp add: cc_dead_get finish_request_get)
  next
    case (check ck base path result)
    then have "base = [] \<or> last base \<noteq> CHR ''/''" using ok by (fastforce simp: cc_ok_shared list_all_iff)
    with slash have "base \<noteq> k" by auto
    with check os fl show ?thesis by (simp add: cc_dead_get check_target_get)
  qed (use os fl rm in \<open>simp_all add: cc_dead_get exec_get cleanup_limiters_fields\<close>)
qed

text \<open>
  C9. An unhealthy origin whose key ends in a slash and that no request is waiting for is out of
  service for good, under every schedule of the tasks.
\<close>

theorem dead_origin_stays_dead:
  assumes "csteps U H (cc_start U read_file c) S" and "cc_dead k S" and "k \<noteq> []" and "last k = CHR ''/''"
    and "csteps U H S S'"
  shows "cc_dead k S'"
  using assms(5)
proof (induction rule: rtranclp_induct)
  case (step S1 S2)
  have "cc_ok U S1" by (rule csteps_ok [OF step(1) csteps_ok [OF assms(1) cc_start_ok]])
  from cstep_dead [OF step(2) this step(3) assms(3,4)] show ?case .
qed (rule assms(2))

section \<open>The two tasks against each other\<close>

lemma run_reload_ops:
  "cc_reload S = ops \<Longrightarrow> csteps U H S (S\<lparr>cc_app := run_ops ops (cc_app S), cc_reload := []\<rparr>)"
proof (induction ops arbitrary: S)
  case Nil
  then have "S\<lparr>cc_reload := []\<rparr> = S" by (cases S) simp
  then show ?case by simp
next
  case (Cons p ops)
  from Cons.IH [of "S\<lparr>cc_app := exec p (cc_app S), cc_reload := ops\<rparr>"] cc_reload_op [OF Cons.prems]
  show ?case by (auto intro: converse_rtranclp_into_rtranclp)
qed

lemma run_rebuild_ops:
  "cc_rebuild S = ops \<Longrightarrow> csteps U H S (S\<lparr>cc_app := run_ops ops (cc_app S), cc_rebuild := []\<rparr>)"
proof (induction ops arbitrary: S)
  case Nil
  then have "S\<lparr>cc_rebuild := []\<rparr> = S" by (cases S) simp
  then show ?case by simp
next
  case (Cons p ops)
  from Cons.IH [of "S\<lparr>cc_app := exec p (cc_app S), cc_rebuild := ops\<rparr>"] cc_rebuild_op [OF Cons.prems]
  show ?case by (auto intro: converse_rtranclp_into_rtranclp)
qed

lemma rebuild_effect:
  "router (run_ops (rebuild_program U c m) s) = from_config_with_k8s U c m"
  "config (run_ops (rebuild_program U c m) s) = config s"
  by (simp_all add: rebuild_program_def run_adds)

text \<open>
  C23. A reload can be lost to a discovery that overlaps it: when a service is announced just
  before the file is reloaded, there is a schedule after which both tasks have finished, the
  new configuration is in place, and requests are still routed by the old one.
\<close>

theorem reload_lost_to_discovery:
  assumes "cc_watching S" and "cc_reload S = []" and "cc_rebuild S = []"
    and "event_origin U e = Some (pool, url)"
    and "load read from_str config_path = Inr c" and "validate U path_exists c = Inr ()"
  shows "\<exists>S'. csteps U H S S' \<and> cc_reload S' = [] \<and> cc_rebuild S' = [] \<and> config (cc_app S') = c \<and>
     router (cc_app S') = from_config_with_k8s U (config (cc_app S)) (replace_pool pool url (cc_k8s S))"
proof -
  define m where "m = replace_pool pool url (cc_k8s S)"
  define S1 where "S1 = S\<lparr>cc_k8s := m, cc_rebuild := rebuild_program U (config (cc_app S)) m\<rparr>"
  define S2 where "S2 = S1\<lparr>cc_reload := reload_program U c\<rparr>"
  define S3 where "S3 = S2\<lparr>cc_app := apply_config U c (cc_app S), cc_reload := []\<rparr>"
  define S4 where "S4 = S3\<lparr>cc_app := run_ops (rebuild_program U (config (cc_app S)) m) (cc_app S3), cc_rebuild := []\<rparr>"
  have "cstep U H S S1" unfolding S1_def m_def by (rule cc_discover [OF assms(1,3,4) refl])
  moreover have "cstep U H S1 S2" unfolding S2_def by (rule cc_load [OF _ assms(5,6)]) (simp add: S1_def assms(2))
  moreover have "csteps U H S2 S3"
    using run_reload_ops [of S2 "reload_program U c" U H] by (simp add: S3_def S2_def S1_def run_reload_program)
  moreover have "csteps U H S3 S4"
    using run_rebuild_ops [of S3 "rebuild_program U (config (cc_app S)) m" U H]
    by (simp add: S4_def) (simp add: S3_def S2_def S1_def)
  ultimately have "csteps U H S S4" by (meson converse_rtranclp_into_rtranclp rtranclp_trans)
  moreover have "config (apply_config U c (cc_app S)) = c"
    by (simp add: apply_config_def reload_steps_def reload_step_defs)
  ultimately show ?thesis
    by (intro exI [of _ S4]) (simp add: S4_def rebuild_effect, simp add: S3_def S2_def S1_def m_def)
qed

section \<open>The coarse system is a schedule\<close>

text \<open>A state of the coarse system, with no store pending.\<close>

definition embed :: "'u system \<Rightarrow> 'u concurrent" where
  "embed S = \<lparr>cc_app = sys_app S, cc_inflight = inflight S, cc_checker = sys_checker S, cc_watching = True,
     cc_k8s = sys_k8s S, cc_reload = [], cc_rebuild = []\<rparr>"

lemma embed_simps [simp]:
  "cc_app (embed S) = sys_app S" "cc_inflight (embed S) = inflight S" "cc_checker (embed S) = sys_checker S"
  "cc_watching (embed S)" "cc_k8s (embed S) = sys_k8s S" "cc_reload (embed S) = []" "cc_rebuild (embed S) = []"
  "embed (S\<lparr>sys_app := s\<rparr>) = (embed S)\<lparr>cc_app := s\<rparr>"
  "embed (S\<lparr>inflight := ogs\<rparr>) = (embed S)\<lparr>cc_inflight := ogs\<rparr>"
  "embed (S\<lparr>sys_checker := ck\<rparr>) = (embed S)\<lparr>cc_checker := ck\<rparr>"
  "embed (S\<lparr>sys_k8s := m\<rparr>) = (embed S)\<lparr>cc_k8s := m\<rparr>"
  by (simp_all add: embed_def)

lemma step_simulated:
  assumes "step U H S S'"
  shows "csteps U H (embed S) (embed S')"
  using assms
proof (cases rule: stepE)
  case (refuse g clock ip req r s')
  with cc_refuse [of g U H clock ip req "embed S" r s'] show ?thesis by auto
next
  case (forward g clock ip req og s')
  with cc_forward [of g U H clock ip req "embed S" og s'] show ?thesis by auto
next
  case (complete og latency result)
  with cc_complete [of og "embed S" U H latency result] show ?thesis by auto
next
  case (abandon og)
  with cc_abandon [of og "embed S" U H] show ?thesis by auto
next
  case (check ck base path result)
  with cc_check [of "embed S" ck base path H U result] show ?thesis by auto
next
  case (checker_panic ck t)
  with cc_panic [of "embed S" ck t H U] show ?thesis by auto
next
  case (discover e m' s')
  show ?thesis
  proof (cases "event_origin U e")
    case None
    with discover have "S' = S" by (cases S) (simp add: discovery_event_eq)
    then show ?thesis by simp
  next
    case (Some pu)
    obtain pool url where pu: "pu = (pool, url)" by force
    define S1 where "S1 = (embed S)\<lparr>cc_k8s := m', cc_rebuild := rebuild_program U (config (sys_app S)) m'\<rparr>"
    have m': "m' = replace_pool pool url (sys_k8s S)" and s': "s' = rebuild_router U m' (sys_app S)"
      using discover(2) Some pu by (auto simp: discovery_event_eq)
    have "cstep U H (embed S) S1"
      using cc_discover [of "embed S" U e pool url m' H] Some pu m' by (simp add: S1_def)
    moreover have "csteps U H S1 (embed S')"
      using run_rebuild_ops [of S1 "rebuild_program U (config (sys_app S)) m'" U H] discover(1) s'
      by (simp add: S1_def run_rebuild_program) (simp add: embed_def)
    ultimately show ?thesis by (rule converse_rtranclp_into_rtranclp)
  qed
next
  case (reloaded read from_str path_exists config_path)
  show ?thesis
  proof (cases rule: reload_cases [of U read from_str path_exists config_path "sys_app S"])
    case 1
    with reloaded have "S' = S" by (cases S) simp
    then show ?thesis by simp
  next
    case (2 c)
    define S1 where "S1 = (embed S)\<lparr>cc_reload := reload_program U c\<rparr>"
    have "cstep U H (embed S) S1"
      unfolding S1_def by (rule cc_load [OF _ 2(2,1)]) simp
    moreover have "csteps U H S1 (embed S')"
      using run_reload_ops [of S1 "reload_program U c" U H] reloaded 2(3)
      by (simp add: S1_def run_reload_program) (simp add: embed_def)
    ultimately show ?thesis by (rule converse_rtranclp_into_rtranclp)
  qed
next
  case (cleanup clock)
  with cc_cleanup [of U H "embed S" clock] show ?thesis by auto
qed

text \<open>
  The coarse system of theory \<open>System\<close> is a refinement of this one: every run of it is a
  schedule in which reloads and rebuilds are not interrupted.
\<close>

theorem coarse_runs_are_schedules:
  assumes "steps U H S S'"
  shows "csteps U H (embed S) (embed S')"
  using assms by (induction rule: rtranclp_induct) (auto intro: step_simulated rtranclp_trans)

section \<open>Witnesses\<close>

definition sample_cc :: "string concurrent" where
  "sample_cc = cc_start sample_urls (\<lambda>_. None) (sample_config [sample_route None None [''http://a/'']])"

definition sample_new_config :: "string proxy_config" where
  "sample_new_config = sample_config [sample_route None None [''http://b/'']]"

definition sample_mid :: "string concurrent" where
  "sample_mid = sample_cc\<lparr>cc_reload := reload_program sample_urls sample_new_config\<rparr>"

lemma sample_cc_fields:
  "cc_app sample_cc = sample_app" "cc_inflight sample_cc = []" "cc_reload sample_cc = []" "cc_rebuild sample_cc = []"
  by (simp_all add: sample_cc_def cc_start_def sample_app_def)

lemma sample_new_config_valid: "validate sample_urls (\<lambda>_. True) sample_new_config = Inr ()"
  by (simp add: sample_new_config_def validate_ok_iff config_ok_def route_ok_def pool_ok_def origin_ok_def
      bad_rate_limit_def match_key_def sample_route_def sample_origin_def sample_config_def sample_scheme_def)

lemma sample_load: "load (\<lambda>_. Some ''new'') (\<lambda>_. Some sample_new_config) ''c.toml'' = Inr sample_new_config"
  by (simp add: load_def)

lemma sample_mid_reachable: "csteps sample_urls H sample_cc sample_mid"
  unfolding sample_mid_def
  by (intro r_into_rtranclp cc_load [OF sample_cc_fields(3) sample_load sample_new_config_valid])

lemma every_schedule_settles_ok_witness:
  "covered sample_urls (known sample_mid \<union> added (cc_reload sample_mid) \<union> added (cc_rebuild sample_mid))
     (router (cc_app sample_mid)) \<and> cc_reload sample_mid \<noteq> []"
  using every_schedule_settles_ok [OF sample_mid_reachable [of sample_http, unfolded sample_cc_def]]
  by (simp add: sample_mid_def reload_program_def)

lemma no_schedule_forwards_to_unhealthy_witness:
  "case store_get (origin_states (cc_app sample_mid)) ''http://a/'' of None \<Rightarrow> True | Some os \<Rightarrow> healthy os"
proof -
  have "admit sample_urls sample_http (\<lambda>_. 0) sample_rng (IpV4 7) sample_get (cc_app sample_mid)
      = (Forward sample_endpoint_a, one_origin 1 new_origin_state)"
    by (simp add: sample_mid_def sample_cc_fields sample_app_admit)
  from no_schedule_forwards_to_unhealthy [OF sample_mid_reachable [unfolded sample_cc_def] sample_rng_ok this]
  show ?thesis by (simp add: sample_endpoint_a_def route_simps)
qed

definition cc_at :: "string app_state \<Rightarrow> string concurrent" where
  "cc_at s = sample_cc\<lparr>cc_app := s, cc_inflight := []\<rparr>"

lemma one_origin_cc_round:
  assumes "healthy os"
  shows "csteps sample_urls H (cc_at (one_origin c os)) (cc_at (fail_once (one_origin (c + 1) os)))"
proof -
  define S1 where "S1 = (cc_at (one_origin (c + 1) os))\<lparr>cc_inflight := [sample_endpoint_a]\<rparr>"
  have "admit sample_urls H (\<lambda>_. 0) sample_rng (IpV4 7) sample_get (cc_app (cc_at (one_origin c os)))
      = (Forward sample_endpoint_a, one_origin (c + 1) os)"
    using assms by (simp add: one_origin_admit cc_at_def)
  from cc_forward [OF sample_rng_ok this] have one: "cstep sample_urls H (cc_at (one_origin c os)) S1"
    by (simp add: S1_def cc_at_def sample_cc_fields)
  have "url_key sample_endpoint_a = ''http://a/''" by (simp add: sample_endpoint_a_def route_simps)
  then have "cstep sample_urls H S1 (cc_at (fail_once (one_origin (c + 1) os)))"
    using cc_complete [of sample_endpoint_a S1 sample_urls H 0 "Inl (ClientError ''refused'')"]
    by (simp add: S1_def fail_once_def cc_at_def sample_cc_fields)
  with one show ?thesis by (meson r_into_rtranclp rtranclp.rtrancl_into_rtrancl)
qed

lemma sample_cc_run: "n \<le> 5 \<Longrightarrow> csteps sample_urls H sample_cc (cc_at (one_origin (of_nat n) (failed_times n)))"
proof (induction n)
  case 0
  have "cc_at (one_origin 0 new_origin_state) = sample_cc"
    using sample_cc_fields(1,2) by (cases sample_cc) (simp add: cc_at_def sample_app_one_origin)
  then show ?case by (simp add: failed_times_def)
next
  case (Suc n)
  then have "healthy (failed_times n)" by (simp add: failed_times_fields)
  from one_origin_cc_round [OF this, of H "of_nat n"]
  have "csteps sample_urls H (cc_at (one_origin (of_nat n) (failed_times n)))
      (cc_at (one_origin (of_nat (Suc n)) (failed_times (Suc n))))"
    by (simp add: one_origin_fail failed_times_def add.commute)
  with Suc show ?case by (meson Suc_leD rtranclp_trans)
qed

lemma dead_origin_stays_dead_witness:
  "cc_dead ''http://a/'' ((cc_at (one_origin 5 (failed_times 5)))\<lparr>cc_reload := reload_program sample_urls sample_new_config\<rparr>)"
proof -
  have run: "csteps sample_urls sample_http
      (cc_start sample_urls (\<lambda>_. None) (sample_config [sample_route None None [''http://a/'']]))
      (cc_at (one_origin 5 (failed_times 5)))"
    using sample_cc_run [of 5 sample_http] by (simp add: sample_cc_def)
  have dead: "cc_dead ''http://a/'' (cc_at (one_origin 5 (failed_times 5)))"
    by (simp add: cc_dead_get cc_at_def one_origin_def store_get_def failed_times_fields sample_cc_fields)
  have "cc_reload (cc_at (one_origin 5 (failed_times 5))) = []" by (simp add: cc_at_def sample_cc_fields)
  from cc_load [OF this sample_load sample_new_config_valid]
  have "csteps sample_urls sample_http (cc_at (one_origin 5 (failed_times 5)))
      ((cc_at (one_origin 5 (failed_times 5)))\<lparr>cc_reload := reload_program sample_urls sample_new_config\<rparr>)" ..
  from dead_origin_stays_dead [OF run dead _ _ this] show ?thesis by simp
qed

lemma reload_lost_to_discovery_witness:
  "\<exists>S'. csteps sample_urls sample_http (embed sample_start) S' \<and> config (cc_app S') = sample_new_config \<and>
     map re_config (entries (router (cc_app S'))) = [sample_route None None [''http://a/'']]"
proof -
  have ev: "event_origin sample_urls (Applied (sample_service ''svc'' ''a'' 80)) = Some (''backend'', ''http://a:80/'')"
    by (simp add: event_origin_def sample_service_origin)
  have "config (sys_app sample_start) = sample_config [sample_route None None [''http://a/'']]"
    by (simp add: sample_start_app sample_app_one_origin one_origin_def)
  with reload_lost_to_discovery [OF _ _ _ ev sample_load sample_new_config_valid, of "embed sample_start" sample_http]
  show ?thesis by (auto simp: from_config_with_k8s_def sample_config_def route_simps)
qed

lemma coarse_runs_are_schedules_witness:
  "csteps sample_urls sample_http (embed sample_start) (embed (at_app (one_origin 5 (failed_times 5))))"
  using coarse_runs_are_schedules [OF sample_run [of 5 sample_http]] by simp

end
