(* ===== verification/Metrics.thy ===== *)
theory Metrics
  imports AppState
begin

text \<open>
  \<open>src/src/middleware/metrics.rs\<close>: the recorder of the latency histogram and the gauges the
  process sets about itself every five seconds.
  The files under \<open>/proc\<close>, the page size and the clock tick are parameters; a gauge that a pass
  leaves alone is \<open>None\<close>.
\<close>

section \<open>Text files\<close>

text \<open>\<open>char::is_whitespace\<close> on ASCII, which is all these files hold.\<close>

definition is_whitespace :: "char \<Rightarrow> bool" where
  "is_whitespace c \<longleftrightarrow> (let n = (of_char c :: nat) in n = 32 \<or> 9 \<le> n \<and> n \<le> 13)"

text \<open>\<open>str::split_whitespace\<close>: the maximal pieces without white space.\<close>

fun split_whitespace_acc :: "string \<Rightarrow> string \<Rightarrow> string list" where
  "split_whitespace_acc acc [] = (if acc = [] then [] else [rev acc])"
| "split_whitespace_acc acc (c # cs) =
     (if is_whitespace c then (if acc = [] then [] else [rev acc]) @ split_whitespace_acc [] cs
      else split_whitespace_acc (c # acc) cs)"

definition split_whitespace :: "string \<Rightarrow> string list" where
  "split_whitespace s = split_whitespace_acc [] s"

section \<open>The gauges\<close>

record gauges =
  resident_memory_bytes :: "f64 option"
  open_fds :: "f64 option"
  cpu_seconds_total :: "f64 option"
  total_origins :: f64
  healthy_origins :: f64

definition resident_memory :: "string option \<Rightarrow> u64 \<Rightarrow> f64 option" where
  "resident_memory statm page_size =
     (case statm of None \<Rightarrow> None
      | Some text \<Rightarrow>
          (let parts = split_whitespace text
           in if 2 \<le> length parts
              then (case parse_uint (2 ^ 64) (parts ! 1) of None \<Rightarrow> None
                    | Some rss_pages \<Rightarrow> Some (u64_as_f64 (of_nat rss_pages * page_size)))
              else None))"

definition parse_or_0 :: "string \<Rightarrow> u64" where
  "parse_or_0 s = (case parse_uint (2 ^ 64) s of None \<Rightarrow> 0 | Some n \<Rightarrow> of_nat n)"

definition cpu_seconds :: "string option \<Rightarrow> u64 \<Rightarrow> f64 option" where
  "cpu_seconds stat clk_tck =
     (case stat of None \<Rightarrow> None
      | Some text \<Rightarrow>
          (let fields = split_whitespace text
           in if 15 \<le> length fields
              then (let utime = parse_or_0 (fields ! 13);
                        stime = parse_or_0 (fields ! 14);
                        ticks = utime + stime
                    in if 0 < clk_tck then Some (fl (u64_as_f64 ticks / u64_as_f64 clk_tck)) else None)
              else None))"

definition count_healthy :: "origin_states \<Rightarrow> nat" where
  "count_healthy m = length (filter (\<lambda>(key, os). healthy os) m)"

definition collect ::
  "string option \<Rightarrow> u64 \<Rightarrow> nat option \<Rightarrow> string option \<Rightarrow> u64 \<Rightarrow> 'u app_state \<Rightarrow> gauges" where
  "collect statm page_size fd_count stat clk_tck s =
     \<lparr>resident_memory_bytes = resident_memory statm page_size,
      open_fds = map_option (\<lambda>n. u64_as_f64 (of_nat n)) fd_count,
      cpu_seconds_total = cpu_seconds stat clk_tck,
      total_origins = u64_as_f64 (of_nat (store_len (origin_states s))),
      healthy_origins = u64_as_f64 (of_nat (count_healthy (origin_states s)))\<rparr>"

section \<open>The recorder\<close>

text \<open>
  \<open>init\<close> builds the recorder of the exporter, a crate, with fixed bucket bounds in nanoseconds
  for the one histogram of the program; each \<open>expect\<close> ends the process, here \<open>None\<close>. What the crate
  answers is given by \<open>set_buckets\<close> and \<open>install_recorder\<close>.
\<close>

definition duration_buckets :: "f64 list" where
  "duration_buckets =
     [50000, 100000, 250000, 500000, 1000000, 2500000, 5000000, 10000000, 50000000, 100000000]"

definition metrics_init :: "(f64 list \<Rightarrow> 'e + 'b) \<Rightarrow> ('b \<Rightarrow> 'e + 'h) \<Rightarrow> 'h option" where
  "metrics_init set_buckets install_recorder =
     (case set_buckets duration_buckets of
        Inl e \<Rightarrow> None
      | Inr builder \<Rightarrow> (case install_recorder builder of Inl e \<Rightarrow> None | Inr handle \<Rightarrow> Some handle))"

text \<open>What \<open>handle_request\<close> records of a forwarded request: \<open>latency.as_nanos() as f64\<close>.\<close>

definition duration_sample :: "duration \<Rightarrow> f64" where
  "duration_sample latency = fl (of_nat latency)"

text \<open>The bounds are binary64 values in increasing order, as a histogram needs them.\<close>

lemma duration_buckets_ok:
  "sorted_wrt (<) duration_buckets \<and> list_all (\<lambda>x. 0 < x \<and> fl x = x) duration_buckets"
proof -
  have "fl (numeral n) = numeral n" if "numeral n \<le> (2 ^ 53 :: nat)" for n
    using f64.rnd_of_nat [OF that] by (simp only: of_nat_numeral)
  then show ?thesis by (simp add: duration_buckets_def)
qed

text \<open>
  A sample is counted under the bounds its latency is under: the conversion to \<open>f64\<close> moves no
  latency across a bound.
\<close>

theorem duration_sample_bucket:
  assumes "b \<in> set duration_buckets"
  shows "duration_sample latency \<le> b \<longleftrightarrow> of_nat latency \<le> b"
proof -
  obtain n :: nat where b: "b = of_nat n" "n < 2 ^ 52"
  proof -
    from assms have "b = of_nat (nat \<lfloor>b\<rfloor>) \<and> nat \<lfloor>b\<rfloor> < 2 ^ 52" by (auto simp: duration_buckets_def)
    then show ?thesis using that by blast
  qed
  have exact: "fl (of_nat m) = of_nat m" if "m \<le> Suc n" for m
    using b(2) that by (intro f64.rnd_of_nat) simp
  show ?thesis
  proof (cases "latency \<le> n")
    case True
    then show ?thesis using exact [of latency] by (simp add: duration_sample_def b(1))
  next
    case False
    then have "fl (of_nat (Suc n)) \<le> fl (of_nat latency)" by (intro f64.rnd_mono) simp
    moreover have "fl (of_nat (Suc n)) = of_nat (Suc n)" by (rule exact) simp
    ultimately show ?thesis using False by (simp add: duration_sample_def b(1))
  qed
qed

section \<open>What the gauges say\<close>

lemma count_healthy_card:
  assumes "store_ok m"
  shows "count_healthy m = card {k. \<exists>os. store_get m k = Some os \<and> healthy os}"
proof -
  have "dom (store_get (store_retain (\<lambda>key os. healthy os) m)) = {k. \<exists>os. store_get m k = Some os \<and> healthy os}"
    by (auto simp: dm.get_retain [OF assms] dom_def split: option.splits if_splits)
  moreover have "store_ok (store_retain (\<lambda>key os. healthy os) m)" by (rule dm.invar_retain [OF assms])
  ultimately have "store_len (store_retain (\<lambda>key os. healthy os) m) = card {k. \<exists>os. store_get m k = Some os \<and> healthy os}"
    by (simp only: store_len_card)
  then show ?thesis by (simp add: count_healthy_def store_len_def store_retain_def)
qed

lemma u64_as_f64_of_nat:
  assumes "n < 2 ^ 53"
  shows "u64_as_f64 (of_nat n) = of_nat n"
proof -
  have "unat (of_nat n :: u64) = n" using assms by (simp add: unat_of_nat)
  moreover have "fl (of_nat n) = of_nat n" using assms by (intro f64.rnd_of_nat) simp
  ultimately show ?thesis unfolding u64_as_f64_def by (simp only:)
qed

text \<open>
  The origin gauges are exact: with fewer than \<open>2 ^ 53\<close> origins they are the numbers of
  registered and of healthy origins of the state.
\<close>

theorem origin_gauges_exact:
  assumes "app_ok U s" and "store_len (origin_states s) < 2 ^ 53"
  shows "total_origins (collect statm page_size fd_count stat clk_tck s) =
      of_nat (card (dom (store_get (origin_states s)))) \<and>
    healthy_origins (collect statm page_size fd_count stat clk_tck s) =
      of_nat (card {k. \<exists>os. store_get (origin_states s) k = Some os \<and> healthy os})"
proof -
  have ok: "store_ok (origin_states s)" using assms(1) by (simp add: app_ok_def)
  have "count_healthy (origin_states s) \<le> store_len (origin_states s)"
    by (simp add: count_healthy_def store_len_def)
  with assms(2) have "count_healthy (origin_states s) < 2 ^ 53" by linarith
  with assms(2) show ?thesis
    by (simp only: collect_def gauges.simps u64_as_f64_of_nat store_len_card [OF ok] count_healthy_card [OF ok])
qed

text \<open>Joining pieces by single spaces and splitting gives the pieces back.\<close>

lemma split_whitespace_acc_piece:
  "\<forall>c \<in> set p. \<not> is_whitespace c \<Longrightarrow> split_whitespace_acc acc (p @ s) = split_whitespace_acc (rev p @ acc) s"
  by (induction p arbitrary: acc) auto

lemma split_whitespace_join:
  assumes "list_all (\<lambda>p. p \<noteq> [] \<and> (\<forall>c \<in> set p. \<not> is_whitespace c)) ps"
  shows "split_whitespace (concat (map (\<lambda>p. p @ '' '') ps)) = ps"
  using assms
proof (induction ps)
  case (Cons p ps)
  then have "split_whitespace (p @ '' '' @ concat (map (\<lambda>p. p @ '' '') ps))
      = p # split_whitespace (concat (map (\<lambda>p. p @ '' '') ps))"
    by (simp add: split_whitespace_def split_whitespace_acc_piece) (simp add: is_whitespace_def)
  with Cons show ?case by simp
qed (simp add: split_whitespace_def)

lemma show_nat_no_whitespace: "c \<in> set (show_nat n) \<Longrightarrow> \<not> is_whitespace c"
  using show_nat_digits [of n] by (auto simp: is_digit_def is_whitespace_def Let_def)

text \<open>
  The resident memory is read correctly from a line as the kernel prints it: the second number
  is the page count.
\<close>

theorem resident_memory_of_statm:
  assumes "2 \<le> length ns" and "ns ! 1 < 2 ^ 64"
  shows "resident_memory (Some (concat (map (\<lambda>n. show_nat n @ '' '') ns))) page_size =
     Some (u64_as_f64 (of_nat (ns ! 1) * page_size))"
proof -
  have "split_whitespace (concat (map (\<lambda>p. p @ '' '') (map show_nat ns))) = map show_nat ns"
    by (rule split_whitespace_join) (auto simp: list_all_iff dest: show_nat_no_whitespace)
  then have "split_whitespace (concat (map (\<lambda>n. show_nat n @ '' '') ns)) = map show_nat ns"
    by (simp add: comp_def)
  with assms show ?thesis
    by (simp add: resident_memory_def parse_show_nat_iff del: power_numeral)
qed

end
