(* ===== verification/Cli.thy ===== *)
theory Cli
  imports Config
begin

text \<open>
  \<open>src/src/bin/upstreamer/cli.rs\<close>: the summary printed by \<open>--validate\<close>, as the list of the lines
  given to \<open>println!\<close>, in UTF-8. With it the \<open>Debug\<close> form of a duration. The parsing of the arguments is the \<open>clap\<close> crate.
\<close>

section \<open>Durations\<close>

text \<open>The decimals of a fraction with \<open>n\<close> digits, without trailing zeros.\<close>

fun frac_digits :: "nat \<Rightarrow> nat \<Rightarrow> string" where
  "frac_digits 0 p = []"
| "frac_digits (Suc n) p =
     (if p = 0 then [] else digit_char (p div 10 ^ n) # frac_digits n (p mod 10 ^ n))"

definition show_decimal :: "nat \<Rightarrow> nat \<Rightarrow> nat \<Rightarrow> string \<Rightarrow> string" where
  "show_decimal whole fraction n unit =
     show_nat whole @ (if fraction = 0 then [] else ''.'' @ frac_digits n fraction) @ unit"

definition micro_sign :: string where
  "micro_sign = [CHR 0xC2, CHR 0xB5]"

text \<open>\<open>Duration\<close> with \<open>{:?}\<close>.\<close>

definition show_duration :: "duration \<Rightarrow> string" where
  "show_duration d =
     (let secs = d div nanos_per_sec;
          nanos = d mod nanos_per_sec
      in if 0 < secs then show_decimal secs nanos 9 ''s''
         else if 1000000 \<le> nanos then show_decimal (nanos div 1000000) (nanos mod 1000000) 6 ''ms''
         else if 1000 \<le> nanos then show_decimal (nanos div 1000) (nanos mod 1000) 3 (micro_sign @ ''s'')
         else show_decimal nanos 0 1 ''ns'')"

section \<open>The summary\<close>

definition escape :: char where
  "escape = CHR 0x1B"

definition green :: "string \<Rightarrow> string" where
  "green s = escape # ''[32m'' @ s @ escape # ''[0m''"

definition dim :: "string \<Rightarrow> string" where
  "dim s = escape # ''[2m'' @ s @ escape # ''[0m''"

definition check_mark :: string where
  "check_mark = [CHR 0xE2, CHR 0x9C, CHR 0x93]"

definition em_dash :: string where
  "em_dash = [CHR 0xE2, CHR 0x80, CHR 0x94]"

definition right_arrow :: string where
  "right_arrow = [CHR 0xE2, CHR 0x86, CHR 0x92]"

text \<open>\<open>{:10}\<close> for the labels, which are ASCII.\<close>

definition pad10 :: "string \<Rightarrow> string" where
  "pad10 s = s @ replicate (10 - length s) CHR '' ''"

definition lowercase_debug :: "lb_algorithm \<Rightarrow> string" where
  "lowercase_debug a =
     (case a of RoundRobin \<Rightarrow> ''roundrobin'' | WeightedLatency \<Rightarrow> ''weightedlatency''
      | WeightedMetrics \<Rightarrow> ''weightedmetrics'')"

definition origin_line :: "'u url_ops \<Rightarrow> 'u origin_config \<Rightarrow> string" where
  "origin_line U og =
     (let weight = (case oc_weight og of None \<Rightarrow> [] | Some w \<Rightarrow> '' '' @ dim (''weight='' @ show_word w))
      in ''      '' @ dim right_arrow @ '' '' @ url_to_string U (oc_url og) @ weight)"

definition pool_lines :: "'u url_ops \<Rightarrow> 'u pool_ref \<Rightarrow> string list" where
  "pool_lines U p = (''    '' @ pad10 (dim ''pool:'') @ '' '' @ pl_name p) # map (origin_line U) (pl_origins p)"

definition route_lines :: "'u url_ops \<Rightarrow> nat \<Rightarrow> 'u route_config \<Rightarrow> string list" where
  "route_lines U i r =
     (let host = (case match_host r of Some h \<Rightarrow> h | None \<Rightarrow> ''*'');
          path = (case match_path r of Some p \<Rightarrow> p | None \<Rightarrow> ''/'')
      in [[],
          ''  '' @ dim ''route'' @ '' ['' @ show_nat i @ '']'',
          ''    '' @ pad10 (dim ''match:'') @ '' '' @ host @ '' '' @ path,
          ''    '' @ pad10 (dim ''algo:'') @ '' '' @ lowercase_debug (lb_algorithm r)] @
         concat (map (pool_lines U) (pools r)) @
         (case rt_ratelimit r of None \<Rightarrow> []
          | Some rl \<Rightarrow> [''    '' @ pad10 (dim ''ratelimit:'') @ '' '' @ show_word (rl_rate rl) @ ''/s burst='' @
                        show_word (rl_burst rl)]))"

fun routes_lines :: "'u url_ops \<Rightarrow> nat \<Rightarrow> 'u route_config list \<Rightarrow> string list" where
  "routes_lines U i [] = []"
| "routes_lines U i (r # rs) = route_lines U i r @ routes_lines U (Suc i) rs"

definition health_lines :: "health_config \<Rightarrow> string list" where
  "health_lines h =
     (let a = hc_active h; p = hc_passive h
      in [[],
          ''  '' @ dim ''health:'',
          (if ah_enabled a
           then ''    '' @ pad10 (dim ''active:'') @ '' '' @ green ''on'' @ '' interval='' @ show_duration (ah_interval a) @
                '' timeout='' @ show_duration (ah_timeout a) @ '' thresholds='' @ show_word (healthy_threshold a) @ ''/'' @
                show_word (unhealthy_threshold a)
           else ''    '' @ pad10 (dim ''active:'') @ '' '' @ escape # ''[31moff'' @ escape # ''[0m''),
          ''    '' @ pad10 (dim ''passive:'') @ '' failures='' @ show_word (failure_threshold p) @ '' successes='' @
          show_word (success_threshold p)])"

definition print_config_summary :: "string \<Rightarrow> 'u url_ops \<Rightarrow> 'u proxy_config \<Rightarrow> string list" where
  "print_config_summary version U c =
     [''  '' @ green check_mark @ '' upstreamer v'' @ version @ '' '' @ em_dash @ '' '' @ green ''configuration valid'',
      [],
      ''  '' @ dim ''listen:'' @ '' '' @ show_socket_addr (listen c),
      ''  '' @ dim ''metrics:'' @ '' '' @ show_socket_addr (metrics_addr c),
      [],
      ''  '' @ dim ''routes:'' @ '' '' @ show_nat (length (routes c))] @
     routes_lines U 0 (routes c) @
     (case ratelimit c of None \<Rightarrow> []
      | Some rl \<Rightarrow> [[], ''  '' @ dim ''ratelimit:'' @ '' '' @ show_word (rl_rate rl) @ ''/s burst='' @ show_word (rl_burst rl)]) @
     health_lines (health c) @
     (case kubernetes c of None \<Rightarrow> []
      | Some k \<Rightarrow>
          [[], ''  '' @ dim ''kubernetes:'' @ '' ns='' @ (case namespace k of Some ns \<Rightarrow> ns | None \<Rightarrow> ''default'') @
           '' selector='' @ (case label_selector k of Some ls \<Rightarrow> ls | None \<Rightarrow> ''(none)'')]) @
     (case cfg_error_pages c of None \<Rightarrow> []
      | Some ep \<Rightarrow>
          [[], ''  '' @ dim ''error_pages:'' @ '' '' @ directory ep] @
          map (\<lambda>page. ''    '' @ show_word (page_code page) @ '' '' @ right_arrow @ '' '' @ page_file page) (ep_pages ep))"


section \<open>What the summary lists\<close>

definition all_origins :: "'u proxy_config \<Rightarrow> 'u origin_config list" where
  "all_origins c = concat (map (\<lambda>r. concat (map pl_origins (pools r))) (routes c))"

text \<open>Origins are the lines indented by six spaces.\<close>

definition is_origin_line :: "string \<Rightarrow> bool" where
  "is_origin_line l \<longleftrightarrow> starts_with l ''      ''"

abbreviation origins_of :: "string list \<Rightarrow> string list" where
  "origins_of \<equiv> filter is_origin_line"

lemma show_word_Cons:
  obtains d ds where "show_word w = d # ds" and "d \<noteq> CHR '' ''"
proof (cases "show_word w")
  case Nil
  then show ?thesis by (simp add: show_word_def)
next
  case (Cons d ds)
  then have "is_digit d" using show_nat_digits [of "unat w"] by (simp add: show_word_def)
  then have "d \<noteq> CHR '' ''" by (auto simp: is_digit_def)
  with Cons show ?thesis by (rule that)
qed

lemma is_origin_line_simps [simp]:
  "\<not> is_origin_line []"
  "is_origin_line (CHR '' '' # CHR '' '' # CHR '' '' # CHR '' '' # CHR '' '' # CHR '' '' # s)"
  "\<not> is_origin_line (CHR '' '' # CHR '' '' # dim s)"
  "\<not> is_origin_line (CHR '' '' # CHR '' '' # dim s @ t)"
  "\<not> is_origin_line (CHR '' '' # CHR '' '' # green s @ t)"
  "\<not> is_origin_line (CHR '' '' # CHR '' '' # CHR '' '' # CHR '' '' # pad10 (dim s) @ t)"
  by (simp_all add: is_origin_line_def starts_with_def dim_def green_def escape_def pad10_def)

lemma is_origin_line_page [simp]:
  "\<not> is_origin_line (CHR '' '' # CHR '' '' # CHR '' '' # CHR '' '' # show_word w @ t)"
  by (rule show_word_Cons [of w]) (simp add: is_origin_line_def starts_with_def)

lemma origins_of_pool: "origins_of (pool_lines U p) = map (origin_line U) (pl_origins p)"
  by (simp add: pool_lines_def origin_line_def filter_map comp_def)

lemma origins_of_pools:
  "origins_of (concat (map (pool_lines U) ps)) = map (origin_line U) (concat (map pl_origins ps))"
  by (induction ps) (simp_all add: origins_of_pool)

lemma origins_of_route:
  "origins_of (route_lines U i r) = map (origin_line U) (concat (map pl_origins (pools r)))"
  by (simp add: route_lines_def Let_def origins_of_pools split: option.split)

lemma origins_of_routes:
  "origins_of (routes_lines U i rs) =
     map (origin_line U) (concat (map (\<lambda>r. concat (map pl_origins (pools r))) rs))"
  by (induction rs arbitrary: i) (simp_all add: origins_of_route)

lemma origins_of_health: "origins_of (health_lines h) = []"
  by (simp add: health_lines_def Let_def)

text \<open>
  The summary lists every configured origin once, in the order of the configuration, each with
  its URL and weight; no other line has the indentation of an origin.
\<close>

theorem summary_lists_origins:
  "filter is_origin_line (print_config_summary version U c) = map (origin_line U) (all_origins c)"
  by (simp add: print_config_summary_def origins_of_routes origins_of_health all_origins_def filter_map comp_def
      split: option.split)

end
