(* ===== verification/Process.thy ===== *)
theory Process
  imports Concurrent Metrics Cli
begin

text \<open>
  The process around the shared state: the connections of \<open>src/src/server.rs\<close> and
  \<open>src/src/health/checker.rs\<close>, and the start-up of \<open>src/src/bin/upstreamer/main.rs\<close>. What the
  sockets deliver is a sequence of events; how \<open>hyper\<close> serves a connection is a parameter with a
  contract.
\<close>

section \<open>A connection\<close>

text \<open>What varies from one request to the next besides the request.\<close>

record request_env =
  env_latency :: duration
  env_clock :: "nat \<Rightarrow> instant"
  env_rng :: rng

definition handle_in ::
  "'u url_ops \<Rightarrow> http_ops \<Rightarrow> (out_request \<Rightarrow> string + response) \<Rightarrow> ip_addr \<Rightarrow> request_env \<times> request
     \<Rightarrow> 'u app_state \<Rightarrow> (proxy_error + response) \<times> 'u app_state" where
  "handle_in U H send ip er s =
     (case er of (e, req) \<Rightarrow> handle_request U H send (env_latency e) (env_clock e) (env_rng e) ip req s)"

text \<open>
  \<open>serve_connection\<close> of \<open>hyper\<close> is not part of the repository: it is given a service and the requests
  of the client, and yields the responses it has written, the error it returned if any, and the
  state. What \<open>handle_connection\<close> relies on is the locale: the requests of a connection go to the
  service one after the other, a response is written, and an error of the service is returned
  instead, which ends the connection.
\<close>

locale http1_server =
  fixes serve :: "('a \<Rightarrow> 's \<Rightarrow> ('e + 'r) \<times> 's) \<Rightarrow> 'a list \<Rightarrow> 's \<Rightarrow> 'r list \<times> 'e option \<times> 's"
  assumes serve_end: "serve h [] s = ([], None, s)"
    and serve_error: "h a s = (Inl e, s1) \<Longrightarrow> serve h (a # as) s = ([], Some e, s1)"
    and serve_response: "h a s = (Inr r, s1) \<Longrightarrow> serve h as s1 = (rs, err, s2) \<Longrightarrow>
      serve h (a # as) s = (r # rs, err, s2)"
begin

lemma serve_invariant:
  assumes "\<And>a s. P s \<Longrightarrow> P (snd (h a s))" and "P s"
  shows "P (snd (snd (serve h as s)))"
  using assms(2)
proof (induction as arbitrary: s)
  case (Cons a as)
  obtain v s1 where h: "h a s = (v, s1)" by force
  with assms(1) [OF Cons.prems, of a] have "P s1" by simp
  with Cons.IH [of s1] h show ?case
    by (cases v; cases "serve h as s1") (auto simp: serve_error dest: serve_response)
qed (simp add: serve_end)

lemma serve_up_to_error:
  assumes "serve h xs s = (rs, None, s1)" and "h a s1 = (Inl e, s2)"
  shows "length rs = length xs \<and> serve h (xs @ a # ys) s = (rs, Some e, s2)"
  using assms(1)
proof (induction xs arbitrary: s rs)
  case Nil
  with assms(2) show ?case by (simp add: serve_end serve_error)
next
  case (Cons x xs)
  obtain v s' where h: "h x s = (v, s')" by force
  obtain rs' err s'' where rest: "serve h xs s' = (rs', err, s'')" by (metis prod_cases3)
  show ?case
  proof (cases v)
    case (Inl e')
    with Cons.prems h show ?thesis by (simp add: serve_error)
  next
    case (Inr r)
    with serve_response [of h x s r s', OF _ rest] h Cons.prems
    have eq: "rs = r # rs'" "err = None" "s'' = s1" by simp_all
    with Cons.IH [of s' rs'] rest have IH: "length rs' = length xs" "serve h (xs @ a # ys) s' = (rs', Some e, s2)" by auto
    from serve_response [of h x s r s', OF _ IH(2)] h Inr eq(1) IH(1) show ?thesis by simp
  qed
qed

end

text \<open>A server that meets the contract.\<close>

fun serve_in_order :: "('a \<Rightarrow> 's \<Rightarrow> ('e + 'r) \<times> 's) \<Rightarrow> 'a list \<Rightarrow> 's \<Rightarrow> 'r list \<times> 'e option \<times> 's" where
  "serve_in_order h [] s = ([], None, s)"
| "serve_in_order h (a # as) s =
     (case h a s of
        (Inl e, s1) \<Rightarrow> ([], Some e, s1)
      | (Inr r, s1) \<Rightarrow> (let (rs, err, s2) = serve_in_order h as s1 in (r # rs, err, s2)))"

interpretation in_order: http1_server serve_in_order
  by unfold_locales auto

text \<open>The service closure calls \<open>handle_request\<close>; the error of \<open>serve_connection\<close> is passed on by \<open>?\<close>.\<close>

definition handle_connection ::
  "((request_env \<times> request \<Rightarrow> 'u app_state \<Rightarrow> (proxy_error + response) \<times> 'u app_state)
      \<Rightarrow> (request_env \<times> request) list \<Rightarrow> 'u app_state \<Rightarrow> response list \<times> proxy_error option \<times> 'u app_state)
     \<Rightarrow> 'u url_ops \<Rightarrow> http_ops \<Rightarrow> (out_request \<Rightarrow> string + response) \<Rightarrow> ip_addr \<Rightarrow> (request_env \<times> request) list
     \<Rightarrow> 'u app_state \<Rightarrow> response list \<times> (proxy_error + unit) \<times> 'u app_state" where
  "handle_connection serve U H send ip ers s =
     (case serve (handle_in U H send ip) ers s of
        (resps, Some e, s1) \<Rightarrow> (resps, Inl e, s1)
      | (resps, None, s1) \<Rightarrow> (resps, Inr (), s1))"

lemma handle_connection_ok:
  assumes "http1_server serve" and "app_ok U s"
  shows "app_ok U (snd (snd (handle_connection serve U H send ip ers s)))"
proof -
  have "app_ok U (snd (snd (serve (handle_in U H send ip) ers s)))"
    by (rule http1_server.serve_invariant [OF assms(1)])
       (auto simp: handle_in_def handle_request_ok assms(2) split: prod.split)
  then show ?thesis by (auto simp: handle_connection_def split: prod.split option.split)
qed

text \<open>The origin cannot be reached: every request sent under its base URL fails.\<close>

definition unreachable :: "(out_request \<Rightarrow> string + response) \<Rightarrow> 'u origin_endpoint \<Rightarrow> bool" where
  "unreachable send og \<longleftrightarrow> (\<forall>r path. out_uri r = url_base og @ path \<longrightarrow> (\<exists>m. send r = Inl m))"

lemma unreachable_fails:
  assumes "unreachable send og"
  obtains e where "proxy_request U H send req og = Inl e"
proof -
  have "\<exists>m. send \<lparr>out_method = rq_method req, out_uri = url_base og @ path, out_headers = hs, out_body = b\<rparr> = Inl m"
    for path hs b
    using assms by (simp add: unreachable_def)
  then have "\<exists>e. proxy_request U H send req og = Inl e"
    by (auto simp: proxy_request_def Let_def split: sum.splits) (metis Inl_Inr_False)+
  with that show thesis by blast
qed

text \<open>
  C26. A request that is admitted and given an origin that cannot be reached gets no response, not even
  a 502: the requests before it on the connection have been answered, one response each, the
  connection ends with an error, and those after it are never looked at. The failure is counted
  against the origin.
\<close>

theorem unreachable_origin_closes_connection:
  assumes "http1_server serve" and "app_ok U s" and "rng_ok (env_rng e)"
    and "handle_connection serve U H send ip earlier s = (resps, Inr (), s1)"
    and "admit U H (env_clock e) (env_rng e) ip req s1 = (Forward og, s2)" and "unreachable send og"
  shows "length resps = length earlier \<and>
    (\<exists>err s3 os. handle_connection serve U H send ip (earlier @ (e, req) # later) s = (resps, Inl err, s3) \<and>
       store_get (origin_states s1) (url_key og) = Some os \<and>
       map_option total_failures (store_get (origin_states s3) (url_key og)) = Some (total_failures os + 1))"
proof -
  have served: "serve (handle_in U H send ip) earlier s = (resps, None, s1)"
    using assms(4) by (auto simp: handle_connection_def split: prod.splits option.splits)
  have ok: "app_ok U s1" using handle_connection_ok [OF assms(1,2), of H send ip earlier] assms(4) by simp
  obtain os where os: "store_get (origin_states s1) (url_key og) = Some os"
    using admit_Forward [OF ok assms(3,5)] by blast
  obtain err where err: "proxy_request U H send req og = Inl err" using unreachable_fails [OF assms(6)] .
  define s3 where "s3 = finish_request (env_latency e) (url_key og) (Inl err) s2"
  have "handle_in U H send ip (e, req) s1 = (Inl err, s3)"
    by (simp add: handle_in_def handle_request_Forward [OF assms(5)] err s3_def)
  note closed = http1_server.serve_up_to_error [OF assms(1) served this, of later]
  have "store_get (origin_states s2) (url_key og) = Some os" using admit_limits(1) [OF assms(5)] os by simp
  then have "map_option total_failures (store_get (origin_states s3) (url_key og)) = Some (total_failures os + 1)"
    by (simp add: s3_def finish_request_get record_outcome_eq outcome_failed_def health_simps)
  with closed os show ?thesis by (auto simp: handle_connection_def)
qed

section \<open>The two servers\<close>

text \<open>\<open>Accepted ip nodelay_ok\<close>: a connection, and whether \<open>set_nodelay\<close> succeeded on it.\<close>

datatype accept_event = Accepted ip_addr bool | AcceptError

text \<open>The connections spawned, and whether the loop is still running.\<close>

fun proxy_loop :: "accept_event list \<Rightarrow> ip_addr list \<times> bool" where
  "proxy_loop [] = ([], True)"
| "proxy_loop (AcceptError # es) = ([], False)"
| "proxy_loop (Accepted ip nodelay_ok # es) =
     (if \<not> nodelay_ok then ([], False)
      else (let (ips, running) = proxy_loop es in (ip # ips, running)))"

definition run_proxy :: "bool \<Rightarrow> accept_event list \<Rightarrow> ip_addr list \<times> bool" where
  "run_proxy bind_ok es = (if bind_ok then proxy_loop es else ([], False))"

text \<open>The health server does not set the option and ignores how its connections end.\<close>

fun health_loop :: "accept_event list \<Rightarrow> ip_addr list \<times> bool" where
  "health_loop [] = ([], True)"
| "health_loop (AcceptError # es) = ([], False)"
| "health_loop (Accepted ip nodelay_ok # es) =
     (let (ips, running) = health_loop es in (ip # ips, running))"

definition run_health_server :: "bool \<Rightarrow> accept_event list \<Rightarrow> ip_addr list \<times> bool" where
  "run_health_server bind_ok es = (if bind_ok then health_loop es else ([], False))"

text \<open>
  Both under \<open>select!\<close>: the events of the two listeners in the order they occur. The process
  ends when either loop does.
\<close>

datatype server_event = OnProxy accept_event | OnHealth accept_event

fun select_servers :: "server_event list \<Rightarrow> server_event list \<times> bool" where
  "select_servers [] = ([], True)"
| "select_servers (OnProxy e # es) =
     (if snd (proxy_loop [e]) then (let (served, running) = select_servers es in (OnProxy e # served, running))
      else ([], False))"
| "select_servers (OnHealth e # es) =
     (if snd (health_loop [e]) then (let (served, running) = select_servers es in (OnHealth e # served, running))
      else ([], False))"

fun event_fails :: "server_event \<Rightarrow> bool" where
  "event_fails (OnProxy e) = (case e of AcceptError \<Rightarrow> True | Accepted ip nodelay_ok \<Rightarrow> \<not> nodelay_ok)"
| "event_fails (OnHealth e) = (case e of AcceptError \<Rightarrow> True | Accepted ip nodelay_ok \<Rightarrow> False)"

text \<open>
  Every connection is served as long as nothing goes wrong, and the first failing \<open>accept\<close>
  on either port, or \<open>set_nodelay\<close> on the proxy port, ends the whole process: what is served is
  exactly the events before it.
\<close>

theorem accept_error_ends_process:
  "select_servers es = (takeWhile (\<lambda>e. \<not> event_fails e) es, list_all (\<lambda>e. \<not> event_fails e) es)"
proof (induction es)
  case (Cons e es)
  then show ?case by (cases e) (auto split: accept_event.splits)
qed simp

lemma select_servers_proxy:
  "list_all (\<lambda>e. case e of OnProxy _ \<Rightarrow> True | OnHealth _ \<Rightarrow> False) es \<Longrightarrow>
     snd (select_servers es) = snd (proxy_loop (map (\<lambda>e. case e of OnProxy a \<Rightarrow> a | OnHealth a \<Rightarrow> a) es))"
proof (induction es)
  case (Cons e es)
  then obtain a where "e = OnProxy a" by (cases e) auto
  with Cons show ?case by (cases a) (auto split: prod.splits)
qed simp

section \<open>Start-up\<close>

record args =
  arg_config :: string
  arg_validate :: bool
  arg_log_level :: string

datatype task = CleanupTask | ActiveChecksTask | SelfMetricsTask | DiscoveryTask | WatcherTask
  | ProxyServerTask | HealthServerTask

datatype 'u main_outcome =
    LoadFailed string
  | ConfigInvalid config_error
  | SummaryPrinted "string list"
  | Serving "'u app_state" "task list"

definition spawned_tasks :: "'u proxy_config \<Rightarrow> task list" where
  "spawned_tasks c = [CleanupTask] @
     (if ah_enabled (hc_active (health c)) then [ActiveChecksTask] else []) @
     [SelfMetricsTask] @
     (if kubernetes c \<noteq> None then [DiscoveryTask] else []) @
     [WatcherTask, ProxyServerTask, HealthServerTask]"

definition main ::
  "string \<Rightarrow> 'u url_ops \<Rightarrow> (string \<Rightarrow> string option) \<Rightarrow> (string \<Rightarrow> 'u proxy_config option) \<Rightarrow> (string \<Rightarrow> bool)
     \<Rightarrow> (string \<Rightarrow> bytes option) \<Rightarrow> args \<Rightarrow> 'u main_outcome" where
  "main version U read from_str path_exists read_file a =
     (case load read from_str (arg_config a) of
        Inl e \<Rightarrow> LoadFailed e
      | Inr c \<Rightarrow>
          (case validate U path_exists c of
             Inl e \<Rightarrow> ConfigInvalid e
           | Inr _ \<Rightarrow>
               if arg_validate a then SummaryPrinted (print_config_summary version U c)
               else Serving (app_new U read_file c) (spawned_tasks c)))"

lemma main_Serving:
  "main version U read from_str path_exists read_file a = Serving s ts \<longleftrightarrow>
     (\<exists>c. load read from_str (arg_config a) = Inr c \<and> config_ok U path_exists c \<and> \<not> arg_validate a \<and>
        s = app_new U read_file c \<and> ts = spawned_tasks c)"
  by (auto simp: main_def split: sum.splits simp flip: validate_ok_iff)

lemma spawned_tasks_set:
  "set (spawned_tasks c) = {CleanupTask, SelfMetricsTask, WatcherTask, ProxyServerTask, HealthServerTask} \<union>
     (if ah_enabled (hc_active (health c)) then {ActiveChecksTask} else {}) \<union>
     (if kubernetes c = None then {} else {DiscoveryTask})"
  by (auto simp: spawned_tasks_def)

text \<open>
  C24. The process serves exactly the valid configurations: it starts only when the file loads,
  is well formed and \<open>--validate\<close> was not given; then its state is well formed, the proxy and the
  health server always run, and the checker and the discovery run when configured.
\<close>

theorem serves_only_valid_configurations:
  assumes "main version U read from_str path_exists read_file a = Serving s ts"
  shows "load read from_str (arg_config a) = Inr (config s) \<and> config_ok U path_exists (config s) \<and>
    \<not> arg_validate a \<and> app_ok U s \<and> {ProxyServerTask, HealthServerTask} \<subseteq> set ts \<and>
    (ActiveChecksTask \<in> set ts \<longleftrightarrow> checker_start U s \<noteq> None) \<and>
    (DiscoveryTask \<in> set ts \<longleftrightarrow> kubernetes (config s) \<noteq> None)"
proof -
  obtain c where c: "load read from_str (arg_config a) = Inr c" "config_ok U path_exists c" "\<not> arg_validate a"
    "s = app_new U read_file c" "ts = spawned_tasks c"
    using assms by (auto simp: main_Serving)
  moreover from c(4) have "config s = c" by (simp add: app_new_def)
  ultimately show ?thesis by (simp add: app_new_ok spawned_tasks_set checker_start_def Let_def)
qed

text \<open>
  \<open>--validate\<close> is a dry run: with it the process prints the summary of the loaded configuration
  exactly when it would start without it, and fails with the same error otherwise.
\<close>

theorem validate_is_a_dry_run:
  "main version U read from_str path_exists read_file (a\<lparr>arg_validate := True\<rparr>) =
     (case main version U read from_str path_exists read_file (a\<lparr>arg_validate := False\<rparr>) of
        Serving s ts \<Rightarrow> SummaryPrinted (print_config_summary version U (config s))
      | outcome \<Rightarrow> outcome)"
  by (simp add: main_def app_new_def split: sum.split)

section \<open>The metrics thread\<close>

text \<open>What a pass of the collector reads besides the shared state.\<close>

record readings =
  rd_statm :: "string option"
  rd_page_size :: u64
  rd_fd_count :: "nat option"
  rd_stat :: "string option"
  rd_clk_tck :: u64

text \<open>\<open>spawn_self_metrics\<close>: the thread sleeps and collects for ever; the states are those it finds.\<close>

fun self_metrics :: "(readings \<times> 'u app_state) list \<Rightarrow> gauges list" where
  "self_metrics [] = []"
| "self_metrics ((rd, s) # passes) =
     collect (rd_statm rd) (rd_page_size rd) (rd_fd_count rd) (rd_stat rd) (rd_clk_tck rd) s # self_metrics passes"

lemma csteps_known_mono: "csteps U H S S' \<Longrightarrow> known S \<subseteq> known S'"
  by (induction rule: rtranclp_induct) (auto dest: csteps_known)

lemma total_origins_known:
  assumes "csteps U H (cc_start U read_file c) S" and "store_len (origin_states (cc_app S)) < 2 ^ 53"
  shows "total_origins (collect statm page_size fd_count stat clk_tck (cc_app S)) = of_nat (card (known S))"
proof -
  have "store_ok (origin_states (cc_app S))"
    using csteps_ok [OF assms(1) cc_start_ok] by (simp add: cc_ok_def)
  with assms(2) show ?thesis by (simp add: collect_def u64_as_f64_of_nat store_len_card known_def)
qed

text \<open>
  C39. The proxy never forgets an origin: along every schedule, reloads that remove origins
  included, the origins with a record only grow in number, and so does the gauge
  \<open>upstreamer_total_origins\<close> from one pass of the metrics thread to any later one.
\<close>

theorem origins_are_never_forgotten:
  assumes "csteps U H (cc_start U read_file c) S" and "csteps U H S S'"
    and "store_len (origin_states (cc_app S')) < 2 ^ 53"
  shows "dom (store_get (origin_states (cc_app S))) \<subseteq> dom (store_get (origin_states (cc_app S'))) \<and>
    map total_origins (self_metrics [(rd, cc_app S), (rd', cc_app S')]) =
      [of_nat (card (dom (store_get (origin_states (cc_app S))))), of_nat (card (dom (store_get (origin_states (cc_app S')))))] \<and>
    card (dom (store_get (origin_states (cc_app S)))) \<le> card (dom (store_get (origin_states (cc_app S'))))"
proof -
  have run: "csteps U H (cc_start U read_file c) S'" using assms(1,2) by (rule rtranclp_trans)
  have ok: "store_ok (origin_states (cc_app S))" "store_ok (origin_states (cc_app S'))"
    using csteps_ok [OF assms(1) cc_start_ok] csteps_ok [OF run cc_start_ok] by (simp_all add: cc_ok_def)
  have sub: "known S \<subseteq> known S'" using assms(2) by (rule csteps_known_mono)
  moreover have "finite (known S')" by (simp add: known_def store_get_def [abs_def] finite_dom_map_of)
  ultimately have card: "card (known S) \<le> card (known S')" by (rule card_mono [rotated])
  then have "store_len (origin_states (cc_app S)) < 2 ^ 53"
    using assms(3) ok by (simp add: store_len_card known_def)
  from total_origins_known [OF assms(1) this] total_origins_known [OF run assms(3)] sub card show ?thesis
    by (simp add: known_def)
qed

section \<open>Witnesses\<close>

definition sample_env :: request_env where
  "sample_env = \<lparr>env_latency = 5, env_clock = (\<lambda>_. 0), env_rng = sample_rng\<rparr>"

lemma unreachable_origin_closes_connection_witness:
  "\<exists>err s3. handle_connection serve_in_order sample_urls sample_http (\<lambda>_. Inl ''refused'') (IpV4 7)
     ([] @ (sample_env, sample_get) # [(sample_env, sample_get)]) sample_app = ([], Inl err, s3) \<and>
     map_option total_failures (store_get (origin_states s3) ''http://a/'') = Some 1"
proof -
  have idle: "handle_connection serve_in_order sample_urls sample_http (\<lambda>_. Inl ''refused'') (IpV4 7) [] sample_app
      = ([], Inr (), sample_app)"
    by (simp add: handle_connection_def)
  have rng: "rng_ok (env_rng sample_env)" by (simp add: sample_env_def sample_rng_ok)
  have "store_get (origin_states sample_app) ''http://a/'' = Some new_origin_state"
    by (simp add: sample_app_one_origin one_origin_def store_get_def)
  moreover have "url_key sample_endpoint_a = ''http://a/''" by (simp add: sample_endpoint_a_def route_simps)
  moreover have "unreachable (\<lambda>_. Inl ''refused'') sample_endpoint_a" by (simp add: unreachable_def)
  ultimately show ?thesis
    using unreachable_origin_closes_connection [OF in_order.http1_server_axioms sample_app_ok rng idle sample_app_admit,
        where later = "[(sample_env, sample_get)]" and req = sample_get]
    by (auto simp: new_origin_state_def)
qed

lemma serves_only_valid_configurations_witness:
  "\<exists>s. main ''0.1.0'' sample_urls (\<lambda>_. Some ''new'') (\<lambda>_. Some sample_new_config) (\<lambda>_. True) (\<lambda>_. None)
     \<lparr>arg_config = ''c.toml'', arg_validate = False, arg_log_level = ''info''\<rparr> =
     Serving s [CleanupTask, ActiveChecksTask, SelfMetricsTask, WatcherTask, ProxyServerTask, HealthServerTask] \<and>
     app_ok sample_urls s"
proof -
  have "main ''0.1.0'' sample_urls (\<lambda>_. Some ''new'') (\<lambda>_. Some sample_new_config) (\<lambda>_. True) (\<lambda>_. None)
     \<lparr>arg_config = ''c.toml'', arg_validate = False, arg_log_level = ''info''\<rparr> =
     Serving (app_new sample_urls (\<lambda>_. None) sample_new_config)
       [CleanupTask, ActiveChecksTask, SelfMetricsTask, WatcherTask, ProxyServerTask, HealthServerTask]"
    by (simp add: main_def sample_load sample_new_config_valid)
       (simp add: spawned_tasks_def sample_new_config_def sample_config_def default_health_def default_active_health_def)
  from serves_only_valid_configurations [OF this] this show ?thesis by blast
qed

lemma origins_are_never_forgotten_witness:
  "let s = cc_app (cc_start sample_urls (\<lambda>_. None) (sample_config [sample_route None None [''http://a/'']]));
       s' = apply_config sample_urls sample_new_config s
   in dom (store_get (origin_states s)) \<subseteq> dom (store_get (origin_states s')) \<and> config_urls (config s') = [''http://b/'']"
proof -
  define S where "S = cc_start sample_urls (\<lambda>_. None) (sample_config [sample_route None None [''http://a/'']])"
  define S' where "S' = S\<lparr>cc_app := apply_config sample_urls sample_new_config (cc_app S), cc_reload := []\<rparr>"
  have "cstep sample_urls sample_http S (S\<lparr>cc_reload := reload_program sample_urls sample_new_config\<rparr>)"
    by (rule cc_load [OF _ sample_load sample_new_config_valid]) (simp add: S_def cc_start_def)
  moreover have "csteps sample_urls sample_http (S\<lparr>cc_reload := reload_program sample_urls sample_new_config\<rparr>) S'"
    using run_reload_ops [of "S\<lparr>cc_reload := reload_program sample_urls sample_new_config\<rparr>"
        "reload_program sample_urls sample_new_config" sample_urls sample_http]
    by (simp add: S'_def run_reload_program)
  ultimately have "csteps sample_urls sample_http S S'" by (rule converse_rtranclp_into_rtranclp)
  moreover have "store_len (origin_states (cc_app S')) < 2 ^ 53" unfolding S'_def S_def by simp code_simp
  ultimately have "dom (store_get (origin_states (cc_app S))) \<subseteq> dom (store_get (origin_states (cc_app S')))"
    using origins_are_never_forgotten [OF _ _ , of sample_urls sample_http "\<lambda>_. None"] unfolding S_def by blast
  moreover have "config_urls (config (cc_app S')) = [''http://b/'']" unfolding S'_def S_def by simp code_simp
  ultimately show ?thesis by (simp add: S_def S'_def)
qed

end
