(* ===== verification/Atomics.thy ===== *)
theory Atomics
  imports Balance "HOL-Library.Multiset"
begin

text \<open>
  \<open>src/src/balance/mod.rs\<close> once more, at the granularity of its atomics: a call of a recording
  method is a thread with a program counter, each load, store or \<open>fetch_add\<close> is one step, and a
  schedule says whose step is next. All operations are \<open>Relaxed\<close>, but each counter is only read
  by the \<open>fetch_add\<close> that changes it, so one order of the steps of all fields describes a run.
  Run alone a thread is the method of theory \<open>Balance\<close>; interleaved, the totals stay exact while
  the streaks need not.
\<close>

section \<open>Threads\<close>

text \<open>
  The point a call has reached, with its threshold and, once taken, the value of its
  \<open>fetch_add\<close> plus one.
\<close>

datatype call_point =
    SuccessStart u32 | SuccessAdded u32 u32 | SuccessReset u32 u32
  | FailureStart u32 | FailureAdded u32 u32 | FailureReset u32 u32 | FailureCounted u32 u32
  | RequestStart
  | Returned

fun call_step :: "call_point \<Rightarrow> origin_state \<Rightarrow> call_point \<times> origin_state" where
  "call_step (SuccessStart t) s =
     (SuccessAdded t (consecutive_successes s + 1), s\<lparr>consecutive_successes := consecutive_successes s + 1\<rparr>)"
| "call_step (SuccessAdded t n) s = (SuccessReset t n, s\<lparr>consecutive_failures := 0\<rparr>)"
| "call_step (SuccessReset t n) s = (Returned, if t \<le> n then s\<lparr>healthy := True\<rparr> else s)"
| "call_step (FailureStart t) s =
     (FailureAdded t (consecutive_failures s + 1), s\<lparr>consecutive_failures := consecutive_failures s + 1\<rparr>)"
| "call_step (FailureAdded t n) s = (FailureReset t n, s\<lparr>consecutive_successes := 0\<rparr>)"
| "call_step (FailureReset t n) s = (FailureCounted t n, s\<lparr>total_failures := total_failures s + 1\<rparr>)"
| "call_step (FailureCounted t n) s = (Returned, if t \<le> n then s\<lparr>healthy := False\<rparr> else s)"
| "call_step RequestStart s = (Returned, s\<lparr>total_requests := total_requests s + 1\<rparr>)"
| "call_step Returned s = (Returned, s)"

text \<open>A schedule: the threads in the order of their steps; an index out of range is idle.\<close>

fun run_schedule :: "nat list \<Rightarrow> call_point list \<Rightarrow> origin_state \<Rightarrow> call_point list \<times> origin_state" where
  "run_schedule [] ts s = (ts, s)"
| "run_schedule (i # is) ts s =
     (if i < length ts
      then (let (p, s') = call_step (ts ! i) s in run_schedule is (ts[i := p]) s')
      else run_schedule is ts s)"

text \<open>How many steps a call has left.\<close>

fun steps_left :: "call_point \<Rightarrow> nat" where
  "steps_left (SuccessStart t) = 3" | "steps_left (SuccessAdded t n) = 2" | "steps_left (SuccessReset t n) = 1"
| "steps_left (FailureStart t) = 4" | "steps_left (FailureAdded t n) = 3" | "steps_left (FailureReset t n) = 2"
| "steps_left (FailureCounted t n) = 1" | "steps_left RequestStart = 1" | "steps_left Returned = 0"

section \<open>A thread alone is the method\<close>

lemma run_schedule_append:
  "run_schedule (is @ js) ts s = (let (ts', s') = run_schedule is ts s in run_schedule js ts' s')"
  by (induction "is" ts s rule: run_schedule.induct) (auto split: prod.splits)

lemma run_schedule_length [simp]: "length (fst (run_schedule is ts s)) = length ts"
  by (induction "is" ts s rule: run_schedule.induct) (auto split: prod.splits)

text \<open>What calling the methods one after the other does.\<close>

fun call_effect :: "call_point \<Rightarrow> origin_state \<Rightarrow> origin_state" where
  "call_effect (SuccessStart t) s = record_success_with_threshold t s"
| "call_effect (FailureStart t) s = record_failure_with_threshold t s"
| "call_effect RequestStart s = increment_requests s"
| "call_effect _ s = s"

fun call_fresh :: "call_point \<Rightarrow> bool" where
  "call_fresh (SuccessStart t) = True" | "call_fresh (FailureStart t) = True" | "call_fresh RequestStart = True"
| "call_fresh _ = False"

lemma run_alone:
  assumes "i < length ts" and "call_fresh (ts ! i)"
  shows "run_schedule (replicate (steps_left (ts ! i)) i) ts s = (ts[i := Returned], call_effect (ts ! i) s)"
  using assms
  by (cases "ts ! i")
     (auto simp: numeral_eq_Suc record_success_with_threshold_def record_failure_with_threshold_def
       increment_requests_def Let_def)

definition serial_schedule :: "call_point list \<Rightarrow> nat list \<Rightarrow> nat list" where
  "serial_schedule ts order = concat (map (\<lambda>i. replicate (steps_left (ts ! i)) i) order)"

lemma update_other: "i \<notin> A \<Longrightarrow> x \<in> A \<Longrightarrow> ts[i := p] ! x = ts ! x"
  by (cases "x = i") auto

lemma serial_schedule_update:
  "i \<notin> set order \<Longrightarrow> serial_schedule (ts[i := p]) order = serial_schedule ts order"
  unfolding serial_schedule_def by (intro arg_cong [where f = concat] map_cong) (auto simp: update_other)

lemma call_effect_update:
  "i \<notin> set order \<Longrightarrow> fold (\<lambda>j. call_effect (ts[i := p] ! j)) order s = fold (\<lambda>j. call_effect (ts ! j)) order s"
  by (intro fold_cong) (auto simp: fun_eq_iff update_other)

lemma run_serial:
  assumes "distinct order" and "\<forall>i \<in> set order. i < length ts \<and> call_fresh (ts ! i)"
  shows "run_schedule (serial_schedule ts order) ts s =
     (fold (\<lambda>i ts. ts[i := Returned]) order ts, fold (\<lambda>i. call_effect (ts ! i)) order s)"
  using assms
proof (induction order arbitrary: ts s)
  case (Cons i order)
  have i: "i \<notin> set order" "i < length ts" "call_fresh (ts ! i)" using Cons.prems by auto
  have "\<forall>j \<in> set order. j < length (ts[i := Returned]) \<and> call_fresh (ts[i := Returned] ! j)"
    using Cons.prems i by (auto simp: update_other [OF i(1)])
  with Cons.IH [of "ts[i := Returned]" "call_effect (ts ! i) s"] Cons.prems(1)
  have "run_schedule (serial_schedule ts order) (ts[i := Returned]) (call_effect (ts ! i) s) =
     (fold (\<lambda>i ts. ts[i := Returned]) order (ts[i := Returned]),
      fold (\<lambda>i. call_effect (ts ! i)) order (call_effect (ts ! i) s))"
    by (simp add: serial_schedule_update [OF i(1)] call_effect_update [OF i(1)])
  moreover have "serial_schedule ts (i # order) = replicate (steps_left (ts ! i)) i @ serial_schedule ts order"
    by (simp add: serial_schedule_def)
  ultimately show ?case by (simp add: run_schedule_append run_alone [OF i(2,3)])
qed (simp add: serial_schedule_def)

text \<open>
  The methods of \<open>Balance\<close> are what the calls do when they do not overlap: scheduled one
  after the other, in any order, the calls change the state as the sequence of methods does.
\<close>

theorem serial_run_is_sequential:
  assumes "distinct order" and "\<forall>i \<in> set order. i < length ts \<and> call_fresh (ts ! i)"
  shows "snd (run_schedule (serial_schedule ts order) ts s) = fold (\<lambda>i. call_effect (ts ! i)) order s"
  using run_serial [OF assms] by simp

section \<open>Progress\<close>

lemma call_step_left: "steps_left (fst (call_step p s)) = steps_left p - 1"
  by (cases p) auto

lemma run_schedule_left:
  "i < length ts \<Longrightarrow> steps_left (fst (run_schedule is ts s) ! i) = steps_left (ts ! i) - count_list is i"
proof (induction "is" ts s rule: run_schedule.induct)
  case (2 j "is" ts s)
  obtain p s' where step: "call_step (ts ! j) s = (p, s')" by force
  then have "steps_left p = steps_left (ts ! j) - 1" using call_step_left [of "ts ! j" s] by simp
  with 2 step show ?case by (auto simp: nth_list_update)
qed simp

lemma steps_left_0: "steps_left p = 0 \<longleftrightarrow> p = Returned"
  by (cases p) auto

lemma steps_left_le: "steps_left p \<le> 4"
  by (cases p) auto

section \<open>Totals\<close>

lemma sum_list_map_update:
  fixes f :: "'a \<Rightarrow> 'b::ab_group_add"
  shows "i < length xs \<Longrightarrow> (\<Sum>x\<leftarrow>xs[i := y]. f x) = (\<Sum>x\<leftarrow>xs. f x) - f (xs ! i) + f y"
  by (induction xs arbitrary: i) (auto simp: nth_Cons split: nat.splits)

fun failure_due :: "call_point \<Rightarrow> u64" where
  "failure_due (FailureStart t) = 1" | "failure_due (FailureAdded t n) = 1" | "failure_due (FailureReset t n) = 1"
| "failure_due _ = 0"

fun request_due :: "call_point \<Rightarrow> u64" where
  "request_due RequestStart = 1"
| "request_due _ = 0"

lemma call_step_totals:
  "total_failures (snd (call_step p s)) + failure_due (fst (call_step p s)) = total_failures s + failure_due p"
  "total_requests (snd (call_step p s)) + request_due (fst (call_step p s)) = total_requests s + request_due p"
  by (cases p; simp)+

lemma run_schedule_total_failures:
  "total_failures (snd (run_schedule is ts s)) + (\<Sum>p\<leftarrow>fst (run_schedule is ts s). failure_due p)
     = total_failures s + (\<Sum>p\<leftarrow>ts. failure_due p)"
proof (induction "is" ts s rule: run_schedule.induct)
  case (2 i "is" ts s)
  obtain p s' where step: "call_step (ts ! i) s = (p, s')" by force
  then have "total_failures s' = total_failures s + failure_due (ts ! i) - failure_due p"
    using call_step_totals(1) [of "ts ! i" s] by (simp add: eq_diff_eq)
  with 2 step show ?case by (auto simp: sum_list_map_update)
qed simp

lemma run_schedule_total_requests:
  "total_requests (snd (run_schedule is ts s)) + (\<Sum>p\<leftarrow>fst (run_schedule is ts s). request_due p)
     = total_requests s + (\<Sum>p\<leftarrow>ts. request_due p)"
proof (induction "is" ts s rule: run_schedule.induct)
  case (2 i "is" ts s)
  obtain p s' where step: "call_step (ts ! i) s = (p, s')" by force
  then have "total_requests s' = total_requests s + request_due (ts ! i) - request_due p"
    using call_step_totals(2) [of "ts ! i" s] by (simp add: eq_diff_eq)
  with 2 step show ?case by (auto simp: sum_list_map_update)
qed simp

lemma sum_due:
  "list_all call_fresh ts \<Longrightarrow> (\<Sum>p\<leftarrow>ts. failure_due p) = of_nat (length (filter (\<lambda>p. failure_due p = 1) ts))"
  "list_all call_fresh ts \<Longrightarrow> (\<Sum>p\<leftarrow>ts. request_due p) = of_nat (length (filter (\<lambda>p. request_due p = 1) ts))"
proof (induction ts)
  case (Cons p ts)
  { case 1 with Cons show ?case by (cases p) auto }
  { case 2 with Cons show ?case by (cases p) auto }
qed simp_all

text \<open>
  C20. No count is lost under any interleaving: once every call has been scheduled often enough
  (four steps suffice), all have returned, and the totals have grown by exactly the numbers of
  failures and of requests recorded, whatever the schedule was.
\<close>

theorem totals_are_exact:
  assumes "list_all call_fresh ts" and "\<forall>i < length ts. 4 \<le> count_list is i"
    and "run_schedule is ts s = (ts', s')"
  shows "list_all (\<lambda>p. p = Returned) ts' \<and>
    total_failures s' = total_failures s + of_nat (length (filter (\<lambda>p. failure_due p = 1) ts)) \<and>
    total_requests s' = total_requests s + of_nat (length (filter (\<lambda>p. request_due p = 1) ts))"
proof -
  have len: "length ts' = length ts" using run_schedule_length [of "is" ts s] assms(3) by simp
  have "ts' ! i = Returned" if "i < length ts" for i
  proof -
    have "steps_left (ts' ! i) = 0"
      using run_schedule_left [OF that, of "is" s] assms(2,3) that steps_left_le [of "ts ! i"] by fastforce
    then show ?thesis by (simp add: steps_left_0)
  qed
  then have all: "ts' = replicate (length ts) Returned" using len by (simp add: list_eq_iff_nth_eq)
  then have "(\<Sum>p\<leftarrow>ts'. failure_due p) = 0" "(\<Sum>p\<leftarrow>ts'. request_due p) = 0"
    by (simp_all add: sum_list_replicate)
  with run_schedule_total_failures [of "is" ts s] run_schedule_total_requests [of "is" ts s] assms(3) all
  show ?thesis by (simp add: sum_due [OF assms(1)] list_all_iff)
qed

section \<open>Streaks\<close>

text \<open>A state one failure short of two before its threshold, and a success racing two failures.\<close>

definition racing_state :: origin_state where
  "racing_state = new_origin_state\<lparr>consecutive_successes := 1, consecutive_failures := 3\<rparr>"

definition racing_calls :: "call_point list" where
  "racing_calls = [SuccessStart 2, FailureStart 5, FailureStart 5]"

text \<open>
  The streaks and the flag are not exact: the success is counted first, both failures run to
  their end and take the origin down, then the success goes on, clears the failures it did not
  see and marks the origin healthy. No order of the three calls leads to that state.
\<close>

theorem stale_success_revives_origin:
  "let s = snd (run_schedule ([0] @ replicate 4 1 @ replicate 4 2 @ [0, 0]) racing_calls racing_state) in
     healthy s \<and> consecutive_failures s = 0 \<and> consecutive_successes s = 0 \<and>
     \<not> healthy (snd (run_schedule ([0] @ replicate 4 1 @ replicate 4 2) racing_calls racing_state)) \<and>
     list_all (\<lambda>order. fold (\<lambda>i. call_effect (racing_calls ! i)) order racing_state \<noteq> s)
       [[0, 1, 2], [0, 2, 1], [1, 0, 2], [2, 0, 1], [1, 2, 0], [2, 1, 0]]"
  by code_simp

section \<open>Witnesses\<close>

lemma serial_run_is_sequential_witness:
  "snd (run_schedule (serial_schedule racing_calls [1, 0, 2]) racing_calls racing_state)
   = fold (\<lambda>i. call_effect (racing_calls ! i)) [1, 0, 2] racing_state"
  by (rule serial_run_is_sequential) (simp_all add: racing_calls_def)

lemma totals_are_exact_witness:
  "total_failures (snd (run_schedule (concat (replicate 4 [0, 1, 2])) racing_calls racing_state)) = 2"
proof -
  obtain ts' s' where run: "run_schedule (concat (replicate 4 [0, 1, 2])) racing_calls racing_state = (ts', s')"
    by force
  have "\<forall>i < length racing_calls. 4 \<le> count_list (concat (replicate 4 [0, 1, 2])) i"
    by (auto simp: racing_calls_def numeral_eq_Suc less_Suc_eq)
  moreover have "list_all call_fresh racing_calls" by (simp add: racing_calls_def)
  ultimately have "total_failures s' = total_failures racing_state
      + of_nat (length (filter (\<lambda>p. failure_due p = 1) racing_calls))"
    using totals_are_exact [OF _ _ run] by blast
  then have "total_failures s' = 2" by (simp add: racing_calls_def racing_state_def new_origin_state_def)
  with run show ?thesis by simp
qed

end
