(* ===== verification/UnitTests.thy ===== *)
theory UnitTests
  imports Cli RateLimit Route
begin

text \<open>
  The unit tests of the repository, run on the model: the \<open>tests\<close> modules of
  \<open>src/src/config/parser.rs\<close>, \<open>src/src/middleware/ratelimit.rs\<close> and \<open>src/src/route.rs\<close>. A test is
  the conjunction of its assertions. A test that reads the clock is a function of the readings:
  \<open>clock i\<close> is the \<open>i\<close>-th before its \<open>sleep\<close>, a further argument gives those after it.
\<close>

definition from_millis :: "nat \<Rightarrow> duration" where
  "from_millis n = n * 1000000"

section \<open>Configuration\<close>

definition test_default_listen :: bool where
  "test_default_listen \<longleftrightarrow> show_socket_addr default_listen = ''0.0.0.0:8080''"

definition test_default_lb_algorithm :: bool where
  "test_default_lb_algorithm \<longleftrightarrow> default_lb_algorithm = RoundRobin"

definition test_validate_empty_route :: "'u url_ops \<Rightarrow> (string \<Rightarrow> bool) \<Rightarrow> bool" where
  "test_validate_empty_route U path_exists \<longleftrightarrow>
     (case validate U path_exists
        \<lparr>listen = default_listen, metrics_addr = default_metrics_addr,
         routes = [\<lparr>match_host = None, match_path = Some ''/'', pools = [], lb_algorithm = RoundRobin,
                    rt_ratelimit = None\<rparr>],
         ratelimit = None, health = default_health, kubernetes = None, cfg_error_pages = None\<rparr> of
        Inl _ \<Rightarrow> True | Inr _ \<Rightarrow> False)"

section \<open>Rate limiter\<close>

definition test_fresh_bucket_allows_requests :: "(nat \<Rightarrow> instant) \<Rightarrow> bool" where
  "test_fresh_bucket_allows_requests clock \<longleftrightarrow>
     (let b = bucket_new 10 5 (clock 0) (clock 1);
          (r, b) = try_consume (clock 2) b
      in r \<and> tokens b = 4)"

definition test_exceeding_burst_rate_limits :: "(nat \<Rightarrow> instant) \<Rightarrow> bool" where
  "test_exceeding_burst_rate_limits clock \<longleftrightarrow>
     (let b = bucket_new 10 2 (clock 0) (clock 1);
          (r1, b) = try_consume (clock 2) b;
          (r2, b) = try_consume (clock 3) b;
          (r3, b) = try_consume (clock 4) b
      in r1 \<and> r2 \<and> \<not> r3)"

definition test_tokens_refill_over_time :: "(nat \<Rightarrow> instant) \<Rightarrow> instant \<Rightarrow> bool" where
  "test_tokens_refill_over_time clock after_sleep \<longleftrightarrow>
     (let b = bucket_new 100 5 (clock 0) (clock 1);
          (rs, b) = consume_run (map clock [2, 3, 4, 5, 6]) b;
          (r6, b) = try_consume (clock 7) b;
          (r7, b) = try_consume after_sleep b
      in list_all (\<lambda>r. r) rs \<and> \<not> r6 \<and> r7)"

definition test_multiple_ips_independent_buckets :: "(nat \<Rightarrow> instant) \<Rightarrow> bool" where
  "test_multiple_ips_independent_buckets clock \<longleftrightarrow>
     (let l = limiter_new 10 2;
          ip1 = IpV4 0x7F000001;
          ip2 = IpV4 0x7F000002;
          (r1, l) = limiter_check clock ip1 l;
          (r2, l) = limiter_check (\<lambda>i. clock (i + 3)) ip1 l;
          (r3, l) = limiter_check (\<lambda>i. clock (i + 4)) ip1 l;
          (r4, l) = limiter_check (\<lambda>i. clock (i + 5)) ip2 l;
          (r5, l) = limiter_check (\<lambda>i. clock (i + 8)) ip2 l;
          (r6, l) = limiter_check (\<lambda>i. clock (i + 9)) ip2 l
      in r1 \<and> r2 \<and> \<not> r3 \<and> r4 \<and> r5 \<and> \<not> r6)"

definition test_cleanup_stale_buckets :: "(nat \<Rightarrow> instant) \<Rightarrow> (ip_addr \<Rightarrow> instant) \<Rightarrow> bool" where
  "test_cleanup_stale_buckets clock after_sleep \<longleftrightarrow>
     (let l = limiter_new 10 5;
          ip1 = IpV4 0x7F000001;
          ip2 = IpV4 0x7F000002;
          l1 = snd (limiter_check clock ip1 l);
          l2 = snd (limiter_check (\<lambda>i. clock (i + 3)) ip2 l1)
      in store_len (buckets l2) = 2 \<and>
         store_len (buckets (cleanup_stale after_sleep (from_millis 20) l2)) = 0)"

definition test_is_stale :: "(nat \<Rightarrow> instant) \<Rightarrow> (nat \<Rightarrow> instant) \<Rightarrow> bool" where
  "test_is_stale clock after_sleep \<longleftrightarrow>
     (let b = bucket_new 10 5 (clock 0) (clock 1)
      in \<not> is_stale (clock 2) (from_secs 1) b \<and>
         is_stale (after_sleep 0) (from_millis 5) b \<and>
         \<not> is_stale (after_sleep 1) (from_millis 20) b)"

section \<open>Router\<close>

definition test_match_glob_exact :: bool where
  "test_match_glob_exact \<longleftrightarrow>
     match_glob ''example.com'' ''example.com'' \<and> \<not> match_glob ''example.com'' ''other.com''"

definition test_match_glob_wildcard :: bool where
  "test_match_glob_wildcard \<longleftrightarrow> match_glob ''example.com'' ''*'' \<and> match_glob ''anything'' ''*''"

definition test_match_glob_pattern :: bool where
  "test_match_glob_pattern \<longleftrightarrow>
     match_glob ''foo.example.com'' ''*.example.com'' \<and>
     match_glob ''bar.example.com'' ''*.example.com'' \<and>
     \<not> match_glob ''example.com'' ''*.example.com'' \<and>
     \<not> match_glob ''foo.other.com'' ''*.example.com''"

definition test_match_route :: "'u url_ops \<Rightarrow> bool" where
  "test_match_route U \<longleftrightarrow>
     (let config =
        \<lparr>listen = \<lparr>sa_ip = IpV4 0, sa_port = 8080\<rparr>, metrics_addr = \<lparr>sa_ip = IpV4 0, sa_port = 9090\<rparr>,
         routes =
           [\<lparr>match_host = Some ''example.com'', match_path = Some ''/api'',
             pools = [\<lparr>pl_name = ''pool1'', pl_origins = []\<rparr>], lb_algorithm = RoundRobin, rt_ratelimit = None\<rparr>,
            \<lparr>match_host = Some ''*.test.com'', match_path = None,
             pools = [\<lparr>pl_name = ''pool2'', pl_origins = []\<rparr>], lb_algorithm = RoundRobin, rt_ratelimit = None\<rparr>],
         ratelimit = None, health = default_health, kubernetes = None, cfg_error_pages = None\<rparr>;
          router = from_config U config
      in match_route router ''example.com'' ''/api/test'' \<noteq> None \<and>
         match_route router ''example.com'' ''/api'' \<noteq> None \<and>
         match_route router ''example.com'' ''/other'' = None \<and>
         match_route router ''foo.test.com'' ''/anything'' \<noteq> None \<and>
         match_route router ''other.com'' ''/api'' = None)"


section \<open>A burst and the request after it\<close>

lemma small_count: "(of_nat k :: rat) < 2 ^ 32 \<Longrightarrow> k \<le> 2 ^ 53"
proof -
  assume "(of_nat k :: rat) < 2 ^ 32"
  then have "(of_nat k :: rat) < of_nat (2 ^ 32)" by simp
  then have "k < 2 ^ 32" by (simp only: of_nat_less_iff)
  also have "(2::nat) ^ 32 \<le> 2 ^ 53" by (rule power_increasing) simp_all
  finally show ?thesis by simp
qed

lemma refilled_ge:
  assumes "bucket_ok rate burst b" and "of_nat k \<le> tokens b"
  shows "of_nat k \<le> refilled now b"
proof -
  have "tokens b < 2 ^ 32" using assms(1) u32_as_f64_less [of burst] by (auto simp: bucket_ok_def)
  with assms(2) have "k \<le> 2 ^ 53" by (intro small_count) simp
  moreover have "of_nat k \<le> tokens b + fl (as_secs_f64 (now - last_refill b) * refill_rate b)"
    using assms by (intro add_increasing2 f64.rnd_nonneg mult_nonneg_nonneg) (auto simp: bucket_ok_def)
  ultimately have "of_nat k \<le> fl (tokens b + fl (as_secs_f64 (now - last_refill b) * refill_rate b))"
    by (intro f64.rnd_ge_nat)
  with assms show ?thesis by (auto simp: refilled_def bucket_ok_def)
qed

lemma try_consume_ge:
  assumes "bucket_ok rate burst b" and "of_nat (Suc k) \<le> tokens b"
  shows "fst (try_consume now b) \<and> of_nat k \<le> tokens (snd (try_consume now b))"
proof -
  have r: "of_nat (Suc k) \<le> refilled now b" using assms by (rule refilled_ge)
  then have one: "1 \<le> refilled now b" by (simp add: order_trans [rotated])
  have "refilled now b < 2 ^ 32"
    using refilled_bounds(2) [OF assms(1)] u32_as_f64_less by (rule le_less_trans)
  with r have "k \<le> 2 ^ 53" by (intro small_count) simp
  with r have "of_nat k \<le> fl (refilled now b - 1)" by (intro f64.rnd_ge_nat) simp_all
  with one show ?thesis by (simp add: try_consume_fields)
qed

lemma consume_run_admits:
  "bucket_ok rate burst b \<Longrightarrow> of_nat (length ts) \<le> tokens b \<Longrightarrow>
     fst (consume_run ts b) = replicate (length ts) True"
proof (induction ts arbitrary: b)
  case (Cons t ts)
  then have "fst (try_consume t b) \<and> of_nat (length ts) \<le> tokens (snd (try_consume t b))"
    by (intro try_consume_ge) simp_all
  with Cons show ?case by (simp add: consume_run_Cons try_consume_ok del: consume_run.simps(2))
qed simp

lemma consume_run_append:
  "consume_run (ts @ us) b =
     (fst (consume_run ts b) @ fst (consume_run us (snd (consume_run ts b))),
      snd (consume_run us (snd (consume_run ts b))))"
  by (induction ts arbitrary: b) (auto split: prod.splits)

lemma length_consume_run [simp]: "length (fst (consume_run ts b)) = length ts"
  by (induction ts arbitrary: b) (simp_all add: consume_run_Cons del: consume_run.simps(2))

text \<open>A full bucket admits its burst and, soon after, nothing more.\<close>

lemma burst_exhausts:
  assumes ok: "bucket_ok rate burst b" and full: "tokens b = of_nat (length ts)"
    and times: "sorted (last_refill b # ts @ [t])"
    and soon: "earned rate (t - last_refill b) + of_nat (Suc (length ts)) * refill_slack < 1"
  shows "fst (consume_run (ts @ [t]) b) = replicate (length ts) True @ [False]"
proof -
  have adm: "fst (consume_run ts b) = replicate (length ts) True"
    using consume_run_admits [OF ok] full by simp
  let ?run = "consume_run (ts @ [t]) b"
  have "0 \<le> tokens (snd ?run)" using consume_run_ok [OF ok] by (simp add: bucket_ok_def)
  with consume_run_account [OF ok times] full soon
  have "(of_nat (n_allowed (fst ?run)) :: rat) < of_nat (Suc (length ts))" by simp
  then have "n_allowed (fst ?run) < Suc (length ts)" by (simp only: of_nat_less_iff)
  then show ?thesis
    by (cases "fst (try_consume t (snd (consume_run ts b)))")
       (auto simp: consume_run_append adm n_allowed_def split: prod.splits)
qed


lemma new_bucket_exhausts:
  assumes "unat burst = length ts" and "sorted (now1 # ts @ [t])"
    and "earned rate (t - now1) + of_nat (Suc (length ts)) * refill_slack < 1"
  shows "fst (consume_run (ts @ [t]) (bucket_new rate burst now1 now2)) = replicate (length ts) True @ [False]"
proof (rule u32_as_f64_exact [of burst])
  fix n :: nat
  assume n: "unat burst = n" "u32_as_f64 burst = of_nat n"
  show ?thesis
    using assms n by (intro burst_exhausts [OF bucket_new_ok]) (simp_all add: bucket_new_def)
qed

section \<open>The tests pass\<close>

lemma earned_soon: "d \<le> 5000000 \<Longrightarrow> unat rate \<le> 100 \<Longrightarrow> earned rate d \<le> 1 / 2"
proof (rule u32_as_f64_exact [of rate])
  fix r :: nat
  assume d: "d \<le> 5000000" "unat rate \<le> 100" and r: "unat rate = r" "u32_as_f64 rate = of_nat r"
  have "(of_nat d :: rat) \<le> 5000000" using d(1) by (metis of_nat_le_iff of_nat_numeral)
  moreover have "(of_nat r :: rat) \<le> 100" using d(2) r(1) by (metis of_nat_le_iff of_nat_numeral)
  ultimately have "of_nat d * of_nat r \<le> (5000000 * 100 :: rat)" by (intro mult_mono) auto
  then show ?thesis by (simp add: earned_def r)
qed

text \<open>The readings before a sleep are in order and taken within five milliseconds.\<close>

definition quick :: "(nat \<Rightarrow> instant) \<Rightarrow> bool" where
  "quick clock \<longleftrightarrow> sorted (map clock [0..<12]) \<and> clock 11 \<le> clock 0 + from_millis 5"

lemma quick_times:
  assumes "quick clock"
  shows "i \<le> j \<Longrightarrow> j < 12 \<Longrightarrow> clock i \<le> clock j"
    and "i < 12 \<Longrightarrow> j < 12 \<Longrightarrow> clock j - clock i \<le> 5000000"
proof -
  have mono: "clock i \<le> clock j" if "i \<le> j" "j < 12" for i j
    using sorted_nth_mono [of "map clock [0..<12]" i j] that assms by (simp add: quick_def)
  then show "i \<le> j \<Longrightarrow> j < 12 \<Longrightarrow> clock i \<le> clock j" .
  have "clock 11 \<le> clock 0 + 5000000" using assms by (simp add: quick_def from_millis_def)
  moreover assume "i < 12" "j < 12"
  then have "clock 0 \<le> clock i" "clock j \<le> clock 11" by (auto intro: mono)
  ultimately show "clock j - clock i \<le> 5000000" by linarith
qed

text \<open>The run of a new bucket that all tests share: its burst is admitted, the next request is not.\<close>

lemma quick_exhausts:
  assumes "quick clock" and "sorted is" and "set is \<subseteq> {i..<12}" and "is \<noteq> []"
    and "unat burst = length is - 1" and "unat rate \<le> 100" and "length is \<le> 12"
  shows "fst (consume_run (map clock is) (bucket_new rate burst (clock i) (clock k))) =
    replicate (length is - 1) True @ [False]"
proof -
  obtain js j where js: "is = js @ [j]" using assms(4) by (cases "is" rule: rev_cases) auto
  have "i < 12" using js assms(3) by auto
  then have "sorted (map clock (i # is))"
    using assms(2,3) by (intro sorted_map_mono) (auto intro!: quick_times(1) [OF assms(1)] mono_onI)
  moreover have "earned rate (clock j - clock i) + of_nat (Suc (length js)) * refill_slack < 1"
  proof -
    have "earned rate (clock j - clock i) \<le> 1 / 2"
      using js assms(3,4,6) by (intro earned_soon quick_times(2) [OF assms(1)]) auto
    moreover have "(of_nat (Suc (length js)) :: rat) \<le> of_nat 12"
      using js assms(7) by (simp only: of_nat_le_iff) simp
    then have "of_nat (Suc (length js)) * refill_slack \<le> 12 * refill_slack"
      by (intro mult_right_mono) (simp_all add: refill_slack_def)
    then have "of_nat (Suc (length js)) * refill_slack < 1 / 2" by (simp add: refill_slack_def)
    ultimately show ?thesis by linarith
  qed
  ultimately show ?thesis
    using new_bucket_exhausts [of burst "map clock js" "clock i" "clock j" rate "clock k"] assms(5)
    by (simp add: js)
qed

lemma twenty_millis_ge:
  assumes "from_millis 20 \<le> d"
  shows "1 / 64 \<le> as_secs_f64 d"
proof (cases "nanos_per_sec \<le> d")
  case True
  then have "of_nat 1 \<le> as_secs_f64 d" by (intro as_secs_f64_ge) simp_all
  then show ?thesis by simp
next
  case False
  have p: "fl (1 / 64) = 1 / 64" using fl_pow2 [of "-6"] by (simp add: power_int_def power_divide)
  have "(of_nat 20000000 :: rat) \<le> of_nat d"
    using assms unfolding of_nat_le_iff by (simp add: from_millis_def)
  then have "(1 / 64 :: rat) \<le> of_nat d / of_nat nanos_per_sec" by simp
  then have "1 / 64 \<le> fl (of_nat d / of_nat nanos_per_sec)" using fl_mono p by metis
  then have "1 / 64 \<le> fl (fl (of_nat d / of_nat nanos_per_sec))" using fl_mono p by metis
  with False show ?thesis by (simp add: as_secs_f64_def)
qed

lemma refilled_after_20ms:
  assumes ok: "bucket_ok 100 5 b" and "last_refill b + from_millis 20 \<le> now"
  shows "1 \<le> refilled now b"
proof -
  have rate: "refill_rate b = 100" "max_tokens b = 5"
    using ok f64.rnd_of_nat [of 100] by (simp_all add: bucket_ok_def u32_as_f64_def)
       (use f64.rnd_of_nat [of 5] in simp)
  have "1 / 64 \<le> as_secs_f64 (now - last_refill b)" using assms(2) by (intro twenty_millis_ge) simp
  then have "1 \<le> as_secs_f64 (now - last_refill b) * refill_rate b" by (simp add: rate)
  then have "1 \<le> fl (as_secs_f64 (now - last_refill b) * refill_rate b)" by (rule f64.rnd_ge_1)
  then have "1 \<le> fl (tokens b + fl (as_secs_f64 (now - last_refill b) * refill_rate b))"
    using ok by (intro f64.rnd_ge_1) (simp add: bucket_ok_def add_increasing)
  with rate show ?thesis by (simp add: refilled_def)
qed

lemma replicate_tests: "replicate 2 x = [x, x]" "replicate 5 x = [x, x, x, x, x]"
  by (simp_all add: eval_nat_numeral)

lemmas test_simps = Let_def case_prod_beta consume_run_Cons replicate_tests

lemma rate_limiter_tests_pass:
  assumes q: "quick clock"
  shows "test_fresh_bucket_allows_requests clock"
    and "test_exceeding_burst_rate_limits clock"
    and "clock 7 + from_millis 20 \<le> after_twenty \<Longrightarrow> test_tokens_refill_over_time clock after_twenty"
    and "test_multiple_ips_independent_buckets clock"
    and "(\<And>ip. clock 5 + from_millis 60 \<le> after_sixty ip) \<Longrightarrow> test_cleanup_stale_buckets clock after_sixty"
    and "clock 2 + from_millis 10 \<le> after_ten 0 \<Longrightarrow> after_ten 1 \<le> clock 1 + from_millis 20 \<Longrightarrow>
      test_is_stale clock after_ten"
proof -
  have "fl 4 = 4" using f64.rnd_of_nat [of 4] by simp
  then show "test_fresh_bucket_allows_requests clock"
    by (simp add: test_fresh_bucket_allows_requests_def test_simps try_consume_fields refilled_new u32_as_f64_numerals)
  show "test_exceeding_burst_rate_limits clock"
    using quick_exhausts [OF q, of "[2, 3, 4]" 0 2 10 1]
    by (simp add: test_exceeding_burst_rate_limits_def test_simps del: consume_run.simps(2))
  show "test_multiple_ips_independent_buckets clock"
    using quick_exhausts [OF q, of "[2, 3, 4]" 0 2 10 1] quick_exhausts [OF q, of "[7, 8, 9]" 5 2 10 6]
    by (simp add: test_multiple_ips_independent_buckets_def test_simps limiter_check_bucket proj_simps
        limiter_new_def store_gets del: consume_run.simps(2))
  show "test_tokens_refill_over_time clock after_twenty" if "clock 7 + from_millis 20 \<le> after_twenty"
  proof -
    let ?b = "bucket_new 100 5 (clock 0) (clock 1)"
    let ?b7 = "snd (consume_run (map clock [2, 3, 4, 5, 6, 7]) ?b)"
    have "bucket_ok 100 5 ?b7" by (intro consume_run_ok bucket_new_ok)
    moreover have "last_refill ?b7 = clock 7" by (simp add: test_simps try_consume_fields del: consume_run.simps(2))
    ultimately have "1 \<le> refilled after_twenty ?b7" using that by (intro refilled_after_20ms) simp_all
    then show ?thesis
      using quick_exhausts [OF q, of "[2, 3, 4, 5, 6, 7]" 0 5 100 1]
      by (simp add: test_tokens_refill_over_time_def test_simps try_consume_fields(1) [of after_twenty]
          del: consume_run.simps(2))
  qed
  show "test_cleanup_stale_buckets clock after_sixty" if "\<And>ip. clock 5 + from_millis 60 \<le> after_sixty ip"
  proof -
    have "clock 2 \<le> clock 5" using quick_times(1) [OF q, of 2 5] by simp
    with that [of "IpV4 0x7F000001"] that [of "IpV4 0x7F000002"]
    have "from_millis 20 < after_sixty (IpV4 0x7F000001) - clock 2" "from_millis 20 < after_sixty (IpV4 0x7F000002) - clock 5"
      by (simp_all add: from_millis_def)
    then show ?thesis
      by (simp add: test_cleanup_stale_buckets_def test_simps limiter_check_def limiter_new_def store_empty_def
          store_get_def store_insert_def cleanup_stale_def store_retain_def store_len_def is_stale_def
          try_consume_fields)
  qed
  show "test_is_stale clock after_ten"
    if "clock 2 + from_millis 10 \<le> after_ten 0" "after_ten 1 \<le> clock 1 + from_millis 20"
  proof -
    have "clock 2 - clock 1 \<le> 5000000" "clock 1 \<le> clock 2"
      using quick_times(2) [OF q, of 1 2] quick_times(1) [OF q, of 1 2] by simp_all
    with that show ?thesis
      by (simp add: test_is_stale_def is_stale_def bucket_new_def from_millis_def from_secs_def) arith
  qed
qed

text \<open>
  The tests of the repository pass on the model, the tests of the rate limiter for every timing with
  at most five milliseconds between the readings around a burst and with sleeps of at least the
  length asked for (and of at most twice that, where the test itself depends on it).
\<close>

theorem unit_tests_pass:
  assumes "quick clock"
    and "clock 2 + from_millis 10 \<le> after_ten 0" and "after_ten 1 \<le> clock 1 + from_millis 20"
    and "clock 7 + from_millis 20 \<le> after_twenty" and "\<And>ip. clock 5 + from_millis 60 \<le> after_sixty ip"
  shows "test_default_listen \<and> test_default_lb_algorithm \<and> test_validate_empty_route U path_exists \<and>
    test_fresh_bucket_allows_requests clock \<and> test_exceeding_burst_rate_limits clock \<and>
    test_tokens_refill_over_time clock after_twenty \<and> test_multiple_ips_independent_buckets clock \<and>
    test_cleanup_stale_buckets clock after_sixty \<and> test_is_stale clock after_ten \<and>
    test_match_glob_exact \<and> test_match_glob_wildcard \<and> test_match_glob_pattern \<and> test_match_route U"
proof -
  have "test_default_listen \<and> test_default_lb_algorithm" by code_simp
  moreover have "test_validate_empty_route U path_exists"
    by (simp add: test_validate_empty_route_def validate_def check_pools.simps)
  moreover have "test_match_glob_exact \<and> test_match_glob_wildcard \<and> test_match_glob_pattern" by code_simp
  moreover have "test_match_route U"
    by (simp add: test_match_route_def from_config_def entry_for_def match_route_def entry_matches_def
        match_glob_def starts_with_def ends_with_def suffix_to_prefix)
  ultimately show ?thesis using rate_limiter_tests_pass [OF assms(1)] assms(2-5) by blast
qed

lemma unit_tests_pass_witness:
  "test_tokens_refill_over_time (\<lambda>_. 0) (from_millis 20) \<and> test_cleanup_stale_buckets (\<lambda>_. 0) (\<lambda>_. from_millis 60)"
proof -
  have "quick (\<lambda>_. 0)" by (simp add: quick_def sorted_iff_nth_mono)
  from unit_tests_pass [OF this, where after_ten = "\<lambda>_. from_millis 10" and after_twenty = "from_millis 20"
      and after_sixty = "\<lambda>_. from_millis 60" and U = sample_urls and path_exists = "\<lambda>_. True"]
  show ?thesis by (simp add: from_millis_def)
qed

end
