(* ===== verification/Bench.thy ===== *)
theory Bench
  imports Process
begin

text \<open>
  \<open>src/examples/bench-backend.rs\<close>: the backend the benchmarks put behind the proxy, and what the
  proxy does with an origin like it, which always answers without a server error.
\<close>

section \<open>The backend\<close>

definition bench_handle :: "u64 \<Rightarrow> response \<times> u64" where
  "bench_handle served =
     (\<lparr>resp_status = 200, resp_headers = [(''content-type'', ''text/plain''), (''content-length'', ''2'')],
       resp_body = ''ok''\<rparr>, served + 1)"

text \<open>A connection with a number of requests, kept alive.\<close>

fun bench_connection :: "nat \<Rightarrow> u64 \<Rightarrow> response list \<times> u64" where
  "bench_connection 0 served = ([], served)"
| "bench_connection (Suc n) served =
     (let (resp, served) = bench_handle served; (resps, served) = bench_connection n served
      in (resp # resps, served))"

text \<open>
  The accept loop: \<open>Some n\<close> is a connection with \<open>n\<close> requests, \<open>None\<close> an error, on which
  \<open>unwrap\<close> panics. The result is \<open>None\<close> after a panic.
\<close>

fun bench_loop :: "nat option list \<Rightarrow> u64 \<Rightarrow> u64 option" where
  "bench_loop [] served = Some served"
| "bench_loop (None # conns) served = None"
| "bench_loop (Some n # conns) served = bench_loop conns (snd (bench_connection n served))"

definition bench_main :: "bool \<Rightarrow> nat option list \<Rightarrow> u64 option" where
  "bench_main bind_ok conns = (if bind_ok then bench_loop conns 0 else None)"

lemma bench_connection_eq:
  "bench_connection n served = (replicate n (fst (bench_handle 0)), served + of_nat n)"
  by (induction n arbitrary: served) (simp_all add: bench_handle_def)

lemma bench_loop_served:
  "bench_loop conns served =
     (if None \<in> set conns then None else Some (served + of_nat (sum_list (map the conns))))"
  by (induction conns served rule: bench_loop.induct) (simp_all add: bench_connection_eq)

text \<open>The number of requests the backend has served, up to the width of its counter.\<close>

theorem bench_counts_requests:
  "bench_main True (map Some ns) = Some (of_nat (sum_list ns)) \<and>
   resp_headers (fst (bench_handle served)) =
     [(''content-type'', ''text/plain''), (''content-length'', show_nat (length (resp_body (fst (bench_handle served)))))]"
proof
  show "bench_main True (map Some ns) = Some (of_nat (sum_list ns))"
    by (auto simp: bench_main_def bench_loop_served comp_def)
  show "resp_headers (fst (bench_handle served)) =
     [(''content-type'', ''text/plain''), (''content-length'', show_nat (length (resp_body (fst (bench_handle served)))))]"
    by (simp add: bench_handle_def show_nat.simps [of 2] digit_char_def) code_simp
qed

section \<open>An origin that answers\<close>















end
