(* ===== verification/Latency.thy ===== *)
theory Latency
  imports Balance
begin

text \<open>
  The compare-and-exchange loop of \<open>record_latency\<close> in \<open>src/src/balance/mod.rs\<close>, run by any number
  of calls at once: the load is one step, each exchange another. A schedule lists whose turn is
  next and whether its exchange fails spuriously, which the weak exchange may.
\<close>

section \<open>The latency average under contention\<close>

text \<open>A call before its load, in its loop with the sample and the value last seen, or returned.\<close>

datatype latency_point =
    LatencyLoad duration
  | LatencyExchange u64 u64
  | LatencyReturned u64

text \<open>One turn of a call on the location; \<open>spurious\<close>: the weak exchange fails without a reason.\<close>

fun latency_step :: "bool \<Rightarrow> latency_point \<Rightarrow> u64 \<Rightarrow> latency_point \<times> u64" where
  "latency_step spurious (LatencyLoad d) v = (LatencyExchange (of_nat d) v, v)"
| "latency_step spurious (LatencyExchange sample_ns old) v =
     (let new = ewma sample_ns old in
      if v = old \<and> \<not> spurious then (LatencyReturned sample_ns, new) else (LatencyExchange sample_ns v, v))"
| "latency_step spurious (LatencyReturned sample_ns) v = (LatencyReturned sample_ns, v)"

fun latency_sample :: "latency_point \<Rightarrow> u64" where
  "latency_sample (LatencyLoad d) = of_nat d"
| "latency_sample (LatencyExchange x old) = x"
| "latency_sample (LatencyReturned x) = x"

fun latency_returned :: "latency_point \<Rightarrow> bool" where
  "latency_returned (LatencyReturned x) = True"
| "latency_returned _ = False"

text \<open>A schedule of turns; the calls that succeed, in the order of their exchanges, are kept.\<close>

fun run_latency ::
  "(nat \<times> bool) list \<Rightarrow> latency_point list \<Rightarrow> u64 \<Rightarrow> nat list \<times> latency_point list \<times> u64" where
  "run_latency [] ts v = ([], ts, v)"
| "run_latency ((i, spurious) # turns) ts v =
     (if i < length ts
      then (let (p, v') = latency_step spurious (ts ! i) v;
                (order, ts', v'') = run_latency turns (ts[i := p]) v'
            in (if latency_returned p \<and> \<not> latency_returned (ts ! i) then i # order else order, ts', v''))
      else run_latency turns ts v)"

lemma latency_step_sample: "latency_sample (fst (latency_step b p v)) = latency_sample p"
  by (cases p) (auto simp: Let_def)

lemma latency_step_cases:
  obtains (stays) "\<not> latency_returned p" "\<not> latency_returned (fst (latency_step b p v))" "snd (latency_step b p v) = v"
  | (returns) old where "\<not> latency_returned p" "p = LatencyExchange (latency_sample p) old" "v = old" "\<not> b"
      "latency_step b p v = (LatencyReturned (latency_sample p), ewma (latency_sample p) v)"
  | (idle) "latency_returned p" "latency_step b p v = (p, v)"
proof (cases p)
  case (LatencyExchange x old)
  then show thesis using stays returns by (cases "v = old \<and> \<not> b") (auto simp: Let_def)
qed (use stays idle in auto)

lemma run_latency_Cons:
  assumes "i < length ts" and "latency_step b (ts ! i) v = (p, v')"
    and "run_latency turns (ts[i := p]) v' = (order, ts', v'')"
  shows "run_latency ((i, b) # turns) ts v =
    (if latency_returned p \<and> \<not> latency_returned (ts ! i) then i # order else order, ts', v'')"
  using assms by simp

text \<open>
  The loop invariant, going forward: the calls that return from here on are exactly those in the
  order, each once, and the value is the average folded over their samples.
\<close>

lemma run_latency_linear:
  assumes "run_latency turns ts v = (order, ts', v')"
  shows "distinct order \<and> set order = {i. i < length ts \<and> \<not> latency_returned (ts ! i) \<and> latency_returned (ts' ! i)} \<and>
    length ts' = length ts \<and> (\<forall>i < length ts. latency_returned (ts ! i) \<longrightarrow> latency_returned (ts' ! i)) \<and>
    v' = fold (\<lambda>i. ewma (latency_sample (ts ! i))) order v"
  using assms
proof (induction turns arbitrary: ts v order ts' v')
  case (Cons turn turns)
  obtain i b where turn: "turn = (i, b)" by force
  show ?case
  proof (cases "i < length ts")
    case False
    with Cons turn show ?thesis by simp
  next
    case True
    obtain p v1 where step: "latency_step b (ts ! i) v = (p, v1)" by force
    obtain rest ts1 v2 where run: "run_latency turns (ts[i := p]) v1 = (rest, ts1, v2)"
      by (metis prod_cases3)
    have eqs: "order = (if latency_returned p \<and> \<not> latency_returned (ts ! i) then i # rest else rest)"
      "ts' = ts1" "v' = v2"
      using Cons.prems run_latency_Cons [OF True step run] turn by simp_all
    have sample: "latency_sample (ts[i := p] ! j) = latency_sample (ts ! j)" for j
      using latency_step_sample [of b "ts ! i" v] step True by (cases "j = i") simp_all
    have fold: "fold (\<lambda>j. ewma (latency_sample (ts[i := p] ! j))) rest v1
        = fold (\<lambda>j. ewma (latency_sample (ts ! j))) rest v1"
      by (simp add: sample)
    note IH = Cons.IH [OF run]
    show ?thesis
    proof (cases rule: latency_step_cases [of "ts ! i" b v])
      case stays
      with IH fold step True show ?thesis by (auto simp: eqs nth_list_update split: if_splits)
    next
      case (returns old)
      with IH fold step True show ?thesis by (auto simp: eqs nth_list_update split: if_splits)
    next
      case idle
      with IH fold step True show ?thesis by (auto simp: eqs nth_list_update split: if_splits)
    qed
  qed
qed simp

text \<open>
  C11. Concurrent latency samples are linearised: under every schedule of the loops, spurious
  failures included, the average is that of the calls that returned made one after the other, in
  the order of their successful exchanges, each exactly once. No sample is lost or counted twice.
\<close>

theorem latency_is_linearized:
  assumes "run_latency turns (map LatencyLoad ds) (ewma_latency_ns s) = (order, points, v)"
  shows "distinct order \<and> set order = {i. i < length ds \<and> latency_returned (points ! i)} \<and>
    v = ewma_latency_ns (fold (\<lambda>i. record_latency (ds ! i)) order s)"
proof -
  have fresh: "\<not> latency_returned (map LatencyLoad ds ! i)" "latency_sample (map LatencyLoad ds ! i) = of_nat (ds ! i)"
    if "i < length ds" for i
    using that by simp_all
  note lin = run_latency_linear [OF assms, unfolded length_map]
  have set: "set order = {i. i < length ds \<and> latency_returned (points ! i)}" using lin fresh(1) by blast
  have "ewma_latency_ns (fold (\<lambda>i. record_latency (ds ! i)) is s)
      = fold (\<lambda>i. ewma (latency_sample (map LatencyLoad ds ! i))) is (ewma_latency_ns s)"
    if "set is \<subseteq> {..<length ds}" for "is"
    using that
  proof (induction "is" arbitrary: s)
    case (Cons i "is")
    then have "i < length ds" by simp
    with Cons show ?case by (simp only: fold_Cons comp_apply fresh(2) record_latency_fields list.set insert_subset)
  qed simp
  moreover have "set order \<subseteq> {..<length ds}" using set by blast
  ultimately have "ewma_latency_ns (fold (\<lambda>i. record_latency (ds ! i)) order s) = v" using lin by metis
  moreover have "distinct order" using lin by (rule conjunct1)
  ultimately show ?thesis using set by (intro conjI) simp_all
qed

section \<open>Every call returns\<close>

definition pending_calls :: "latency_point list \<Rightarrow> nat" where
  "pending_calls ts = length (filter (\<lambda>p. \<not> latency_returned p) ts)"

lemma pending_calls_card: "pending_calls ts = card {i. i < length ts \<and> \<not> latency_returned (ts ! i)}"
  by (simp add: pending_calls_def length_filter_conv_card)

lemma nth_update_if: "j < length xs \<Longrightarrow> xs[i := x] ! j = (if i = j then x else xs ! j)"
  by simp

lemma pending_calls_same:
  assumes "latency_returned p = latency_returned (ts ! i)"
  shows "pending_calls (ts[i := p]) = pending_calls ts"
proof -
  have "{j. j < length (ts[i := p]) \<and> \<not> latency_returned (ts[i := p] ! j)}
      = {j. j < length ts \<and> \<not> latency_returned (ts ! j)}"
    using assms by (auto simp: nth_update_if split: if_splits)
  then show ?thesis by (simp add: pending_calls_card)
qed

lemma pending_calls_less:
  assumes "i < length ts" and "\<not> latency_returned (ts ! i)" and "latency_returned p"
  shows "pending_calls (ts[i := p]) = pending_calls ts - 1" and "0 < pending_calls ts"
proof -
  have "{j. j < length (ts[i := p]) \<and> \<not> latency_returned (ts[i := p] ! j)}
      = {j. j < length ts \<and> \<not> latency_returned (ts ! j)} - {i}"
    using assms(3) by (auto simp: nth_update_if split: if_splits)
  then show "pending_calls (ts[i := p]) = pending_calls ts - 1"
    using assms(1,2) by (simp add: pending_calls_card)
  show "0 < pending_calls ts" using assms(1,2) by (auto simp: pending_calls_card card_gt_0_iff)
qed

lemma pending_calls_le: "pending_calls ts \<le> length ts"
  by (simp add: pending_calls_def)

text \<open>An upper bound on the turns a call still needs, when none of them fails spuriously.\<close>

fun turns_needed :: "nat \<Rightarrow> u64 \<Rightarrow> latency_point \<Rightarrow> nat" where
  "turns_needed n v (LatencyLoad d) = n + 1"
| "turns_needed n v (LatencyExchange x old) = (if v = old then n else n + 1)"
| "turns_needed n v (LatencyReturned x) = 0"

lemma turns_needed_0: "0 < n \<Longrightarrow> turns_needed n v p = 0 \<longleftrightarrow> latency_returned p"
  by (cases p) auto

lemma turns_needed_returned: "latency_returned p \<Longrightarrow> turns_needed n v p = 0"
  by (cases p) auto

lemma turns_needed_less: "0 < n \<Longrightarrow> turns_needed (n - 1) v' p \<le> turns_needed n v p"
  by (cases p) auto

text \<open>A turn of another call does not add to them, a turn of the call itself takes one away.\<close>

lemma turns_needed_step:
  assumes "j < length ts" and "latency_step b (ts ! j) v = (p, v1)"
  shows "i \<noteq> j \<Longrightarrow> turns_needed (pending_calls (ts[j := p])) v1 q \<le> turns_needed (pending_calls ts) v q"
    and "turns_needed (pending_calls (ts[j := p])) v1 p
      \<le> turns_needed (pending_calls ts) v (ts ! j) - of_bool (\<not> b)"
proof -
  have "turns_needed (pending_calls (ts[j := p])) v1 q \<le> turns_needed (pending_calls ts) v q \<and>
    turns_needed (pending_calls (ts[j := p])) v1 p \<le> turns_needed (pending_calls ts) v (ts ! j) - of_bool (\<not> b)"
  proof (cases rule: latency_step_cases [of "ts ! j" b v])
    case stays
    then have n: "pending_calls (ts[j := p]) = pending_calls ts" "v1 = v"
      using assms(2) by (simp_all add: pending_calls_same)
    with assms(2) stays show ?thesis by (cases "ts ! j") (auto simp: Let_def split: if_splits)
  next
    case (returns old)
    from returns(5) assms(2) have "p = LatencyReturned (latency_sample (ts ! j))" by simp
    then have p: "latency_returned p" by (simp only: latency_returned.simps)
    note less = pending_calls_less [OF assms(1) returns(1) p]
    have "turns_needed (pending_calls ts - 1) v1 q \<le> turns_needed (pending_calls ts) v q"
      using less(2) by (rule turns_needed_less)
    moreover have "turns_needed (pending_calls ts - 1) v1 p = 0" using p by (rule turns_needed_returned)
    ultimately show ?thesis by (simp add: less(1))
  next
    case idle
    with assms(2) have "p = ts ! j" "v1 = v" by simp_all
    with idle(1) show ?thesis by (simp add: pending_calls_same turns_needed_returned)
  qed
  then show "i \<noteq> j \<Longrightarrow> turns_needed (pending_calls (ts[j := p])) v1 q \<le> turns_needed (pending_calls ts) v q"
    and "turns_needed (pending_calls (ts[j := p])) v1 p \<le> turns_needed (pending_calls ts) v (ts ! j) - of_bool (\<not> b)"
    by simp_all
qed

lemma run_latency_turns:
  assumes "run_latency turns ts v = (order, ts', v')" and "i < length ts"
  shows "turns_needed (pending_calls ts') v' (ts' ! i)
    \<le> turns_needed (pending_calls ts) v (ts ! i) - count_list turns (i, False)"
  using assms
proof (induction turns arbitrary: ts v order ts' v')
  case (Cons turn turns)
  obtain j b where turn: "turn = (j, b)" by force
  show ?case
  proof (cases "j < length ts")
    case False
    with Cons turn show ?thesis by auto
  next
    case True
    obtain p v1 where step: "latency_step b (ts ! j) v = (p, v1)" by force
    obtain rest ts1 v2 where run: "run_latency turns (ts[j := p]) v1 = (rest, ts1, v2)"
      by (metis prod_cases3)
    have eqs: "ts' = ts1" "v' = v2" using Cons.prems run_latency_Cons [OF True step run] turn by simp_all
    have IH: "turns_needed (pending_calls ts1) v2 (ts1 ! i)
      \<le> turns_needed (pending_calls (ts[j := p])) v1 (ts[j := p] ! i) - count_list turns (i, False)"
      using Cons.IH [OF run] Cons.prems(2) by simp
    have "turns_needed (pending_calls (ts[j := p])) v1 (ts[j := p] ! i)
      \<le> turns_needed (pending_calls ts) v (ts ! i) - of_bool (turn = (i, False))"
    proof (cases "i = j")
      case True
      with turns_needed_step(2) [OF \<open>j < length ts\<close> step] show ?thesis
        using Cons.prems(2) by (simp add: turn)
    next
      case False
      with turns_needed_step(1) [OF True step False, of "ts ! i"] show ?thesis by (simp add: turn)
    qed
    with IH show ?thesis by (auto simp: eqs)
  qed
qed simp

text \<open>
  C21. Every call gets through: with \<open>n\<close> calls at once, a call that is given \<open>n + 1\<close> turns whose
  exchange does not fail spuriously has returned, whatever the others do. So the loop ends,
  and the more calls have returned the sooner.
\<close>

theorem latency_call_returns:
  assumes "run_latency turns (map LatencyLoad ds) v = (order, points, v')"
    and "i < length ds" and "length ds + 1 \<le> count_list turns (i, False)"
  shows "latency_returned (points ! i)"
proof (rule ccontr)
  assume not: "\<not> latency_returned (points ! i)"
  have "length points = length ds" using run_latency_linear [OF assms(1)] by simp
  with not assms(2) have "0 < pending_calls points" by (auto simp: pending_calls_card card_gt_0_iff)
  with not have "0 < turns_needed (pending_calls points) v' (points ! i)"
    using turns_needed_0 by blast
  moreover have "turns_needed (pending_calls points) v' (points ! i)
      \<le> turns_needed (pending_calls (map LatencyLoad ds)) v (map LatencyLoad ds ! i) - count_list turns (i, False)"
    using assms(1,2) by (intro run_latency_turns) simp_all
  moreover have "turns_needed (pending_calls (map LatencyLoad ds)) v (map LatencyLoad ds ! i) \<le> length ds + 1"
    using assms(2) pending_calls_le [of "map LatencyLoad ds"] by simp
  ultimately show False using assms(3) by linarith
qed

section \<open>Witnesses\<close>

text \<open>Two calls see the same value; the first to exchange wins, the other tries again.\<close>

definition contended_turns :: "(nat \<times> bool) list" where
  "contended_turns = [(0, False), (1, False), (1, True), (1, False), (0, False), (0, False)]"

lemma contended_run:
  "run_latency contended_turns (map LatencyLoad [1000, 2000]) 500 = ([1, 0], [LatencyReturned 1000, LatencyReturned 2000], 685)"
  by code_simp

lemma latency_is_linearized_witness:
  "685 = ewma_latency_ns (record_latency 1000 (record_latency 2000 (new_origin_state\<lparr>ewma_latency_ns := 500\<rparr>)))"
  using latency_is_linearized [of contended_turns "[1000, 2000]" "new_origin_state\<lparr>ewma_latency_ns := 500\<rparr>"]
    contended_run
  by simp

lemma latency_call_returns_witness:
  "latency_returned ([LatencyReturned 1000, LatencyReturned 2000] ! 0) \<and> count_list contended_turns (0, False) = 3"
  using latency_call_returns [OF contended_run, of 0] by (simp add: contended_turns_def)

end
