(* ===== verification/Tickets.thy ===== *)
theory Tickets
  imports Balancers "HOL-Library.Multiset"
begin

text \<open>
  \<open>src/src/balance/round_robin.rs\<close> under concurrency: any number of selections share the counter,
  and the health of the origins changes while they scan. A selection is a thread; taking the
  ticket with \<open>fetch_add\<close> is one step, each look at a candidate another. A schedule lists whose
  turn is next, with the states of the origins at that moment.
\<close>

section \<open>Selections as threads\<close>

datatype 'u rr_point =
    RrStart
  | RrScan nat "nat list"
  | RrDone "'u origin_endpoint option"

fun rr_step ::
  "'u origin_endpoint list \<Rightarrow> origin_states \<Rightarrow> 'u rr_point \<Rightarrow> u64 \<Rightarrow> 'u rr_point \<times> u64" where
  "rr_step cs st RrStart counter =
     (if cs = [] then (RrDone None, counter)
      else let count = length cs in (RrScan (unat counter mod count) [0..<count], counter + 1))"
| "rr_step cs st (RrScan start_idx []) counter = (RrDone None, counter)"
| "rr_step cs st (RrScan start_idx (i # is)) counter =
     (let idx = (start_idx + i) mod length cs;
          og = cs ! idx
      in (case store_get st (url_key og) of
            Some s \<Rightarrow> if healthy s then RrDone (Some og) else RrScan start_idx is
          | None \<Rightarrow> RrScan start_idx is, counter))"
| "rr_step cs st (RrDone r) counter = (RrDone r, counter)"

fun run_rr ::
  "'u origin_endpoint list \<Rightarrow> (nat \<times> origin_states) list \<Rightarrow> 'u rr_point list \<Rightarrow> u64
     \<Rightarrow> 'u rr_point list \<times> u64" where
  "run_rr cs [] ts counter = (ts, counter)"
| "run_rr cs ((i, st) # turns) ts counter =
     (if i < length ts
      then (let (p, counter') = rr_step cs st (ts ! i) counter in run_rr cs turns (ts[i := p]) counter')
      else run_rr cs turns ts counter)"

fun rr_result :: "'u rr_point \<Rightarrow> 'u origin_endpoint option" where
  "rr_result (RrDone r) = r"
| "rr_result _ = None"

fun rr_done :: "'u rr_point \<Rightarrow> bool" where
  "rr_done (RrDone r) = True"
| "rr_done _ = False"

lemma rr_step_scan:
  "rr_step cs st (RrScan s (i # is)) counter =
     (if is_up st (cs ! ((s + i) mod length cs)) then RrDone (Some (cs ! ((s + i) mod length cs))) else RrScan s is,
      counter)"
  by (auto simp: is_up_def Let_def split: option.splits)

lemma run_rr_length [simp]: "length (fst (run_rr cs turns ts counter)) = length ts"
  by (induction cs turns ts counter rule: run_rr.induct) (auto split: prod.splits)

section \<open>A selection alone\<close>

lemma run_rr_done: "run_rr cs (replicate n (0, st)) [RrDone r] counter = ([RrDone r], counter)"
  by (induction n) simp_all

lemma run_rr_scan:
  "length is < n \<Longrightarrow>
     run_rr cs (replicate n (0, st)) [RrScan s is] counter = ([RrDone (rr_scan cs st s is)], counter)"
proof (induction "is" arbitrary: n)
  case Nil
  then obtain m where "n = Suc m" by (cases n) auto
  then show ?case by (simp add: run_rr_done)
next
  case (Cons i "is")
  then obtain m where "n = Suc m" "length is < m" by (cases n) auto
  with Cons.IH [of m] show ?case
    by (auto simp: rr_step_scan is_up_def run_rr_done Let_def simp del: rr_step.simps split: option.splits)
qed

text \<open>
  A selection that is not disturbed is \<open>select_origin\<close>: given one turn more than it has
  candidates after its ticket, it returns what the sequential definition returns, with the same
  counter.
\<close>

theorem rr_alone_is_select:
  "run_rr cs (replicate (length cs + 2) (0, st)) [RrStart] counter =
     ([RrDone (fst (rr_select cs st counter))], snd (rr_select cs st counter))"
  using run_rr_scan [of "[0..<length cs]" "length cs + 1" cs st]
  by (simp add: rr_select_def Let_def run_rr_done)

section \<open>What a selection in a race returns\<close>

lemma rr_step_cases:
  assumes "rr_step cs st p c = (q, c')"
  obtains (ticket) "p = RrStart" "cs \<noteq> []" "q = RrScan (unat c mod length cs) [0..<length cs]" "c' = c + 1"
  | (empty) "p = RrStart" "cs = []" "q = RrDone None" "c' = c"
  | (hit) s i "is" where "p = RrScan s (i # is)" "is_up st (cs ! ((s + i) mod length cs))"
      "q = RrDone (Some (cs ! ((s + i) mod length cs)))" "c' = c"
  | (miss) s i "is" where "p = RrScan s (i # is)" "\<not> is_up st (cs ! ((s + i) mod length cs))"
      "q = RrScan s is" "c' = c"
  | (exhausted) s where "p = RrScan s []" "q = RrDone None" "c' = c"
  | (idle) r where "p = RrDone r" "q = RrDone r" "c' = c"
proof (cases p)
  case RrStart
  with assms show ?thesis by (cases "cs = []") (auto simp: Let_def intro: ticket empty)
next
  case (RrScan s "is")
  show ?thesis
  proof (cases "is")
    case Nil
    with RrScan assms show ?thesis by (auto intro: exhausted)
  next
    case (Cons i js)
    with RrScan assms show ?thesis
      by (cases "is_up st (cs ! ((s + i) mod length cs))")
         (auto simp: rr_step_scan simp del: rr_step.simps intro: hit miss)
  qed
next
  case (RrDone r)
  with assms show ?thesis by (auto intro: idle)
qed

text \<open>
  What a selection still has to look at, given that it ends with no origin, and where it finds the
  origin it ends with.
\<close>

fun rr_to_visit :: "'u origin_endpoint list \<Rightarrow> 'u rr_point \<Rightarrow> 'u origin_endpoint set" where
  "rr_to_visit cs RrStart = set cs"
| "rr_to_visit cs (RrScan s is) = (\<lambda>i. cs ! ((s + i) mod length cs)) ` set is"
| "rr_to_visit cs (RrDone r) = {}"

lemma cyclic_image:
  assumes "cs \<noteq> []"
  shows "(\<lambda>i. cs ! ((s + i) mod length cs)) ` set [0..<length cs] = set cs"
proof -
  have "set (rotate s cs) = (\<lambda>i. cs ! ((s + i) mod length cs)) ` set [0..<length cs]"
    by (simp only: rotate_conv_map set_map)
  then show ?thesis by simp
qed

lemma run_rr_keeps:
  "i < length ts \<Longrightarrow> ts ! i = RrDone r \<Longrightarrow> fst (run_rr cs turns ts counter) ! i = RrDone r"
proof (induction cs turns ts counter rule: run_rr.induct)
  case (2 cs j st turns ts counter)
  show ?case
  proof (cases "j < length ts")
    case True
    obtain p c' where step: "rr_step cs st (ts ! j) counter = (p, c')" by force
    have "ts[j := p] ! i = RrDone r" using step 2(3,4) by (cases "i = j") auto
    with 2(1) [OF True step [symmetric] refl] 2(3) True step show ?thesis by simp
  qed (use 2 in simp)
qed simp

lemma run_rr_visits:
  assumes "i < length ts" and "fst (run_rr cs turns ts counter) ! i = RrDone r" and "ts ! i \<noteq> RrDone r"
  shows "case r of
      Some og \<Rightarrow> og \<in> rr_to_visit cs (ts ! i) \<and> (\<exists>st. (i, st) \<in> set turns \<and> is_up st og)
    | None \<Rightarrow> \<forall>og \<in> rr_to_visit cs (ts ! i). \<exists>st. (i, st) \<in> set turns \<and> \<not> is_up st og"
  using assms
proof (induction cs turns ts counter rule: run_rr.induct)
  case (2 cs j st turns ts counter)
  show ?case
  proof (cases "j < length ts")
    case False
    with 2(2) [OF False] 2(3-5) show ?thesis by (auto split: option.splits)
  next
    case True
    obtain p c' where step: "rr_step cs st (ts ! j) counter = (p, c')" by force
    have IH: "ts[j := p] ! i \<noteq> RrDone r \<Longrightarrow> case r of
        Some og \<Rightarrow> og \<in> rr_to_visit cs (ts[j := p] ! i) \<and> (\<exists>st. (i, st) \<in> set turns \<and> is_up st og)
      | None \<Rightarrow> \<forall>og \<in> rr_to_visit cs (ts[j := p] ! i). \<exists>st. (i, st) \<in> set turns \<and> \<not> is_up st og"
      using 2(1) [OF True step [symmetric] refl] 2(3-5) True step by simp
    have final: "p = RrDone r' \<Longrightarrow> i = j \<Longrightarrow> r = r'" for r'
      using run_rr_keeps [of i "ts[j := p]" r' cs turns c'] 2(4) True step by simp
    show ?thesis
    proof (cases "i = j")
      case False
      with IH 2(5) show ?thesis by (auto split: option.splits)
    next
      case ij: True
      have here: "ts[j := p] ! i = p" using ij True by simp
      note IH' = IH [unfolded here]
      from step show ?thesis
      proof (cases rule: rr_step_cases)
        case ticket
        with IH' ij cyclic_image [OF ticket(2)] show ?thesis by (fastforce split: option.splits)
      next
        case empty
        with final [of None] ij show ?thesis by simp
      next
        case (hit s k ks)
        with final [of "Some (cs ! ((s + k) mod length cs))"] ij show ?thesis by auto
      next
        case (miss s k ks)
        with IH' ij show ?thesis by (auto split: option.splits)
      next
        case (exhausted s)
        with final [of None] ij show ?thesis by simp
      next
        case (idle r')
        with final [of r'] ij 2(5) show ?thesis by simp
      qed
    qed
  qed
qed simp

text \<open>
  C17. Health may change under a selection: what it returns is a candidate that was up at one of
  its own turns, and when it returns none, every candidate was down at one of its turns.
\<close>

theorem racing_selection_is_justified:
  assumes "run_rr cs turns (replicate n RrStart) counter = (points, counter')"
    and "i < n" and "points ! i = RrDone r"
  shows "case r of
      Some og \<Rightarrow> og \<in> set cs \<and> (\<exists>st. (i, st) \<in> set turns \<and> is_up st og)
    | None \<Rightarrow> \<forall>og \<in> set cs. \<exists>st. (i, st) \<in> set turns \<and> \<not> is_up st og"
proof -
  have start: "replicate n RrStart ! i = RrStart" using assms(2) by simp
  show ?thesis
    using run_rr_visits [of i "replicate n RrStart" cs turns counter r] assms
    unfolding start rr_to_visit.simps by simp
qed

section \<open>Fairness\<close>

text \<open>The origin a selection that has its ticket will return while every candidate is up.\<close>

fun rr_pick :: "'u origin_endpoint list \<Rightarrow> 'u rr_point \<Rightarrow> 'u origin_endpoint option multiset" where
  "rr_pick cs RrStart = {#}"
| "rr_pick cs (RrScan s is) = {#Some (cs ! (s mod length cs))#}"
| "rr_pick cs (RrDone r) = {#r#}"

definition rr_fresh :: "'u origin_endpoint list \<Rightarrow> 'u rr_point \<Rightarrow> bool" where
  "rr_fresh cs p = (case p of RrScan s is \<Rightarrow> is = [0..<length cs] | _ \<Rightarrow> True)"

abbreviation rr_picks_of :: "'u origin_endpoint list \<Rightarrow> 'u rr_point multiset \<Rightarrow> 'u origin_endpoint option multiset" where
  "rr_picks_of cs M \<equiv> sum_mset (image_mset (rr_pick cs) M)"

text \<open>The origins of the next \<open>m\<close> tickets.\<close>

definition next_picks :: "'u origin_endpoint list \<Rightarrow> u64 \<Rightarrow> nat \<Rightarrow> 'u origin_endpoint option multiset" where
  "next_picks cs c m = mset (map (\<lambda>i. Some (cs ! ((unat c + i) mod length cs))) [0..<m])"

lemma next_picks_Suc:
  assumes "unat c + Suc m \<le> 2 ^ 64"
  shows "next_picks cs c (Suc m) = add_mset (Some (cs ! (unat c mod length cs))) (next_picks cs (c + 1) m)"
proof -
  have eq: "next_picks cs c (Suc m) = add_mset (Some (cs ! (unat c mod length cs)))
      (mset (map (\<lambda>i. Some (cs ! ((unat c + Suc i) mod length cs))) [0..<m]))"
    unfolding next_picks_def by (simp only: upt_conv_Cons map_Suc_upt [symmetric] list.map mset.simps zero_less_Suc
        map_map comp_def add_0_right)
  show ?thesis
  proof (cases m)
    case 0
    then show ?thesis by (simp add: next_picks_def)
  next
    case (Suc m')
    with assms have "unat (c + 1) = Suc (unat c)" by (simp add: unat_word_ariths)
    then show ?thesis unfolding eq by (simp add: next_picks_def)
  qed
qed

lemma rr_pick_done: "rr_done p \<Longrightarrow> rr_pick cs p = {#rr_result p#}"
  by (cases p) auto

lemma mset_update_split:
  assumes "i < length ts"
  obtains M where "mset ts = add_mset (ts ! i) M" and "mset (ts[i := p]) = add_mset p M"
proof
  show "mset ts = add_mset (ts ! i) (mset ts - {#ts ! i#})" using assms by simp
  show "mset (ts[i := p]) = add_mset p (mset ts - {#ts ! i#})" using assms by (rule mset_update)
qed

lemma run_rr_fair:
  assumes "list_all (\<lambda>(i, st). list_all (is_up st) cs) turns" and "cs \<noteq> []"
    and "list_all (rr_fresh cs) ts" and "unat counter + count (mset ts) RrStart \<le> 2 ^ 64"
    and "run_rr cs turns ts counter = (ts', counter')" and "list_all rr_done ts'"
  shows "image_mset rr_result (mset ts') =
    rr_picks_of cs (mset ts) + next_picks cs counter (count (mset ts) RrStart)"
  using assms
proof (induction cs turns ts counter rule: run_rr.induct)
  case (1 cs ts counter)
  then have "list_all rr_done ts" by simp
  then have "RrStart \<notin># mset ts" "image_mset (rr_pick cs) (mset ts) = image_mset (\<lambda>p. {#rr_result p#}) (mset ts)"
    by (auto simp: list_all_iff rr_pick_done intro!: image_mset_cong)
  then show ?case using 1 by (simp add: not_in_iff next_picks_def)
next
  case (2 cs j st turns ts counter)
  show ?case
  proof (cases "j < length ts")
    case False
    with 2(2) [OF False] 2(3-8) show ?thesis by simp
  next
    case True
    obtain p c' where step: "rr_step cs st (ts ! j) counter = (p, c')" by force
    obtain M where M: "mset ts = add_mset (ts ! j) M" "mset (ts[j := p]) = add_mset p M"
      using mset_update_split [OF True] .
    have up: "is_up st (cs ! (k mod length cs))" for k using 2(3,4) by (simp add: list_all_iff)
    have fresh: "rr_fresh cs (ts ! j)" using 2(5) True by (simp add: list_all_length)
    note IH = 2(1) [OF True step [symmetric] refl]
    from step show ?thesis
    proof (cases rule: rr_step_cases)
      case ticket
      have n: "count (mset ts) RrStart = Suc (count (mset (ts[j := p])) RrStart)"
        using M ticket by simp
      have "list_all (rr_fresh cs) (ts[j := p])"
        using 2(5) ticket by (auto simp: list_all_iff rr_fresh_def dest!: set_update_subset_insert [THEN subsetD])
      moreover have "unat c' \<le> Suc (unat counter)" using ticket(4) by (simp add: unat_word_ariths)
      then have "unat c' + count (mset (ts[j := p])) RrStart \<le> 2 ^ 64" using 2(6) n by linarith
      ultimately have "image_mset rr_result (mset ts') =
          rr_picks_of cs (mset (ts[j := p])) + next_picks cs c' (count (mset (ts[j := p])) RrStart)"
        using IH 2(3,4,7,8) True step by simp
      also have "\<dots> = rr_picks_of cs (mset ts) + next_picks cs counter (count (mset ts) RrStart)"
      proof -
        have "rr_picks_of cs (mset (ts[j := p])) = add_mset (Some (cs ! (unat counter mod length cs))) (rr_picks_of cs M)"
          by (subst M(2)) (simp add: ticket(3))
        moreover have "rr_picks_of cs (mset ts) = rr_picks_of cs M" by (subst M(1)) (simp add: ticket(1))
        moreover have "unat counter + Suc (count (mset (ts[j := p])) RrStart) \<le> 2 ^ 64" using 2(6) n by simp
        ultimately show ?thesis by (simp only: n next_picks_Suc ticket(4)) simp
      qed
      finally show ?thesis .
    next
      case (hit s k ks)
      then have "s + k = s" "ks = [1..<length cs]" using fresh 2(4) by (auto simp: rr_fresh_def upt_conv_Cons)
      have "list_all (rr_fresh cs) (ts[j := p])"
        using 2(5) hit by (auto simp: list_all_iff rr_fresh_def dest!: set_update_subset_insert [THEN subsetD])
      moreover have "count (mset (ts[j := p])) RrStart = count (mset ts) RrStart"
        by (subst M(2), subst M(1)) (simp add: hit(1,3))
      moreover have "rr_picks_of cs (mset (ts[j := p])) = rr_picks_of cs (mset ts)"
        by (subst M(2), subst M(1)) (simp add: hit(1,3) \<open>s + k = s\<close>)
      moreover have "run_rr cs turns (ts[j := p]) c' = (ts', counter')" using 2(7) True step by simp
      moreover have "list_all (\<lambda>(i, st). list_all (is_up st) cs) turns" using 2(3) by simp
      ultimately show ?thesis using IH [OF _ 2(4) _ _ _ 2(8)] 2(6) hit(4) by simp
    next
      case miss
      with up show ?thesis by blast
    next
      case (exhausted s)
      with fresh have "[0..<length cs] = []" by (simp add: rr_fresh_def)
      with 2(4) show ?thesis by (simp only: upt_eq_Nil_conv) simp
    next
      case (idle r)
      then have id: "ts[j := p] = ts" by (metis list_update_id)
      have "run_rr cs turns ts counter = (ts', counter')" using 2(7) True step id idle(3) by simp
      with IH [unfolded id, OF _ 2(4,5) _ _ 2(8)] 2(3,6) idle(3) show ?thesis by simp
    qed (use 2(4) in simp)
  qed
qed

text \<open>
  C12. Round robin stays fair however the selections interleave: while every candidate is up, as
  many simultaneous selections as \<open>k\<close> times the number of candidates return each of them
  exactly \<open>k\<close> times once they are all done, whatever the schedule.
\<close>

theorem racing_selections_are_fair:
  fixes cs :: "'u origin_endpoint list"
  assumes "list_all (\<lambda>(i, st). list_all (is_up st) cs) turns"
    and "unat counter + k * length cs \<le> 2 ^ 64"
    and "run_rr cs turns (replicate (k * length cs) RrStart) counter = (points, counter')"
    and "list_all rr_done points"
  shows "count_list (map rr_result points) (Some og) = k * count_list cs og"
proof (cases "cs = []")
  case True
  have "length points = k * length cs"
    using run_rr_length [of cs turns "replicate (k * length cs) RrStart" counter] unfolding assms(3) by simp
  with True have "points = []" by simp
  with True show ?thesis by simp
next
  case False
  have m: "count (mset (replicate (k * length cs) (RrStart :: 'u rr_point))) RrStart = k * length cs" by simp
  have "list_all (rr_fresh cs) (replicate (k * length cs) RrStart)" by (auto simp: list_all_iff rr_fresh_def)
  from run_rr_fair [OF assms(1) False this _ assms(3,4)] assms(2) m
  have "image_mset rr_result (mset points) =
      rr_picks_of cs (mset (replicate (k * length cs) RrStart)) + next_picks cs counter (k * length cs)"
    by (simp only:)
  moreover have "rr_picks_of cs (mset (replicate n (RrStart :: 'u rr_point))) = {#}" for n by (induction n) simp_all
  ultimately have "mset (map rr_result points)
      = mset (map (Some \<circ> (\<lambda>i. cs ! ((unat counter + i) mod length cs))) [0..<k * length cs])"
    by (simp only: next_picks_def mset_map [symmetric] comp_def empty_neutral)
  then have "count_list (map rr_result points) (Some og)
      = count_list (map Some (map (\<lambda>i. cs ! ((unat counter + i) mod length cs)) [0..<k * length cs])) (Some og)"
    by (metis count_mset map_map)
  then show ?thesis using count_cyclic [of cs "unat counter" k og]
    by (simp only: count_list_map_conv [of Some] inj_Some)
qed

section \<open>Witnesses\<close>

definition two_up :: "string origin_endpoint list" where
  "two_up = [sample_endpoint ''a'' None, sample_endpoint ''b'' None]"

definition both_tickets :: "(nat \<times> origin_states) list" where
  "both_tickets = map (\<lambda>i. (i, sample_states)) [1, 0, 0, 1]"

lemma racing_selections_are_fair_witness:
  "count_list (map rr_result (fst (run_rr two_up both_tickets (replicate (1 * length two_up) RrStart) 6)))
     (Some (sample_endpoint ''b'' None)) = 1"
proof -
  obtain points c' where run: "run_rr two_up both_tickets (replicate (1 * length two_up) RrStart) 6 = (points, c')"
    by force
  have "list_all rr_done (fst (run_rr two_up both_tickets (replicate (1 * length two_up) RrStart) 6))"
    by code_simp
  then have "list_all rr_done points" using run by simp
  moreover have "list_all (\<lambda>(i, st). list_all (is_up st) two_up) both_tickets" by code_simp
  moreover have "unat (6::u64) + 1 * length two_up \<le> 2 ^ 64" by (simp add: two_up_def)
  ultimately have "count_list (map rr_result points) (Some (sample_endpoint ''b'' None))
      = 1 * count_list two_up (sample_endpoint ''b'' None)"
    using racing_selections_are_fair [OF _ _ run] by blast
  with run show ?thesis by (simp add: two_up_def sample_endpoint_def)
qed

lemma racing_selection_is_justified_witness:
  "\<exists>st. (0, st) \<in> set [(0, sample_states), (0, sample_states)] \<and> is_up st (sample_endpoint ''a'' None)"
proof -
  have run: "run_rr two_up [(0, sample_states), (0, sample_states)] (replicate 1 RrStart) 6
      = ([RrDone (Some (sample_endpoint ''a'' None))], 7)"
    by code_simp
  show ?thesis using racing_selection_is_justified [OF run, of 0 "Some (sample_endpoint ''a'' None)"] by simp
qed

end
