(* ===== verification/Watcher.thy ===== *)
theory Watcher
  imports Reload
begin

text \<open>
  The watcher of \<open>src/src/config/reload.rs\<close> with its channel and its clock: the callback of the
  \<open>notify\<close> crate sends into a bounded channel, blocking while it is full; the task receives one
  message, sleeps for half a second, drains the channel and reads the file. \<open>watch_config\<close> of
  theory \<open>Reload\<close> sees only the reads; here it is shown which edits are read.
\<close>

section \<open>The channel\<close>

text \<open>
  \<open>tokio::sync::mpsc\<close> is not part of the repository: its operations are a record of functions, and
  what the watcher relies on is the locale.
\<close>

record 'c channel_ops =
  ch_capacity :: nat
  ch_empty :: 'c
  ch_len :: "'c \<Rightarrow> nat"
  ch_send :: "'c \<Rightarrow> 'c option"      \<comment> \<open>\<open>None\<close>: full, the sender blocks\<close>
  ch_recv :: "'c \<Rightarrow> 'c option"      \<comment> \<open>\<open>None\<close>: empty, \<open>try_recv\<close> fails and \<open>recv\<close> waits\<close>

locale bounded_channel =
  fixes C :: "'c channel_ops"
  assumes capacity: "0 < ch_capacity C"
    and empty_len: "ch_len C (ch_empty C) = 0"
    and send_full: "ch_send C q = None \<longleftrightarrow> ch_capacity C \<le> ch_len C q"
    and send_len: "ch_send C q = Some q' \<Longrightarrow> ch_len C q' = Suc (ch_len C q)"
    and recv_empty: "ch_recv C q = None \<longleftrightarrow> ch_len C q = 0"
    and recv_len: "ch_recv C q = Some q' \<Longrightarrow> Suc (ch_len C q') = ch_len C q"
begin

text \<open>A sender and a receiver never wait for each other.\<close>

lemma no_deadlock: "ch_send C q = None \<Longrightarrow> ch_recv C q \<noteq> None"
  using capacity by (simp add: send_full recv_empty)

lemma send_bounded: "ch_send C q = Some q' \<Longrightarrow> ch_len C q' \<le> ch_capacity C"
  using send_full [of q] send_len [of q q'] by simp

lemma recv_some: "0 < ch_len C q \<Longrightarrow> \<exists>q'. ch_recv C q = Some q'"
  using recv_empty [of q] by auto

end

text \<open>A channel of unit messages is their number.\<close>

definition counter_channel :: "nat channel_ops" where
  "counter_channel = \<lparr>ch_capacity = 16, ch_empty = 0, ch_len = (\<lambda>q. q),
     ch_send = (\<lambda>q. if q < 16 then Some (Suc q) else None),
     ch_recv = (\<lambda>q. if q = 0 then None else Some (q - 1))\<rparr>"

interpretation counter: bounded_channel counter_channel
  by unfold_locales (auto simp: counter_channel_def split: if_splits)

section \<open>The watcher\<close>

text \<open>Waiting in \<open>recv\<close>, sleeping until a moment, draining, or about to read the file.\<close>

datatype watch_phase = WaitRecv | Sleeping instant | Draining | Loading

text \<open>
  \<open>wt_pending\<close>: events the callback has still to send; \<open>wt_file\<close>: the file system; \<open>wt_reads\<close>: the
  reads of the configuration so far, with their times.
\<close>

record ('c, 'u) watcher =
  wt_pending :: nat
  wt_queue :: 'c
  wt_phase :: watch_phase
  wt_now :: instant
  wt_file :: "string \<Rightarrow> string option"
  wt_reads :: "(instant \<times> (string \<Rightarrow> string option)) list"
  wt_app :: "'u app_state"

definition debounce :: duration where
  "debounce = 500000000"

definition watch_start ::
  "'c channel_ops \<Rightarrow> instant \<Rightarrow> (string \<Rightarrow> string option) \<Rightarrow> 'u app_state \<Rightarrow> ('c, 'u) watcher" where
  "watch_start C t file s = \<lparr>wt_pending = 0, wt_queue = ch_empty C, wt_phase = WaitRecv, wt_now = t,
     wt_file = file, wt_reads = [], wt_app = s\<rparr>"

text \<open>
  \<open>watch_config\<close> up to its loop: creating the watcher and registering the file may fail, which ends
  the task (with nothing but a line in the log, so the process runs on without reloads).
\<close>

definition watch_begin ::
  "'c channel_ops \<Rightarrow> 'e + unit \<Rightarrow> 'e + unit \<Rightarrow> instant \<Rightarrow> (string \<Rightarrow> string option) \<Rightarrow> 'u app_state
     \<Rightarrow> 'e + ('c, 'u) watcher" where
  "watch_begin C created registered t file s =
     (case created of Inl e \<Rightarrow> Inl e
      | Inr _ \<Rightarrow> (case registered of Inl e \<Rightarrow> Inl e | Inr _ \<Rightarrow> Inr (watch_start C t file s)))"

lemma watch_begin_Inr:
  "watch_begin C created registered t file s = Inr W \<longleftrightarrow>
     created = Inr () \<and> registered = Inr () \<and> W = watch_start C t file s"
  by (auto simp: watch_begin_def split: sum.splits)

text \<open>The steps of the callback and of the task.\<close>

inductive watch_step ::
  "'c channel_ops \<Rightarrow> 'u url_ops \<Rightarrow> (string \<Rightarrow> 'u proxy_config option) \<Rightarrow> (string \<Rightarrow> bool) \<Rightarrow> string
     \<Rightarrow> ('c, 'u) watcher \<Rightarrow> ('c, 'u) watcher \<Rightarrow> bool"
  for C U from_str path_exists config_path where
  w_send: "wt_pending W = Suc n \<Longrightarrow> ch_send C (wt_queue W) = Some q \<Longrightarrow>
     watch_step C U from_str path_exists config_path W (W\<lparr>wt_pending := n, wt_queue := q\<rparr>)"
| w_recv: "wt_phase W = WaitRecv \<Longrightarrow> ch_recv C (wt_queue W) = Some q \<Longrightarrow>
     watch_step C U from_str path_exists config_path W
       (W\<lparr>wt_queue := q, wt_phase := Sleeping (wt_now W + debounce)\<rparr>)"
| w_wake: "wt_phase W = Sleeping due \<Longrightarrow> due \<le> wt_now W \<Longrightarrow>
     watch_step C U from_str path_exists config_path W (W\<lparr>wt_phase := Draining\<rparr>)"
| w_drain: "wt_phase W = Draining \<Longrightarrow> ch_recv C (wt_queue W) = Some q \<Longrightarrow>
     watch_step C U from_str path_exists config_path W (W\<lparr>wt_queue := q\<rparr>)"
| w_drained: "wt_phase W = Draining \<Longrightarrow> ch_recv C (wt_queue W) = None \<Longrightarrow>
     watch_step C U from_str path_exists config_path W (W\<lparr>wt_phase := Loading\<rparr>)"
| w_load: "wt_phase W = Loading \<Longrightarrow>
     watch_step C U from_str path_exists config_path W
       (W\<lparr>wt_phase := WaitRecv, wt_reads := wt_reads W @ [(wt_now W, wt_file W)],
          wt_app := reload U (wt_file W) from_str path_exists config_path (wt_app W)\<rparr>)"

text \<open>
  The steps of the world: time passes, \<open>notify\<close> delivers an event, with or without a change of the
  file, and the file changes unnoticed. The crate documents \<open>Create\<close> and \<open>Modify\<close> as the kinds of a
  change of contents, but not that every change is announced by one (the watch of a file that
  is replaced may end, events may be dropped), so how much it announces is a parameter.
\<close>

datatype world = Quiet | Announced | Anything

fun content_event :: "fs_event \<Rightarrow> bool" where
  "content_event Modified = True"
| "content_event Created = True"
| "content_event OtherEvent = False"
| "content_event WatchFailed = False"

inductive world_step :: "world \<Rightarrow> ('c, 'u) watcher \<Rightarrow> ('c, 'u) watcher \<Rightarrow> bool" where
  w_tick: "world_step w W (W\<lparr>wt_now := wt_now W + d\<rparr>)"
| w_event: "w \<noteq> Quiet \<Longrightarrow> w = Announced \<longrightarrow> content_event e \<or> file = wt_file W \<Longrightarrow>
     world_step w W (W\<lparr>wt_file := file, wt_pending := wt_pending W + of_bool (notifies e)\<rparr>)"
| w_unnoticed: "world_step Anything W (W\<lparr>wt_file := file\<rparr>)"

inductive_cases watch_stepE [consumes 1, case_names send recv wake drain drained load]:
  "watch_step C U from_str path_exists config_path W W'"
inductive_cases world_stepE [consumes 1, case_names tick event unnoticed]: "world_step w W W'"

lemma content_event_notifies: "content_event e \<Longrightarrow> notifies e"
  by (cases e) (simp_all add: notifies_def)

text \<open>Runs with the number of steps of the watcher in them.\<close>

inductive watch_run ::
  "'c channel_ops \<Rightarrow> 'u url_ops \<Rightarrow> (string \<Rightarrow> 'u proxy_config option) \<Rightarrow> (string \<Rightarrow> bool) \<Rightarrow> string
     \<Rightarrow> world \<Rightarrow> nat \<Rightarrow> ('c, 'u) watcher \<Rightarrow> ('c, 'u) watcher \<Rightarrow> bool"
  for C U from_str path_exists config_path w where
  run_refl: "watch_run C U from_str path_exists config_path w 0 W W"
| run_watch: "watch_run C U from_str path_exists config_path w n W W1 \<Longrightarrow>
     watch_step C U from_str path_exists config_path W1 W2 \<Longrightarrow>
     watch_run C U from_str path_exists config_path w (Suc n) W W2"
| run_world: "watch_run C U from_str path_exists config_path w n W W1 \<Longrightarrow> world_step w W1 W2 \<Longrightarrow>
     watch_run C U from_str path_exists config_path w n W W2"

section \<open>Every edit is read\<close>

text \<open>The contents read last, by the start of the process at the latest.\<close>

definition last_read :: "(string \<Rightarrow> string option) \<Rightarrow> ('c, 'u) watcher \<Rightarrow> string \<Rightarrow> string option" where
  "last_read file0 W = (if wt_reads W = [] then file0 else snd (last (wt_reads W)))"

text \<open>The work left: an upper bound on the steps until the watcher is idle.\<close>

fun phase_work :: "watch_phase \<Rightarrow> nat" where
  "phase_work WaitRecv = 0" | "phase_work (Sleeping due) = 3" | "phase_work Draining = 2" | "phase_work Loading = 1"

definition work_left :: "'c channel_ops \<Rightarrow> ('c, 'u) watcher \<Rightarrow> nat" where
  "work_left C W = 5 * wt_pending W + 4 * ch_len C (wt_queue W) + phase_work (wt_phase W)"

definition nothing_missed :: "'c channel_ops \<Rightarrow> (string \<Rightarrow> string option) \<Rightarrow> ('c, 'u) watcher \<Rightarrow> bool" where
  "nothing_missed C file0 W \<longleftrightarrow> last_read file0 W = wt_file W \<or> 0 < work_left C W"

lemma phase_work_0: "phase_work p = 0 \<longleftrightarrow> p = WaitRecv"
  by (cases p) auto

context bounded_channel
begin

lemma watch_step_work:
  assumes "watch_step C U from_str path_exists config_path W W'"
  shows "work_left C W' < work_left C W"
  using assms
proof (cases rule: watch_stepE)
  case (send n q)
  then show ?thesis using send_len [of "wt_queue W" q] by (simp add: work_left_def)
next
  case (recv q)
  then show ?thesis using recv_len [of "wt_queue W" q] by (simp add: work_left_def)
next
  case (drain q)
  then show ?thesis using recv_len [of "wt_queue W" q] by (simp add: work_left_def)
qed (simp_all add: work_left_def)

lemma watch_step_missed:
  assumes "watch_step C U from_str path_exists config_path W W'" and "nothing_missed C file0 W"
  shows "nothing_missed C file0 W'"
  using assms(1)
proof (cases rule: watch_stepE)
  case (send n q)
  then show ?thesis using send_len [of "wt_queue W" q] by (simp add: nothing_missed_def work_left_def)
qed (simp_all add: nothing_missed_def work_left_def last_read_def)

lemma enabled_now:
  "watch_step C U from_str path_exists config_path W W' \<Longrightarrow>
     \<exists>d W'. watch_step C U from_str path_exists config_path (W\<lparr>wt_now := wt_now W + d\<rparr>) W'"
  by (rule exI [of _ 0]) auto

lemma watch_step_enabled:
  assumes "0 < work_left C W"
  shows "\<exists>d W'. watch_step C U from_str path_exists config_path (W\<lparr>wt_now := wt_now W + d\<rparr>) W'"
proof (cases "wt_phase W")
  case (Sleeping due)
  then have "watch_step C U from_str path_exists config_path (W\<lparr>wt_now := wt_now W + due\<rparr>)
      (W\<lparr>wt_now := wt_now W + due, wt_phase := Draining\<rparr>)"
    using w_wake [of "W\<lparr>wt_now := wt_now W + due\<rparr>" due] by simp
  then show ?thesis by blast
next
  case Draining
  then show ?thesis
    by (cases "ch_recv C (wt_queue W)") (blast intro: enabled_now w_drained, blast intro: enabled_now w_drain)
next
  case Loading
  then show ?thesis by (blast intro: enabled_now w_load)
next
  case WaitRecv
  show ?thesis
  proof (cases "ch_recv C (wt_queue W)")
    case (Some q)
    with WaitRecv show ?thesis by (blast intro: enabled_now w_recv)
  next
    case None
    then have "ch_len C (wt_queue W) = 0" by (simp add: recv_empty)
    with assms WaitRecv obtain n where n: "wt_pending W = Suc n"
      by (cases "wt_pending W") (auto simp: work_left_def)
    from None no_deadlock obtain q where "ch_send C (wt_queue W) = Some q" by fastforce
    with n show ?thesis by (blast intro: enabled_now w_send)
  qed
qed

lemma world_step_missed:
  "world_step w W W' \<Longrightarrow> w \<noteq> Anything \<Longrightarrow> nothing_missed C file0 W \<Longrightarrow> nothing_missed C file0 W'"
  by (erule world_stepE)
     (auto simp: nothing_missed_def work_left_def last_read_def dest: content_event_notifies intro: world.exhaust [of w])

lemma watch_run_missed:
  "watch_run C U from_str path_exists config_path w n W W' \<Longrightarrow> w \<noteq> Anything \<Longrightarrow> nothing_missed C file0 W \<Longrightarrow>
     nothing_missed C file0 W'"
  by (induction rule: watch_run.induct) (blast intro: watch_step_missed world_step_missed)+

lemma start_missed: "nothing_missed C file0 (watch_start C t file0 s)"
  by (simp add: nothing_missed_def last_read_def watch_start_def)

lemma watch_run_work:
  assumes "watch_run C U from_str path_exists config_path Quiet n W W'"
  shows "n + work_left C W' \<le> work_left C W \<and> wt_file W' = wt_file W"
  using assms
proof (induction rule: watch_run.induct)
  case (run_watch n W W1 W2)
  have "wt_file W2 = wt_file W1" using run_watch(2) by (cases rule: watch_stepE) simp_all
  with run_watch watch_step_work [OF run_watch(2)] show ?case by simp
next
  case (run_world n W W1 W2)
  from run_world(2) have "work_left C W2 = work_left C W1 \<and> wt_file W2 = wt_file W1"
    by (cases rule: world_stepE) (simp_all add: work_left_def)
  with run_world show ?case by simp
qed simp

end

lemma work_left_0:
  "work_left C W = 0 \<longleftrightarrow> wt_pending W = 0 \<and> ch_len C (wt_queue W) = 0 \<and> wt_phase W = WaitRecv"
  by (simp add: work_left_def phase_work_0)

text \<open>
  C7. An announced edit of the configuration file does not go unread. Whatever happened before, edits
  that \<open>notify\<close> did not announce included, once it delivers a \<open>Create\<close> or \<open>Modify\<close> event for an edit
  that is the last one, the watcher makes only a bounded number of steps, it is never stuck before
  its work is done (at worst it sleeps), and once it is done the contents it has read last are
  those of the file. An edit that is not announced by such an event may go unread.
\<close>

theorem watcher_catches_up:
  assumes "bounded_channel C" and begun: "watch_begin C created registered t file0 s = Inr V"
    and "watch_run C U from_str path_exists config_path Anything m V W"
    and announced: "content_event e"
    and "watch_run C U from_str path_exists config_path Quiet n
      (W\<lparr>wt_file := file, wt_pending := wt_pending W + of_bool (notifies e)\<rparr>) W'"
  shows "n + work_left C W' \<le> 5 + work_left C W \<and>
    (if work_left C W' = 0 then last_read file0 W' = file
     else \<exists>d W''. watch_step C U from_str path_exists config_path (W'\<lparr>wt_now := wt_now W' + d\<rparr>) W'')"
proof -
  note ch = assms(1)
  let ?W = "W\<lparr>wt_file := file, wt_pending := wt_pending W + of_bool (notifies e)\<rparr>"
  have work: "work_left C ?W = 5 + work_left C W"
    using content_event_notifies [OF announced] by (simp add: work_left_def)
  then have "nothing_missed C file0 ?W" by (simp add: nothing_missed_def)
  then have "nothing_missed C file0 W'" by (intro bounded_channel.watch_run_missed [OF ch assms(5)]) simp
  with bounded_channel.watch_run_work [OF ch assms(5)] bounded_channel.watch_step_enabled [OF ch, of W'] work
  show ?thesis by (auto simp: nothing_missed_def)
qed

section \<open>What the reads do\<close>

lemma watch_config_snoc:
  "watch_config U from_str path_exists config_path (bs @ [([Modified], f)]) s
     = reload U f from_str path_exists config_path (watch_config U from_str path_exists config_path bs s)"
  by (induction bs arbitrary: s) (auto simp: notifies_def)

lemma watch_run_app:
  "watch_run C U from_str path_exists config_path edits n W W' \<Longrightarrow>
     \<exists>rs. wt_reads W' = wt_reads W @ rs \<and>
       wt_app W' = watch_config U from_str path_exists config_path (map (\<lambda>(t, file). ([Modified], file)) rs) (wt_app W)"
proof (induction rule: watch_run.induct)
  case (run_watch n W W1 W2)
  then obtain rs where rs: "wt_reads W1 = wt_reads W @ rs"
    "wt_app W1 = watch_config U from_str path_exists config_path (map (\<lambda>(t, file). ([Modified], file)) rs) (wt_app W)"
    by blast
  from run_watch(2) show ?case
  proof (cases rule: watch_stepE)
    case load
    with rs show ?thesis by (intro exI [of _ "rs @ [(wt_now W1, wt_file W1)]"]) (simp add: watch_config_snoc)
  qed (use rs in auto)
next
  case (run_world n W W1 W2)
  then show ?case by (auto elim!: world_stepE)
qed simp

text \<open>
  C22. The watcher implements \<open>watch_config\<close>: after any run the shared state is what \<open>watch_config\<close>
  makes of the reads in order, one batch each, so whenever the last read found a valid
  configuration, that configuration is in place. Where every edit is announced, it is the one
  in the file as soon as the work is done.
\<close>

theorem watcher_refines_watch_config:
  assumes "bounded_channel C" and begun: "watch_begin C created registered t file0 s = Inr V"
    and "watch_run C U from_str path_exists config_path w n V W"
  shows "wt_app W = watch_config U from_str path_exists config_path (map (\<lambda>(t, file). ([Modified], file)) (wt_reads W)) s \<and>
    (wt_reads W \<noteq> [] \<longrightarrow>
      (case load (snd (last (wt_reads W))) from_str config_path of Inl e \<Rightarrow> True
       | Inr c \<Rightarrow> validate U path_exists c = Inr () \<longrightarrow> config (wt_app W) = c)) \<and>
    (w \<noteq> Anything \<and> work_left C W = 0 \<and> wt_reads W \<noteq> [] \<longrightarrow>
      (case load (wt_file W) from_str config_path of Inl e \<Rightarrow> True
       | Inr c \<Rightarrow> validate U path_exists c = Inr () \<longrightarrow> config (wt_app W) = c))"
proof (intro conjI impI)
  show app: "wt_app W = watch_config U from_str path_exists config_path (map (\<lambda>(t, file). ([Modified], file)) (wt_reads W)) s"
    using watch_run_app [OF assms(3)] begun by (auto simp: watch_begin_Inr watch_start_def)
  show read: "case load (snd (last (wt_reads W))) from_str config_path of Inl e \<Rightarrow> True
      | Inr c \<Rightarrow> validate U path_exists c = Inr () \<longrightarrow> config (wt_app W) = c" if reads: "wt_reads W \<noteq> []"
  proof -
    obtain rs t' f where r: "wt_reads W = rs @ [(t', f)]"
      using reads by (metis rev_exhaust surj_pair)
    then obtain s1 where "wt_app W = reload U f from_str path_exists config_path s1"
      by (simp add: app watch_config_snoc)
    with r have "wt_app W = reload U (snd (last (wt_reads W))) from_str path_exists config_path s1" by simp
    then show ?thesis
      by (auto simp: reload_def apply_config_def reload_steps_def reload_step_defs split: sum.split)
  qed
  assume idle: "w \<noteq> Anything \<and> work_left C W = 0 \<and> wt_reads W \<noteq> []"
  have "nothing_missed C file0 V"
    using begun bounded_channel.start_missed [OF assms(1)] by (simp add: watch_begin_Inr)
  with idle have "nothing_missed C file0 W" by (intro bounded_channel.watch_run_missed [OF assms(1,3)]) simp_all
  with idle have "snd (last (wt_reads W)) = wt_file W" by (auto simp: nothing_missed_def last_read_def)
  with read idle show "case load (wt_file W) from_str config_path of Inl e \<Rightarrow> True
      | Inr c \<Rightarrow> validate U path_exists c = Inr () \<longrightarrow> config (wt_app W) = c" by simp
qed

section \<open>How often the file is read\<close>

definition reads_spaced :: "('c, 'u) watcher \<Rightarrow> bool" where
  "reads_spaced W \<longleftrightarrow> sorted_wrt (\<lambda>s t. s + debounce \<le> t) (map fst (wt_reads W)) \<and>
     (\<forall>t \<in> set (map fst (wt_reads W)).
        case wt_phase W of WaitRecv \<Rightarrow> t \<le> wt_now W | Sleeping due \<Rightarrow> t + debounce \<le> due | _ \<Rightarrow> t + debounce \<le> wt_now W)"

lemma watch_step_spaced:
  assumes "watch_step C U from_str path_exists config_path W W'" and "reads_spaced W"
  shows "reads_spaced W'"
  using assms(1)
proof (cases rule: watch_stepE)
  case (wake due)
  with assms(2) show ?thesis by (fastforce simp: reads_spaced_def)
qed (use assms(2) in \<open>auto simp: reads_spaced_def sorted_wrt_append debounce_def split: watch_phase.splits\<close>)

lemma world_step_spaced: "world_step w W W' \<Longrightarrow> reads_spaced W \<Longrightarrow> reads_spaced W'"
  by (erule world_stepE) (fastforce simp: reads_spaced_def split: watch_phase.splits)+

text \<open>
  C37. However often the file changes, two reads of it are at least half a second, 500000000
  nanoseconds, apart.
\<close>

theorem reads_are_spaced:
  assumes begun: "watch_begin C created registered t file0 s = Inr V"
    and "watch_run C U from_str path_exists config_path w n V W"
  shows "sorted_wrt (\<lambda>s t. s + 500000000 \<le> t) (map fst (wt_reads W))"
proof -
  have "reads_spaced W" if "watch_run C U from_str path_exists config_path w n W0 W" "reads_spaced W0" for n W0 W
    using that by (induction rule: watch_run.induct) (blast intro: watch_step_spaced world_step_spaced)+
  moreover have "reads_spaced V" using begun by (simp add: watch_begin_Inr reads_spaced_def watch_start_def)
  ultimately show ?thesis using assms(2) by (auto simp: reads_spaced_def debounce_def)
qed

section \<open>Witnesses\<close>

definition edited :: "string \<Rightarrow> string option" where
  "edited path = Some ''new''"

definition watching :: "nat \<Rightarrow> nat \<Rightarrow> watch_phase \<Rightarrow> instant \<Rightarrow> (nat, string) watcher" where
  "watching p q ph t = \<lparr>wt_pending = p, wt_queue = q, wt_phase = ph, wt_now = t, wt_file = edited,
     wt_reads = [], wt_app = sample_app\<rparr>"

definition after_edit :: "(nat, string) watcher" where
  "after_edit = \<lparr>wt_pending = 0, wt_queue = 0, wt_phase = WaitRecv, wt_now = debounce, wt_file = edited,
     wt_reads = [(debounce, edited)],
     wt_app = reload sample_urls edited (\<lambda>_. None) (\<lambda>_. True) ''c.toml'' sample_app\<rparr>"

abbreviation sample_run_of :: "world \<Rightarrow> nat \<Rightarrow> (nat, string) watcher \<Rightarrow> (nat, string) watcher \<Rightarrow> bool" where
  "sample_run_of \<equiv> watch_run counter_channel sample_urls (\<lambda>_. None) (\<lambda>_. True) ''c.toml''"

lemma edit_steps:
  assumes "sample_run_of w n V (watching 1 0 WaitRecv 0)"
  shows "sample_run_of w (Suc (Suc (Suc (Suc (Suc n))))) V after_edit"
proof -
  note assms
  moreover have "watch_step counter_channel sample_urls (\<lambda>_. None) (\<lambda>_. True) ''c.toml'' (watching 1 0 WaitRecv 0) (watching 0 1 WaitRecv 0)"
    using w_send [of "watching 1 0 WaitRecv 0" 0 counter_channel 1] by (simp add: watching_def counter_channel_def)
  ultimately have "sample_run_of w (Suc n) V (watching 0 1 WaitRecv 0)" by (rule run_watch)
  moreover have "watch_step counter_channel sample_urls (\<lambda>_. None) (\<lambda>_. True) ''c.toml'' (watching 0 1 WaitRecv 0) (watching 0 0 (Sleeping debounce) 0)"
    using w_recv [of "watching 0 1 WaitRecv 0" counter_channel 0] by (simp add: watching_def counter_channel_def)
  ultimately have "sample_run_of w (Suc (Suc n)) V (watching 0 0 (Sleeping debounce) 0)" by (rule run_watch)
  moreover have "world_step w (watching 0 0 (Sleeping debounce) 0) (watching 0 0 (Sleeping debounce) debounce)"
    using w_tick [of w "watching 0 0 (Sleeping debounce) 0" debounce] by (simp add: watching_def)
  ultimately have "sample_run_of w (Suc (Suc n)) V (watching 0 0 (Sleeping debounce) debounce)" by (rule run_world)
  moreover have "watch_step counter_channel sample_urls (\<lambda>_. None) (\<lambda>_. True) ''c.toml''
      (watching 0 0 (Sleeping debounce) debounce) (watching 0 0 Draining debounce)"
    using w_wake [of "watching 0 0 (Sleeping debounce) debounce" debounce] by (simp add: watching_def)
  ultimately have "sample_run_of w (Suc (Suc (Suc n))) V (watching 0 0 Draining debounce)" by (rule run_watch)
  moreover have "watch_step counter_channel sample_urls (\<lambda>_. None) (\<lambda>_. True) ''c.toml'' (watching 0 0 Draining debounce) (watching 0 0 Loading debounce)"
    using w_drained [of "watching 0 0 Draining debounce" counter_channel] by (simp add: watching_def counter_channel_def)
  ultimately have "sample_run_of w (Suc (Suc (Suc (Suc n)))) V (watching 0 0 Loading debounce)" by (rule run_watch)
  moreover have "watch_step counter_channel sample_urls (\<lambda>_. None) (\<lambda>_. True) ''c.toml'' (watching 0 0 Loading debounce) after_edit"
    using w_load [of "watching 0 0 Loading debounce"] by (simp add: watching_def after_edit_def)
  ultimately show ?thesis by (rule run_watch)
qed

lemma sample_begun:
  "watch_begin counter_channel (Inr () :: string + unit) (Inr ()) 0 (\<lambda>_. None) sample_app
   = Inr (watch_start counter_channel 0 (\<lambda>_. None) sample_app)"
  by (simp add: watch_begin_Inr)

lemma sample_edited:
  "(watch_start counter_channel 0 (\<lambda>_. None) sample_app)\<lparr>wt_file := edited,
     wt_pending := wt_pending (watch_start counter_channel 0 (\<lambda>_. None) sample_app) + of_bool (notifies Modified)\<rparr>
   = watching 1 0 WaitRecv 0"
  by (simp add: watch_start_def counter_channel_def watching_def notifies_def)

lemma edit_run: "sample_run_of Announced 5 (watch_start counter_channel 0 (\<lambda>_. None) sample_app) after_edit"
proof -
  have "world_step Announced (watch_start counter_channel 0 (\<lambda>_. None) sample_app) (watching 1 0 WaitRecv 0)"
    using w_event [of Announced Modified edited "watch_start counter_channel 0 (\<lambda>_. None) sample_app"]
    unfolding sample_edited by simp
  from edit_steps [OF run_world [OF run_refl this]] show ?thesis by (simp add: eval_nat_numeral)
qed

lemma watcher_catches_up_witness:
  "work_left counter_channel after_edit = 0 \<and> last_read (\<lambda>_. None) after_edit = edited"
proof -
  have w: "work_left counter_channel after_edit = 0" by (simp add: work_left_0 after_edit_def counter_channel_def)
  have announced: "content_event Modified" by simp
  note quiet = edit_steps [OF run_refl, of Quiet, folded sample_edited]
  from watcher_catches_up [OF counter.bounded_channel_axioms sample_begun run_refl announced quiet] w show ?thesis
    by simp
qed

lemma watcher_refines_watch_config_witness:
  "wt_app after_edit = watch_config sample_urls (\<lambda>_. None) (\<lambda>_. True) ''c.toml'' [([Modified], edited)] sample_app"
  using watcher_refines_watch_config [OF counter.bounded_channel_axioms sample_begun edit_run] by (simp add: after_edit_def)

lemma reads_are_spaced_witness:
  "sorted_wrt (\<lambda>s t. s + 500000000 \<le> t) [debounce] \<and> map fst (wt_reads after_edit) = [debounce]"
  using reads_are_spaced [OF sample_begun edit_run] by (simp add: after_edit_def)

end
