(* ===== verification/Traffic.thy ===== *)
theory Traffic
  imports System
begin

text \<open>
  Rate limiting end to end: the requests of all clients arriving at the running proxy, with the
  bookkeeping of earlier requests, the results of active checks, the rebuilding of the router
  by discovery and the cleanup of idle buckets in between. What is bounded is the number of
  requests of one address that reach an origin through the routes that share a limiter.
\<close>

section \<open>Traffic\<close>

datatype 'u traffic =
    Arrive "nat \<Rightarrow> instant" rng ip_addr request
  | Finish duration string "proxy_error + response"
  | Checked checker string check_result
  | Rebuilt "(string, 'u list) store"
  | Cleaned "string option \<Rightarrow> ip_addr \<Rightarrow> instant"

fun traffic_step :: "'u url_ops \<Rightarrow> http_ops \<Rightarrow> 'u traffic \<Rightarrow> 'u app_state \<Rightarrow> 'u verdict option \<times> 'u app_state" where
  "traffic_step U H (Arrive clock g ip req) s = (let (v, s') = admit U H clock g ip req s in (Some v, s'))"
| "traffic_step U H (Finish latency key result) s = (None, finish_request latency key result s)"
| "traffic_step U H (Checked ck base result) s = (None, check_target ck base result s)"
| "traffic_step U H (Rebuilt m) s = (None, rebuild_router U m s)"
| "traffic_step U H (Cleaned clock) s = (None, cleanup_limiters clock s)"

lemma traffic_step_ok: "app_ok U s \<Longrightarrow> app_ok U (snd (traffic_step U H e s))"
  by (cases e) (auto simp: admit_ok finish_request_ok check_target_ok rebuild_router_ok cleanup_limiters_ok
      split_beta)

text \<open>The limiter a request is charged to, if a route matches it.\<close>

definition slot_for :: "http_ops \<Rightarrow> 'u app_state \<Rightarrow> request \<Rightarrow> string option option" where
  "slot_for H s req =
     (case match_route (router s) (request_host H req) (rq_path req) of
        None \<Rightarrow> None
      | Some k \<Rightarrow> Some (charged_slot (re_key (entries (router s) ! k)) s))"

fun charged_to :: "http_ops \<Rightarrow> 'u app_state \<Rightarrow> string option \<Rightarrow> ip_addr \<Rightarrow> 'u traffic \<Rightarrow> bool" where
  "charged_to H s slot ip (Arrive clock g ip' req) \<longleftrightarrow> ip' = ip \<and> slot_for H s req = Some slot"
| "charged_to H s slot ip _ \<longleftrightarrow> False"

text \<open>How many requests of the address, charged to the slot, are forwarded to an origin.\<close>

fun forwarded ::
  "'u url_ops \<Rightarrow> http_ops \<Rightarrow> string option \<Rightarrow> ip_addr \<Rightarrow> 'u traffic list \<Rightarrow> 'u app_state \<Rightarrow> nat" where
  "forwarded U H slot ip [] s = 0"
| "forwarded U H slot ip (e # es) s =
     (let (v, s') = traffic_step U H e s
      in (if charged_to H s slot ip e \<and> (case v of Some (Forward og) \<Rightarrow> True | _ \<Rightarrow> False) then 1 else 0) +
         forwarded U H slot ip es s')"

text \<open>What happens to the bucket of the address: requests charged to it, forwarded or not, and cleanups.\<close>

datatype bucket_op = Request "nat \<Rightarrow> instant" | Sweep instant

fun bucket_ops ::
  "'u url_ops \<Rightarrow> http_ops \<Rightarrow> string option \<Rightarrow> ip_addr \<Rightarrow> 'u traffic list \<Rightarrow> 'u app_state \<Rightarrow> bucket_op list" where
  "bucket_ops U H slot ip [] s = []"
| "bucket_ops U H slot ip (e # es) s =
     (case e of
        Arrive clock g ip' req \<Rightarrow> if charged_to H s slot ip e then [Request clock] else []
      | Cleaned clock \<Rightarrow> [Sweep (clock slot ip)]
      | _ \<Rightarrow> []) @
     bucket_ops U H slot ip es (snd (traffic_step U H e s))"

text \<open>The readings of the clock in it, in order, and the number of requests.\<close>

fun op_readings :: "bucket_op \<Rightarrow> instant list" where
  "op_readings (Request c) = [c 0, c 1, c 2]"
| "op_readings (Sweep t) = [t]"

definition readings :: "bucket_op list \<Rightarrow> instant list" where
  "readings ops = concat (map op_readings ops)"

lemma readings_simps [simp]:
  "readings [] = []" "readings (p # ops) = op_readings p @ readings ops"
  by (simp_all add: readings_def)

fun n_requests :: "bucket_op list \<Rightarrow> nat" where
  "n_requests [] = 0"
| "n_requests (Request c # ops) = Suc (n_requests ops)"
| "n_requests (Sweep t # ops) = n_requests ops"

section \<open>A bucket over a window of time\<close>

definition spend :: "u32 \<Rightarrow> u32 \<Rightarrow> (nat \<Rightarrow> instant) \<Rightarrow> token_bucket option \<Rightarrow> bool \<times> token_bucket" where
  "spend rate burst c bo = (case bo of
     Some b \<Rightarrow> try_consume (c 0) b | None \<Rightarrow> try_consume (c 2) (bucket_new rate burst (c 0) (c 1)))"

definition swept :: "instant \<Rightarrow> token_bucket option \<Rightarrow> token_bucket option" where
  "swept t bo = (case bo of None \<Rightarrow> None | Some b \<Rightarrow> if is_stale t (from_secs 300) b then None else Some b)"

fun bucket_run :: "u32 \<Rightarrow> u32 \<Rightarrow> bucket_op list \<Rightarrow> token_bucket option \<Rightarrow> bool list" where
  "bucket_run rate burst [] bo = []"
| "bucket_run rate burst (Request c # ops) bo =
     (let (allowed, b) = spend rate burst c bo in allowed # bucket_run rate burst ops (Some b))"
| "bucket_run rate burst (Sweep t # ops) bo = bucket_run rate burst ops (swept t bo)"

lemma bucket_run_Request:
  "bucket_run rate burst (Request c # ops) bo
     = fst (spend rate burst c bo) # bucket_run rate burst ops (Some (snd (spend rate burst c bo)))"
  by (simp split: prod.split)

text \<open>
  What a bucket is worth at a moment: its tokens and what it has earned since, at most its burst.
  An address without a bucket has the burst.
\<close>

definition worth :: "u32 \<Rightarrow> u32 \<Rightarrow> instant \<Rightarrow> token_bucket option \<Rightarrow> rat" where
  "worth rate burst t bo = (case bo of
     Some b \<Rightarrow> if last_refill b \<le> t then min (u32_as_f64 burst) (tokens b + earned rate (t - last_refill b))
               else u32_as_f64 burst
   | None \<Rightarrow> u32_as_f64 burst)"

definition slot_ok :: "u32 \<Rightarrow> u32 \<Rightarrow> token_bucket option \<Rightarrow> bool" where
  "slot_ok rate burst bo \<longleftrightarrow>
     (case bo of None \<Rightarrow> True | Some b \<Rightarrow> bucket_ok rate burst b \<and> last_refill b = last_used b)"

lemma worth_le_burst: "worth rate burst t bo \<le> u32_as_f64 burst"
  by (simp add: worth_def split: option.split)

lemma worth_later:
  assumes "t \<le> t'"
  shows "worth rate burst t' bo \<le> worth rate burst t bo + earned rate (t' - t)"
proof (cases bo)
  case (Some b)
  show ?thesis
  proof (cases "last_refill b \<le> t")
    case True
    with assms have "earned rate (t' - last_refill b) = earned rate (t - last_refill b) + earned rate (t' - t)"
      by (simp flip: earned_add)
    moreover have "min B (x + (y + z)) \<le> min B (x + y) + z" if "0 \<le> z" for B x y z :: rat
      using that by (auto simp: min_def)
    ultimately show ?thesis using True assms Some by (simp add: worth_def)
  next
    case False
    with Some worth_le_burst [of rate burst t' bo] show ?thesis
      by (simp add: worth_def add_increasing2)
  qed
qed (simp add: worth_def)

lemma refilled_worth:
  assumes "bucket_ok rate burst b"
  shows "refilled t b \<le> worth rate burst t (Some b) + (2 powi (-18) + 2 powi (-20) + 2 powi (-19))"
  using refilled_upper [OF assms, of t] refilled_bounds(2) [OF assms, of t] by (auto simp: worth_def min_def)

lemma consume_worth:
  assumes "bucket_ok rate burst b"
  shows "of_bool (fst (try_consume t b)) + worth rate burst t (Some (snd (try_consume t b)))
    \<le> refilled t b + 2 powi (-22)"
proof -
  have "refilled t b < 2 ^ 32" using refilled_bounds(2) [OF assms] u32_as_f64_less by (rule le_less_trans)
  then have "fl (refilled t b - 1) \<le> refilled t b - 1 + 2 powi (32 - 54)" if "1 \<le> refilled t b"
    using that by (intro fl_upper) auto
  then show ?thesis by (auto simp: worth_def try_consume_fields earned_def)
qed

text \<open>A request costs what it takes out, a cleanup nothing where the burst is earned in five minutes.\<close>

lemma spend_worth:
  assumes "slot_ok rate burst bo" and "c 0 \<le> c 1" and "c 1 \<le> c 2"
  shows "of_bool (fst (spend rate burst c bo)) + worth rate burst (c 2) (Some (snd (spend rate burst c bo)))
    \<le> worth rate burst (c 0) bo + earned rate (c 2 - c 0) + refill_slack"
proof (cases bo)
  case None
  have "of_bool (fst (spend rate burst c bo)) + worth rate burst (c 2) (Some (snd (spend rate burst c bo)))
      \<le> u32_as_f64 burst + 2 powi (-22)"
    using consume_worth [OF bucket_new_ok, of "c 2" rate burst "c 0" "c 1"] by (simp add: None spend_def refilled_new)
  moreover have "2 powi (-22) \<le> refill_slack" by (simp add: refill_slack_def)
  moreover have "worth rate burst (c 0) bo = u32_as_f64 burst" by (simp add: None worth_def)
  moreover have "0 \<le> earned rate (c 2 - c 0)" by simp
  ultimately show ?thesis by linarith
next
  case (Some b)
  then have ok: "bucket_ok rate burst b" using assms(1) by (simp add: slot_ok_def)
  let ?b = "snd (try_consume (c 0) b)"
  have "worth rate burst (c 2) (Some ?b) \<le> worth rate burst (c 0) (Some ?b) + earned rate (c 2 - c 0)"
    using assms(2,3) by (intro worth_later) simp
  with consume_worth [OF ok, of "c 0"] refilled_worth [OF ok, of "c 0"] show ?thesis
    by (simp add: Some spend_def refill_slack_def)
qed

lemma sweep_worth:
  assumes "slot_ok rate burst bo" and "unat burst \<le> 300 * unat rate"
  shows "worth rate burst t (swept t bo) \<le> worth rate burst t bo"
proof (cases "swept t bo = bo")
  case False
  then obtain b where b: "bo = Some b" "swept t bo = None" "is_stale t (from_secs 300) b"
    by (cases bo) (auto simp: swept_def split: if_splits)
  then have "from_secs 300 \<le> t - last_refill b" and tok: "0 \<le> tokens b"
    using assms(1) by (simp_all add: slot_ok_def is_stale_def bucket_ok_def)
  then have "earned rate (from_secs 300) \<le> earned rate (t - last_refill b)"
    unfolding earned_def by (intro mult_right_mono divide_right_mono) auto
  moreover have "u32_as_f64 burst \<le> earned rate (from_secs 300)"
  proof (rule u32_as_f64_exact [of rate], rule u32_as_f64_exact [of burst])
    fix r n :: nat
    assume "unat rate = r" "u32_as_f64 rate = of_nat r" "unat burst = n" "u32_as_f64 burst = of_nat n"
    then show ?thesis using assms(2) by (simp add: earned_def from_secs_def flip: of_nat_mult)
  qed
  ultimately have "u32_as_f64 burst \<le> tokens b + earned rate (t - last_refill b)" using tok by linarith
  then show ?thesis using b by (simp add: worth_def)
qed simp

lemma spend_slot_ok: "slot_ok rate burst bo \<Longrightarrow> slot_ok rate burst (Some (snd (spend rate burst c bo)))"
  by (auto simp: slot_ok_def spend_def try_consume_ok bucket_new_ok try_consume_fields split: option.splits)

lemma swept_slot_ok: "slot_ok rate burst bo \<Longrightarrow> slot_ok rate burst (swept t bo)"
  by (auto simp: slot_ok_def swept_def split: option.splits)

lemma bucket_run_worth:
  assumes "slot_ok rate burst bo" and "sorted (t0 # readings ops @ [t1])"
    and "list_all (\<lambda>p. case p of Request c \<Rightarrow> True | Sweep t \<Rightarrow> unat burst \<le> 300 * unat rate) ops"
  shows "of_nat (n_allowed (bucket_run rate burst ops bo))
    \<le> worth rate burst t0 bo + earned rate (t1 - t0) + of_nat (n_requests ops) * refill_slack"
  using assms
proof (induction ops arbitrary: bo t0)
  case Nil
  have "0 \<le> worth rate burst t0 bo"
    using Nil.prems(1) by (auto simp: worth_def slot_ok_def bucket_ok_def split: option.splits)
  then show ?case by (simp add: n_allowed_def)
next
  case (Cons p ops)
  show ?case
  proof (cases p)
    case (Request c)
    define b where "b = snd (spend rate burst c bo)"
    have times: "t0 \<le> c 0" "c 0 \<le> c 1" "c 1 \<le> c 2" "c 2 \<le> t1" "sorted (c 2 # readings ops @ [t1])"
      using Cons.prems(2) Request by auto
    have "of_nat (n_allowed (bucket_run rate burst ops (Some b)))
        \<le> worth rate burst (c 2) (Some b) + earned rate (t1 - c 2) + of_nat (n_requests ops) * refill_slack"
      using Cons.prems(1,3) times(5) by (intro Cons.IH) (simp_all add: b_def spend_slot_ok)
    moreover have "n_allowed (bucket_run rate burst (p # ops) bo)
        = of_bool (fst (spend rate burst c bo)) + n_allowed (bucket_run rate burst ops (Some b))"
      by (simp only: Request bucket_run_Request b_def) (simp add: n_allowed_def)
    moreover have "earned rate (t1 - t0) = earned rate (c 0 - t0) + earned rate (c 2 - c 0) + earned rate (t1 - c 2)"
      using times by (simp flip: earned_add)
    ultimately show ?thesis
      using spend_worth [of rate burst bo c, OF Cons.prems(1) times(2,3)] worth_later [OF times(1), of rate burst bo]
      by (simp add: Request b_def distrib_right)
  next
    case (Sweep t)
    have times: "t0 \<le> t" "t \<le> t1" "sorted (t # readings ops @ [t1])" using Cons.prems(2) Sweep by auto
    have "of_nat (n_allowed (bucket_run rate burst ops (swept t bo)))
        \<le> worth rate burst t (swept t bo) + earned rate (t1 - t) + of_nat (n_requests ops) * refill_slack"
      using Cons.prems(1,3) times(3) by (intro Cons.IH) (simp_all add: swept_slot_ok)
    moreover have "worth rate burst t (swept t bo) \<le> worth rate burst t bo"
      using Cons.prems(1,3) Sweep by (intro sweep_worth) simp_all
    moreover have "earned rate (t1 - t0) = earned rate (t - t0) + earned rate (t1 - t)"
      using times by (simp flip: earned_add)
    ultimately show ?thesis using worth_later [OF times(1), of rate burst bo] by (simp add: Sweep)
  qed
qed

section \<open>What traffic keeps\<close>

definition limiter_at :: "'u app_state \<Rightarrow> string option \<Rightarrow> rate_limiter option" where
  "limiter_at s slot = (case slot of None \<Rightarrow> ratelimiter s | Some key \<Rightarrow> store_get (route_ratelimiters s) key)"

definition limits_of :: "'u app_state \<Rightarrow> string option \<Rightarrow> (u32 \<times> u32) option" where
  "limits_of s slot = map_option (\<lambda>l. (lim_rate l, lim_burst l)) (limiter_at s slot)"

text \<open>Patterns and keys of the routes, which decide where a request goes.\<close>

definition route_shape :: "'u router \<Rightarrow> (string option \<times> string option \<times> string) list" where
  "route_shape R = map (\<lambda>e. (re_match_host e, re_match_path e, re_key e)) (entries R)"

definition shape_settled :: "'u url_ops \<Rightarrow> 'u app_state \<Rightarrow> bool" where
  "shape_settled U s \<longleftrightarrow> route_shape (router s) = route_shape (from_config U (config s))"

lemma match_entries_shape:
  "map (\<lambda>e. (re_match_host e, re_match_path e)) es = map (\<lambda>e. (re_match_host e, re_match_path e)) es' \<Longrightarrow>
     match_entries host path i es = match_entries host path i es'"
  by (induction es arbitrary: i es') (auto simp: entry_matches_def Cons_eq_map_conv)

lemma slot_for_cong:
  assumes "route_shape (router s) = route_shape (router s')"
    and "dom (store_get (route_ratelimiters s)) = dom (store_get (route_ratelimiters s'))"
  shows "slot_for H s req = slot_for H s' req"
proof -
  have "map (\<lambda>(h, p, k). (h, p)) (route_shape (router s)) = map (\<lambda>(h, p, k). (h, p)) (route_shape (router s'))"
    using assms(1) by simp
  then have "map (\<lambda>e. (re_match_host e, re_match_path e)) (entries (router s))
      = map (\<lambda>e. (re_match_host e, re_match_path e)) (entries (router s'))"
    by (simp add: route_shape_def comp_def)
  then have m: "match_route (router s) h p = match_route (router s') h p" for h p
    unfolding match_route_def by (rule match_entries_shape)
  have "re_key (entries (router s) ! k) = re_key (entries (router s') ! k)"
    if "match_route (router s') h p = Some k" for h p k
  proof -
    have "k < length (entries (router s'))" "k < length (entries (router s))"
      using that m [of h p] by (auto dest: match_route_index)
    with arg_cong [where f = "\<lambda>xs. snd (snd (xs ! k))", OF assms(1)] show ?thesis by (simp add: route_shape_def)
  qed
  moreover have "charged_slot key s = charged_slot key s'" for key
    using assms(2) by (metis charged_slot_def domIff)
  ultimately show ?thesis by (auto simp: slot_for_def m split: option.split)
qed

lemma route_shape_set_balancer:
  "k < length (entries R) \<Longrightarrow> route_shape (set_balancer k b R) = route_shape R"
  by (simp add: route_shape_def set_balancer_entries map_update list_update_same_conv)

lemma route_shape_k8s: "route_shape (from_config_with_k8s U c m) = route_shape (from_config U c)"
  by (simp add: route_shape_def from_config_with_k8s_def from_config_def entry_for_def comp_def)

lemma admit_shape:
  "route_shape (router (snd (admit U H clock g ip req s))) = route_shape (router s)"
proof (cases rule: admit_cases [of s H req U clock g ip])
  case (limited k s1)
  with check_limits_fields(1) [of clock ip "re_key (entries (router s) ! k)" s] show ?thesis by simp
next
  case (selected k s1 picked b s2)
  with match_route_index [OF selected(1)] show ?thesis by (simp add: route_shape_set_balancer split: option.split)
qed simp

lemma check_limits_keeps:
  "dom (store_get (route_ratelimiters (snd (check_limits clock ip key s)))) = dom (store_get (route_ratelimiters s))"
  "limits_of (snd (check_limits clock ip key s)) slot = limits_of s slot"
proof -
  have rates: "lim_rate l' = lim_rate l" "lim_burst l' = lim_burst l"
    if "limiter_check clock ip l = (a, l')" for a l l'
    using limiter_check_rates [of clock ip l] that by simp_all
  show "dom (store_get (route_ratelimiters (snd (check_limits clock ip key s)))) = dom (store_get (route_ratelimiters s))"
    by (auto simp: check_limits_def store_gets split: option.splits prod.splits if_splits)
  show "limits_of (snd (check_limits clock ip key s)) slot = limits_of s slot"
    by (auto simp: check_limits_def limits_of_def limiter_at_def store_gets rates
        split: option.splits prod.splits if_splits)
qed

lemma finish_check_keeps:
  "limits_of (finish_request d key r s) slot = limits_of s slot"
  "limits_of (check_target ck base res s) slot = limits_of s slot"
  "limits_of (rebuild_router U m s) slot = limits_of s slot"
  "bucket_at (finish_request d key r s) slot ip = bucket_at s slot ip"
  "bucket_at (check_target ck base res s) slot ip = bucket_at s slot ip"
  "bucket_at (rebuild_router U m s) slot ip = bucket_at s slot ip"
  by (simp_all add: limits_of_def limiter_at_def bucket_at_def proj_simps cong: option.case_cong)

lemma cleanup_keeps:
  "limits_of (cleanup_limiters clock s) slot = limits_of s slot"
  "dom (store_get (route_ratelimiters (cleanup_limiters clock s))) = dom (store_get (route_ratelimiters s))"
  by (auto simp: limits_of_def limiter_at_def cleanup_limiters_def store_map_get option.map_comp comp_def cleanup_rates
      split: option.splits)

lemma cleanup_bucket_at:
  assumes "app_ok U s"
  shows "bucket_at (cleanup_limiters clock s) slot ip = swept (clock slot ip) (bucket_at s slot ip)"
proof -
  have "store_ok (buckets l)" if "limiter_at s slot = Some l" for l
    using that assms by (auto simp: limiter_at_def app_ok_def limiters_ok_def limiter_ok_def split: option.splits)
  then show ?thesis
    by (auto simp: bucket_at_def limiter_at_def cleanup_limiters_def store_map_get cleanup_stale_bucket swept_def
        split: option.splits)
qed

lemma admit_keeps:
  "dom (store_get (route_ratelimiters (snd (admit U H clock g ip req s)))) = dom (store_get (route_ratelimiters s))"
  "limits_of (snd (admit U H clock g ip req s)) slot = limits_of s slot"
proof -
  have "dom (store_get (route_ratelimiters (snd (admit U H clock g ip req s)))) = dom (store_get (route_ratelimiters s)) \<and>
    limits_of (snd (admit U H clock g ip req s)) slot = limits_of s slot"
  proof (cases rule: admit_cases [of s H req U clock g ip])
    case (limited k s1)
    with check_limits_keeps [of clock ip "re_key (entries (router s) ! k)" s] show ?thesis by simp
  next
    case (selected k s1 picked b s2)
    have "limits_of s2 slot = limits_of s1 slot" "route_ratelimiters s2 = route_ratelimiters s1"
      by (simp_all add: selected(5) limits_of_def limiter_at_def cong: option.case_cong)
    with selected check_limits_keeps [of clock ip "re_key (entries (router s) ! k)" s] show ?thesis
      by (simp split: option.split)
  qed simp
  then show "dom (store_get (route_ratelimiters (snd (admit U H clock g ip req s)))) = dom (store_get (route_ratelimiters s))"
    and "limits_of (snd (admit U H clock g ip req s)) slot = limits_of s slot" by simp_all
qed

lemma traffic_step_keeps:
  assumes "shape_settled U s" and "traffic_step U H e s = (v, s')"
  shows "shape_settled U s' \<and> slot_for H s' = slot_for H s \<and> limits_of s' = limits_of s"
proof -
  have keep: "shape_settled U s' \<and> route_shape (router s') = route_shape (router s) \<and>
      dom (store_get (route_ratelimiters s')) = dom (store_get (route_ratelimiters s)) \<and> limits_of s' = limits_of s"
  proof (cases e)
    case (Arrive clock g ip req)
    then have "s' = snd (admit U H clock g ip req s)" using assms(2) by (auto split: prod.splits)
    with assms(1) show ?thesis by (auto simp: shape_settled_def admit_shape admit_keeps proj_simps)
  next
    case (Rebuilt m)
    then have s': "s' = rebuild_router U m s" using assms(2) by simp
    then have "router s' = from_config_with_k8s U (config s) m"
      by (simp add: rebuild_router_def register_k8s_origins_def swap_k8s_router_def)
    with assms(1) s' show ?thesis
      by (auto simp: shape_settled_def route_shape_k8s proj_simps finish_check_keeps)
  next
    case (Cleaned clock)
    then have "s' = cleanup_limiters clock s" using assms(2) by simp
    with assms(1) show ?thesis by (simp add: shape_settled_def proj_simps cleanup_keeps fun_eq_iff)
  qed (use assms in \<open>auto simp: shape_settled_def proj_simps finish_check_keeps\<close>)
  then have "slot_for H s' req = slot_for H s req" for req by (intro slot_for_cong) simp_all
  with keep show ?thesis by auto
qed

section \<open>The bucket a request is charged to\<close>

lemma check_limits_spend:
  assumes "charged_slot key s = slot" and "limits_of s slot = Some (rate, burst)"
  shows "fst (check_limits clock ip key s) = fst (spend rate burst clock (bucket_at s slot ip)) \<and>
    bucket_at (snd (check_limits clock ip key s)) slot ip = Some (snd (spend rate burst clock (bucket_at s slot ip)))"
proof -
  have l: "fst (limiter_check clock ip l) = fst (spend (lim_rate l) (lim_burst l) clock (store_get (buckets l) ip)) \<and>
      store_get (buckets (snd (limiter_check clock ip l))) ip
        = Some (snd (spend (lim_rate l) (lim_burst l) clock (store_get (buckets l) ip)))" for l
    by (simp add: limiter_check_bucket spend_def)
  show ?thesis
  proof (cases "store_get (route_ratelimiters s) key")
    case None
    with assms l show ?thesis
      by (auto simp: charged_slot_def limits_of_def limiter_at_def check_limits_def bucket_at_def split: prod.splits)
         (metis fst_conv snd_conv)+
  next
    case (Some l')
    with assms l [of l'] show ?thesis
      by (auto simp: charged_slot_def limits_of_def limiter_at_def check_limits_def bucket_at_def store_gets
          split: prod.splits)
  qed
qed

lemma admit_spend:
  assumes "slot_for H s req = Some slot" and "limits_of s slot = Some (rate, burst)"
    and "admit U H clock g ip req s = (v, s')"
  shows "bucket_at s' slot ip = Some (snd (spend rate burst clock (bucket_at s slot ip))) \<and>
    (case v of Forward og \<Rightarrow> fst (spend rate burst clock (bucket_at s slot ip)) | Respond r \<Rightarrow> True)"
proof (cases rule: admit_cases [of s H req U clock g ip])
  case no_route
  with assms(1) show ?thesis by (simp add: slot_for_def)
next
  case (limited k s1)
  then have "charged_slot (re_key (entries (router s) ! k)) s = slot" using assms(1) by (simp add: slot_for_def)
  from check_limits_spend [OF this assms(2), of clock ip] limited assms(3) show ?thesis by auto
next
  case (selected k s1 picked b s2)
  then have "charged_slot (re_key (entries (router s) ! k)) s = slot" using assms(1) by (simp add: slot_for_def)
  note spend = check_limits_spend [OF this assms(2), of clock ip]
  have "bucket_at s2 slot ip = bucket_at s1 slot ip" by (rule bucket_at_cong) (simp_all add: selected(5))
  with spend selected assms(3) show ?thesis by (auto split: option.splits)
qed

lemma charged_step:
  assumes "charged_to H s slot ip e" and "limits_of s slot = Some (rate, burst)" and "traffic_step U H e s = (v, s')"
  obtains clock g req where "e = Arrive clock g ip req"
    and "bucket_at s' slot ip = Some (snd (spend rate burst clock (bucket_at s slot ip)))"
    and "case v of Some (Forward og) \<Rightarrow> fst (spend rate burst clock (bucket_at s slot ip)) | _ \<Rightarrow> True"
proof -
  from assms(1) obtain clock g req where e: "e = Arrive clock g ip req" "slot_for H s req = Some slot"
    by (cases e) auto
  obtain w where w: "admit U H clock g ip req s = (w, s')" "v = Some w"
    using assms(3) e(1) by (auto split: prod.splits)
  from admit_spend [OF e(2) assms(2) w(1)] e(1) w(2) show thesis by (intro that) (auto split: verdict.splits)
qed

lemma uncharged_step:
  assumes "app_ok U s" and "\<not> charged_to H s slot ip e" and "traffic_step U H e s = (v, s')"
  shows "bucket_at s' slot ip =
    (case e of Cleaned clock \<Rightarrow> swept (clock slot ip) (bucket_at s slot ip) | _ \<Rightarrow> bucket_at s slot ip)"
proof (cases e)
  case (Arrive clock g ip' req)
  then have "s' = snd (admit U H clock g ip' req s)" using assms(3) by (auto split: prod.splits)
  moreover have "bucket_at (snd (admit U H clock g ip' req s)) slot ip = bucket_at s slot ip"
    using assms(2) Arrive by (intro admit_bucket_at) (auto simp: slot_for_def split: option.splits)
  ultimately show ?thesis using Arrive by simp
qed (use assms in \<open>auto simp: finish_check_keeps cleanup_bucket_at\<close>)

lemma n_allowed_Cons: "n_allowed (a # rs) = of_bool a + n_allowed rs"
  by (simp add: n_allowed_def)

lemma forwarded_spends:
  assumes "app_ok U s" and "shape_settled U s" and "limits_of s slot = Some (rate, burst)"
  shows "forwarded U H slot ip es s
    \<le> n_allowed (bucket_run rate burst (bucket_ops U H slot ip es s) (bucket_at s slot ip))"
  using assms
proof (induction es arbitrary: s)
  case (Cons e es)
  obtain v s' where step: "traffic_step U H e s = (v, s')" by force
  note keeps = traffic_step_keeps [OF Cons.prems(2) step]
  have IH: "forwarded U H slot ip es s'
    \<le> n_allowed (bucket_run rate burst (bucket_ops U H slot ip es s') (bucket_at s' slot ip))"
    using keeps Cons.prems traffic_step_ok [OF Cons.prems(1), of H e] step by (intro Cons.IH) simp_all
  show ?case
  proof (cases "charged_to H s slot ip e")
    case True
    from charged_step [OF True Cons.prems(3) step] obtain clock g req where e: "e = Arrive clock g ip req"
      "bucket_at s' slot ip = Some (snd (spend rate burst clock (bucket_at s slot ip)))"
      "case v of Some (Forward og) \<Rightarrow> fst (spend rate burst clock (bucket_at s slot ip)) | _ \<Rightarrow> True" .
    have "bucket_ops U H slot ip (e # es) s = Request clock # bucket_ops U H slot ip es s'"
      using True step e(1) by simp
    moreover have "(if case v of Some (Forward og) \<Rightarrow> True | _ \<Rightarrow> False then 1 else 0)
        \<le> (of_bool (fst (spend rate burst clock (bucket_at s slot ip))) :: nat)"
      using e(3) by (auto split: option.splits verdict.splits)
    moreover have "forwarded U H slot ip (e # es) s
        = (if case v of Some (Forward og) \<Rightarrow> True | _ \<Rightarrow> False then 1 else 0) + forwarded U H slot ip es s'"
      using True step by simp
    ultimately show ?thesis using IH by (simp only: bucket_run_Request n_allowed_Cons e(2))
  next
    case False
    have "bucket_ops U H slot ip (e # es) s
        = (case e of Cleaned clock \<Rightarrow> [Sweep (clock slot ip)] | _ \<Rightarrow> []) @ bucket_ops U H slot ip es s'"
      using False step by (cases e) auto
    moreover have "forwarded U H slot ip (e # es) s = forwarded U H slot ip es s'" using False step by simp
    ultimately show ?thesis
      using IH uncharged_step [OF Cons.prems(1) False step] by (simp split: traffic.splits)
  qed
qed (simp add: n_allowed_def)

lemma slot_bucket_ok:
  assumes "app_ok U s" and "limits_of s slot = Some (rate, burst)"
  shows "slot_ok rate burst (bucket_at s slot ip)"
  using assms
  by (auto simp: slot_ok_def limits_of_def limiter_at_def bucket_at_def app_ok_def limiters_ok_def limiter_ok_def
      split: option.splits)

lemma bucket_ops_sweeps:
  "Sweep t \<in> set (bucket_ops U H slot ip es s) \<Longrightarrow> \<exists>clock. Cleaned clock \<in> set es"
  by (induction es arbitrary: s) (auto split: traffic.splits if_splits)

text \<open>
  C3. The rate limit holds end to end. Take any window of time and everything the proxy does in it
  short of a reload: requests of all clients, the bookkeeping of others, checks, rebuilds of the
  router, and the cleanup of idle buckets where the burst is at most 300 times the rate. Of one
  address at most the burst plus the rate times the length of the window requests are forwarded
  to origins through the routes that share a limiter, up to \<open>2 ^ -17\<close> of a request of rounding per
  arrival.
\<close>

theorem traffic_is_rate_limited:
  assumes "app_ok U s" and "shape_settled U s" and "limits_of s slot = Some (rate, burst)"
    and "(\<exists>clock. Cleaned clock \<in> set es) \<longrightarrow> unat burst \<le> 300 * unat rate"
    and "sorted (t0 # readings (bucket_ops U H slot ip es s) @ [t1])"
  shows "of_nat (forwarded U H slot ip es s)
    \<le> u32_as_f64 burst + of_nat (t1 - t0) / of_nat nanos_per_sec * u32_as_f64 rate
       + of_nat (n_requests (bucket_ops U H slot ip es s)) / 131072"
proof -
  let ?ops = "bucket_ops U H slot ip es s"
  have "list_all (\<lambda>p. case p of Request c \<Rightarrow> True | Sweep t \<Rightarrow> unat burst \<le> 300 * unat rate) ?ops"
    using assms(4) bucket_ops_sweeps by (fastforce simp: list_all_iff split: bucket_op.split)
  note run = bucket_run_worth [OF slot_bucket_ok [OF assms(1,3), of ip] assms(5) this]
  have "(of_nat (forwarded U H slot ip es s) :: rat) \<le> of_nat (n_allowed (bucket_run rate burst ?ops (bucket_at s slot ip)))"
    unfolding of_nat_le_iff by (rule forwarded_spends [OF assms(1,2,3)])
  with run worth_le_burst [of rate burst t0 "bucket_at s slot ip"] show ?thesis
    by (simp add: earned_def refill_slack_def)
qed

section \<open>Witness\<close>

text \<open>A cleanup and seven requests at one instant to a route with a burst of five: at most five are forwarded.\<close>

definition limited_get :: request where
  "limited_get = sample_get\<lparr>rq_path := ''/a''\<rparr>"

definition sample_limited_app :: "string app_state" where
  "sample_limited_app = app_new sample_urls (\<lambda>_. None) (sample_config [limited_route None 5])"

definition rush :: "string traffic list" where
  "rush = Cleaned (\<lambda>_ _. 0) # replicate 7 (Arrive (\<lambda>_. 0) sample_rng (IpV4 7) limited_get)"

lemma burst_ops:
  assumes "shape_settled U s" and "slot_for H s req = Some slot"
  shows "bucket_ops U H slot ip (replicate n (Arrive clock g ip req)) s = replicate n (Request clock)"
  using assms
proof (induction n arbitrary: s)
  case (Suc n)
  obtain v s' where step: "traffic_step U H (Arrive clock g ip req) s = (v, s')" by force
  from traffic_step_keeps [OF Suc.prems(1) step] Suc.prems step Suc.IH [of s'] show ?case
    by (simp del: traffic_step.simps)
qed simp

lemma sample_limited_app_fields:
  "shape_settled sample_urls sample_limited_app"
  "slot_for sample_http sample_limited_app limited_get = Some (Some ''*:/a'')"
  "limits_of sample_limited_app (Some ''*:/a'') = Some (5, 5)"
  by (simp_all add: shape_settled_def slot_for_def charged_slot_def limits_of_def limiter_at_def sample_limited_app_def
      app_new_def limited_get_def sample_get_def request_host_def sample_config_def match_route_def from_config_def
      route_simps entry_matches_def starts_with_def install_route_limiters_def route_limiters_def route_key_def
      limited_route_def sample_route_def store_gets limiter_new_def)

lemma rush_ops:
  "bucket_ops sample_urls sample_http (Some ''*:/a'') (IpV4 7) rush sample_limited_app
   = Sweep 0 # replicate 7 (Request (\<lambda>_. 0))"
proof -
  obtain v s' where step: "traffic_step sample_urls sample_http (Cleaned (\<lambda>_ _. 0)) sample_limited_app = (v, s')"
    by force
  from traffic_step_keeps [OF sample_limited_app_fields(1) step] sample_limited_app_fields(2) step show ?thesis
    unfolding rush_def by (simp add: burst_ops)
qed

lemma rush_times: "sorted (0 # readings (Sweep 0 # replicate 7 (Request (\<lambda>_. 0))) @ [0])"
  "n_requests (Sweep 0 # replicate 7 (Request (\<lambda>_. 0))) = 7"
  by (simp_all add: eval_nat_numeral)

lemma traffic_is_rate_limited_witness:
  "forwarded sample_urls sample_http (Some ''*:/a'') (IpV4 7) rush sample_limited_app \<le> 5"
proof -
  have ok: "app_ok sample_urls sample_limited_app" by (simp add: sample_limited_app_def app_new_ok)
  from traffic_is_rate_limited [OF ok sample_limited_app_fields(1,3), of rush 0 sample_http "IpV4 7" 0, unfolded rush_ops rush_times(2)]
    rush_times(1)
  have "of_nat (forwarded sample_urls sample_http (Some ''*:/a'') (IpV4 7) rush sample_limited_app) < (6 :: rat)"
    by (simp add: u32_as_f64_numerals)
  then have "forwarded sample_urls sample_http (Some ''*:/a'') (IpV4 7) rush sample_limited_app < 6"
    by (metis of_nat_less_iff of_nat_numeral)
  then show ?thesis by simp
qed

end
