(* ===== verification/Judgement.thy ===== *)
theory Judgement
  imports Traffic
begin

text \<open>
  The health of an origin in the running proxy, judged on its whole history: the outcomes of the
  requests proxied to it (\<open>server.rs\<close>) and of the active checks of its key
  (\<open>health/checker.rs\<close>), each with the threshold in force for it, whatever other traffic and
  rebuilds of the router happen in between.
\<close>

section \<open>The judgement on a history\<close>

text \<open>
  A history lists outcomes with their thresholds. A strike is a run of equal outcomes whose last
  one finds its threshold reached; an origin is in service unless a strike of failures has had
  no strike of successes after it.
\<close>

type_synonym history = "(bool \<times> nat) list"

definition strikes :: "bool \<Rightarrow> history \<Rightarrow> bool" where
  "strikes b h \<longleftrightarrow> h \<noteq> [] \<and> fst (last h) = b \<and> snd (last h) \<le> streak b (map fst h)"

definition in_service :: "history \<Rightarrow> bool" where
  "in_service h \<longleftrightarrow>
     (\<forall>i \<le> length h. strikes False (take i h) \<longrightarrow> (\<exists>j \<le> length h. i < j \<and> strikes True (take j h)))"

lemma strikes_snoc [simp]: "strikes b (h @ [(c, t)]) \<longleftrightarrow> c = b \<and> t \<le> Suc (streak b (map fst h))"
  by (auto simp: strikes_def)

lemma in_service_Nil [simp]: "in_service []"
  by (simp add: in_service_def strikes_def)

lemma in_service_snoc:
  "in_service (h @ [(c, t)]) \<longleftrightarrow>
     (if c then in_service h \<or> t \<le> Suc (streak True (map fst h))
      else in_service h \<and> \<not> t \<le> Suc (streak False (map fst h)))"
proof -
  have split: "(\<forall>i \<le> Suc n. P i) \<longleftrightarrow> (\<forall>i \<le> n. P i) \<and> P (Suc n)"
    "(\<exists>i \<le> Suc n. P i) \<longleftrightarrow> (\<exists>i \<le> n. P i) \<or> P (Suc n)" for n P
    by (auto simp: le_Suc_eq)
  show ?thesis
    by (simp add: in_service_def split cong: conj_cong) (auto dest: le_less_trans)
qed

section \<open>The history the traffic makes\<close>

fun outcome_of :: "string \<Rightarrow> 'u app_state \<Rightarrow> 'u traffic \<Rightarrow> history" where
  "outcome_of key s (Arrive clock g ip req) = []"
| "outcome_of key s (Finish latency k result) =
     (if k = key
      then [(\<not> outcome_failed result, unat (if outcome_failed result then failure_limit s else success_limit s))]
      else [])"
| "outcome_of key s (Checked ck base result) =
     (if base = key
      then [(check_outcome result,
             unat (if check_outcome result then ck_healthy_threshold ck else ck_unhealthy_threshold ck))]
      else [])"
| "outcome_of key s (Rebuilt m) = []"
| "outcome_of key s (Cleaned clock) = []"

fun traffic_history :: "'u url_ops \<Rightarrow> http_ops \<Rightarrow> string \<Rightarrow> 'u traffic list \<Rightarrow> 'u app_state \<Rightarrow> history" where
  "traffic_history U H key [] s = []"
| "traffic_history U H key (e # es) s =
     outcome_of key s e @ traffic_history U H key es (snd (traffic_step U H e s))"

fun traffic_run :: "'u url_ops \<Rightarrow> http_ops \<Rightarrow> 'u traffic list \<Rightarrow> 'u app_state \<Rightarrow> 'u app_state" where
  "traffic_run U H [] s = s"
| "traffic_run U H (e # es) s = traffic_run U H es (snd (traffic_step U H e s))"

section \<open>The record of an origin follows its history\<close>

definition follows :: "origin_state \<Rightarrow> history \<Rightarrow> bool" where
  "follows os h \<longleftrightarrow>
     unat (consecutive_successes os) = streak True (map fst h) \<and>
     unat (consecutive_failures os) = streak False (map fst h) \<and>
     healthy os = in_service h"

definition tracked :: "origin_state \<Rightarrow> u32 \<times> u32 \<times> bool" where
  "tracked os = (consecutive_successes os, consecutive_failures os, healthy os)"

lemma follows_cong: "tracked os = tracked os' \<Longrightarrow> follows os h = follows os' h"
  by (simp add: follows_def tracked_def)

lemma follows_new: "follows new_origin_state []"
  by (simp add: follows_def new_origin_state_def)

lemma follows_success:
  assumes "follows os h" and "Suc (length h) < 2 ^ 32"
  shows "follows (record_success_with_threshold t os) (h @ [(True, unat t)])"
proof -
  have "Suc (unat (consecutive_successes os)) < 2 ^ 32"
    using assms streak_le [of True "map fst h"] by (simp add: follows_def)
  with assms(1) show ?thesis
    by (simp add: follows_def health_simps in_service_snoc unat_Suc_u32 word_le_nat_alt)
qed

lemma follows_failure:
  assumes "follows os h" and "Suc (length h) < 2 ^ 32"
  shows "follows (record_failure_with_threshold t os) (h @ [(False, unat t)])"
proof -
  have "Suc (unat (consecutive_failures os)) < 2 ^ 32"
    using assms streak_le [of False "map fst h"] by (simp add: follows_def)
  with assms(1) show ?thesis
    by (simp add: follows_def health_simps in_service_snoc unat_Suc_u32 word_le_nat_alt)
qed

text \<open>One event: the record keeps following the history, extended by what the event adds to it.\<close>

lemma traffic_step_follows:
  assumes get: "store_get (origin_states s) key = Some os" and "follows os h"
    and "length (h @ outcome_of key s e) < 2 ^ 32"
  obtains os' where "store_get (origin_states (snd (traffic_step U H e s))) key = Some os'"
    and "follows os' (h @ outcome_of key s e)"
proof (cases e)
  case (Arrive clock g ip req)
  then have "origin_states (snd (traffic_step U H e s)) = origin_states s"
    using admit_fields [of U H clock g ip req s] by (auto split: prod.splits)
  with Arrive assms show thesis by (intro that [of os]) auto
next
  case (Finish latency k result)
  have same: "tracked (record_latency latency (increment_requests os)) = tracked os"
    by (simp add: tracked_def health_simps)
  with follows_cong [OF same] assms(2)
  have "follows (record_latency latency (increment_requests os)) h" by simp
  with assms Finish have "k = key \<Longrightarrow> follows
      (record_outcome s result (record_latency latency (increment_requests os))) (h @ outcome_of key s e)"
    by (auto simp: record_outcome_eq follows_success follows_failure)
  with assms Finish show thesis by (cases "k = key") (auto simp: finish_request_get intro: that)
next
  case (Checked ck base result)
  with assms have "base = key \<Longrightarrow> follows (record_check ck result os) (h @ outcome_of key s e)"
    by (auto simp: record_check_eq follows_success follows_failure)
  with assms Checked show thesis by (cases "base = key") (auto simp: check_target_get intro: that)
next
  case (Rebuilt m)
  with assms show thesis by (intro that [of os]) (simp_all add: rebuild_router_origin_states)
next
  case (Cleaned clock)
  with assms show thesis by (intro that [of os]) (simp_all add: proj_simps)
qed

lemma traffic_run_follows:
  assumes "store_get (origin_states s) key = Some os" and "follows os h"
    and "length (h @ traffic_history U H key es s) < 2 ^ 32"
  shows "\<exists>os'. store_get (origin_states (traffic_run U H es s)) key = Some os' \<and>
    follows os' (h @ traffic_history U H key es s)"
  using assms
proof (induction es arbitrary: s os h)
  case (Cons e es)
  have "length (h @ outcome_of key s e) < 2 ^ 32" using Cons.prems(3) by simp
  from traffic_step_follows [OF Cons.prems(1,2) this, of U H] obtain os1
    where "store_get (origin_states (snd (traffic_step U H e s))) key = Some os1"
      and "follows os1 (h @ outcome_of key s e)" .
  from Cons.IH [OF this] Cons.prems(3) show ?case by simp
qed auto

text \<open>
  C4. The record of an origin refines its history. From the moment an origin is registered,
  whatever requests of all clients, results of checks, rebuilds and cleanups follow, its counters are the
  lengths of the current runs of its own outcomes, proxied requests and checks counted
  together, and it is marked healthy exactly when the history keeps it in service.
\<close>

theorem health_is_judged_on_history:
  assumes "store_get (origin_states s) key = Some new_origin_state"
    and "length (traffic_history U H key es s) < 2 ^ 32"
  shows "\<exists>os. store_get (origin_states (traffic_run U H es s)) key = Some os \<and>
    unat (consecutive_successes os) = streak True (map fst (traffic_history U H key es s)) \<and>
    unat (consecutive_failures os) = streak False (map fst (traffic_history U H key es s)) \<and>
    (healthy os \<longleftrightarrow> in_service (traffic_history U H key es s))"
  using traffic_run_follows [OF assms(1) follows_new, of U H es] assms(2) by (simp add: follows_def)

section \<open>Witness\<close>

text \<open>Two failed requests and a timed-out check, whose threshold is three, take the origin down.\<close>

definition refused :: "string traffic" where
  "refused = Finish 5 ''http://a/'' (Inl (ClientError ''refused''))"

lemma sample_app_history:
  "traffic_history U H ''http://a/'' [refused, refused, Checked sample_checker ''http://a/'' CheckTimeout] sample_app
   = ([] @ [(False, 5)] @ [(False, 5)]) @ [(False, 3)]"
  by (simp add: refused_def sample_app_one_origin one_origin_def outcome_failed_def failure_limit_def finish_request_def
      check_outcome_def sample_checker_def)

lemma sample_app_judged:
  "\<not> in_service (([] @ [(False, 5)] @ [(False, 5)]) @ [(False, 3)])"
  unfolding in_service_snoc by (simp add: streak_def)

lemma health_is_judged_on_history_witness:
  "\<exists>os. store_get (origin_states (traffic_run sample_urls sample_http
       [refused, refused, Checked sample_checker ''http://a/'' CheckTimeout] sample_app)) ''http://a/'' = Some os \<and>
     unat (consecutive_failures os) = 3 \<and> \<not> healthy os"
proof -
  have "store_get (origin_states sample_app) ''http://a/'' = Some new_origin_state"
    by (simp add: sample_app_one_origin one_origin_def store_get_def)
  moreover have "length (([] @ [(False, 5 :: nat)] @ [(False, 5)]) @ [(False, 3)]) < 2 ^ 32" by simp
  moreover have "streak False (map fst (([] @ [(False, 5 :: nat)] @ [(False, 5)]) @ [(False, 3)])) = 3"
    by (simp add: streak_def)
  ultimately show ?thesis
    using health_is_judged_on_history [of sample_app "''http://a/''" sample_urls sample_http
        "[refused, refused, Checked sample_checker ''http://a/'' CheckTimeout]"] sample_app_judged
    unfolding sample_app_history by metis
qed

end
