(* ===== verification/Spec2Isabelle.thy ===== *)
theory Spec2Isabelle
  imports Process Atomics UnitTests Bench Latency Tickets Watcher Judgement
begin

text \<open>
  A model of \<^bold>\<open>upstreamer\<close>, an HTTP reverse proxy in Rust with load balancing, rate limiting,
  health checking, hot reload of its configuration and discovery of Kubernetes services.

  \<^bold>\<open>The program and its parts.\<close> One \<open>AppState\<close> is shared by every task of the process. A request
  is matched to a route of the router, charged to a rate limiter, given an origin by the
  balancer of the route, proxied, and recorded in the state of its origin. Beside the requests
  run the active health checker, the discovery task, the watcher of the configuration file and
  the cleanup of idle buckets, all of which change the same state.

  \<^bold>\<open>Which theory models what.\<close>
  \<^item> \<open>Prelude\<close>: string functions of the standard library (\<open>split\<close>, \<open>trim_end_matches\<close>,
    \<open>to_string\<close> and \<open>parse\<close> of integers) with their lemmas.
  \<^item> \<open>Float64\<close>: IEEE binary64 as rationals with rounding to nearest even; the locale \<open>rounding\<close>
    states what the proofs use of it. Overflow and NaN cannot occur for the values of the
    program (token counts below \<open>2 ^ 32\<close>, weights between \<open>2 ^ -65\<close> and \<open>2 ^ 42\<close>).
  \<^item> \<open>Store\<close>: \<open>DashMap\<close> and \<open>HashMap\<close> as association lists; the locale \<open>keyed_store\<close> is their contract.
  \<^item> \<open>Urls\<close>: the operations of the \<open>url\<close> crate, a record of functions.
  \<^item> \<open>Addresses\<close>: socket addresses as the standard library prints and parses them.
  \<^item> \<open>Config\<close> (\<open>config/parser.rs\<close>): configuration types, defaults, \<open>load\<close>, \<open>validate\<close>.
  \<^item> \<open>Balance\<close> (\<open>balance/mod.rs\<close>): origin state, counters, health flag, latency average; the locale
    \<open>streak_tracker\<close> is the contract of a tracker with two thresholds.
  \<^item> \<open>Balancers\<close> (\<open>balance/round_robin.rs\<close>, \<open>balance/weighted.rs\<close>): the three balancers; the locale
    \<open>load_balancer\<close> is the contract of the trait, interpreted on each and on their union.
  \<^item> \<open>RateLimit\<close> (\<open>middleware/ratelimit.rs\<close>): token buckets and limiters.
  \<^item> \<open>Route\<close> (\<open>route.rs\<close>): construction of the router and matching.
  \<^item> \<open>ErrorPages\<close> (\<open>middleware/errors.rs\<close>): error pages and error responses.
  \<^item> \<open>AppState\<close> (\<open>state.rs\<close>): the shared state, its construction and its invariant \<open>app_ok\<close>.
  \<^item> \<open>Server\<close> (\<open>server.rs\<close>): admission, proxying and bookkeeping of a request.
  \<^item> \<open>Checker\<close> (\<open>health/checker.rs\<close>): active checks and the health endpoint.
  \<^item> \<open>Discovery\<close> (\<open>health/discovery.rs\<close>): services to origins, rebuilding of the router.
  \<^item> \<open>Reload\<close> (\<open>config/reload.rs\<close>): reloading of the configuration, step by step.
  \<^item> \<open>Metrics\<close> (\<open>middleware/metrics.rs\<close>): the set-up of the recorder and its bucket bounds, one pass
    of the collector of process metrics.
  \<^item> \<open>System\<close> (\<open>bin/upstreamer/main.rs\<close>): all tasks interleaved operation by operation, as a
    transition system.
  \<^item> \<open>Concurrent\<close>: the same system with reload and rebuild as programs of single stores
    (\<open>reload_program\<close>, \<open>rebuild_program\<close>) that the other tasks may interrupt at any point.
  \<^item> \<open>Atomics\<close> (\<open>balance/mod.rs\<close> again): the recording methods atomic by atomic, as threads under
    an arbitrary schedule.
  \<^item> \<open>Latency\<close> (\<open>balance/mod.rs\<close>): the compare-and-exchange loop of \<open>record_latency\<close>, any number of
    calls at once, turn by turn.
  \<^item> \<open>Tickets\<close> (\<open>balance/round_robin.rs\<close>): round-robin selections as threads that share the counter,
    while health changes under them.
  \<^item> \<open>Watcher\<close> (\<open>config/reload.rs\<close>): the callback, the channel, the debouncing and the reads of the
    watcher as steps, with the file and the clock; the locale \<open>bounded_channel\<close> is the contract of
    the channel.
  \<^item> \<open>Traffic\<close>: requests of all clients with their bookkeeping, checks, rebuilds and cleanups of idle
    buckets in any order, and the rate limit as clients meet it.
  \<^item> \<open>Judgement\<close>: the health of an origin in that traffic, as a function of its whole history.
  \<^item> \<open>Process\<close> (\<open>server.rs\<close>, \<open>health/checker.rs\<close>, \<open>bin/upstreamer/main.rs\<close>): connections, the two
    accept loops, start-up with its error exits, the tasks it spawns, the metrics thread over a run;
    the locale \<open>http1_server\<close> is what the code relies on of \<open>hyper\<close>.
  \<^item> \<open>Cli\<close> (\<open>bin/upstreamer/cli.rs\<close>): the summary of \<open>--validate\<close>, with the printing of durations it uses.
  \<^item> \<open>UnitTests\<close>: the \<open>tests\<close> modules of \<open>parser.rs\<close>, \<open>ratelimit.rs\<close> and \<open>route.rs\<close> as propositions.
  \<^item> \<open>Bench\<close> (\<open>examples/bench-backend.rs\<close>): the benchmark backend, and origins that always answer.

  \<^bold>\<open>How state and operations correspond.\<close> A struct is a record with its fields, an enum a
  datatype. Counters are words of their width and wrap as \<open>fetch_add\<close> does. \<open>Duration\<close> and
  \<open>Instant\<close> are nanoseconds; every reading of the clock, every random number, the answer of an
  origin and the contents of a file are arguments. A method on shared state returns the new
  state; a \<open>Result\<close> is a sum with the error on the left, a panic of the checker ends its task. An
  \<open>ArcSwap\<close> or an atomic is a field. Loops are recursions over the list they traverse, so every
  definition terminates and no fuel is needed; the compare-and-exchange loop runs over the
  list of its turns, and the endless loops of the tasks over the list of their events. The watcher
  is an inductive step relation, and \<open>work_left\<close> bounds its steps.

  \<^bold>\<open>What the lemmas show.\<close> \<open>Config\<close>: validation accepts exactly the well-formed configurations and
  its errors name a defect. \<open>Balance\<close>, \<open>Balancers\<close>, \<open>RateLimit\<close>: the health flag is a function of
  the history, balancers avoid unhealthy origins and find the others, round robin is fair,
  buckets bound the rate and starve nobody. \<open>Route\<close>: first match wins, and where host patterns
  are exact. \<open>Server\<close>: who is forwarded, refused, charged and recorded. \<open>Checker\<close>, \<open>Discovery\<close>,
  \<open>Reload\<close>: what each task does to the state, and what it misses. \<open>System\<close>, \<open>Concurrent\<close>: the
  invariant of the running proxy under every interleaving and its consequences, among them that
  no request is forwarded to an origin marked unhealthy, that an origin that is down and whose
  key ends in a slash never comes back, and that a discovery event can undo a reload. \<open>Atomics\<close>:
  totals are exact under every schedule, streaks and the flag are not. \<open>Latency\<close>: concurrent
  samples are linearised and every call returns. \<open>Tickets\<close>: round robin stays fair in a race, and
  what a selection returns it has seen up. \<open>Watcher\<close>: an edit that \<open>notify\<close> announces as \<open>Create\<close> or \<open>Modify\<close>
  does not go unread, reads are half a second apart, and the steps implement \<open>watch_config\<close>. \<open>Traffic\<close>, \<open>Judgement\<close>: end to end, through all
  components, the rate limit holds and health follows the history. \<open>Process\<close>: what is served,
  and what ends a connection or the process. \<open>Cli\<close>: what the summary lists. \<open>UnitTests\<close>: the tests
  of the repository hold of the model. \<open>Bench\<close>: an origin that answers stays in service.

  \<^bold>\<open>Granularity.\<close> The admission of a request is one step (it never waits), its bookkeeping
  another; between them anything may happen. In \<open>System\<close> a reload and a rebuild are one step; in
  \<open>Concurrent\<close> every store they make is a step of its own, and \<open>coarse_runs_are_schedules\<close> checks
  that the one model contains the other. Each method of an origin's state is one step there; \<open>Atomics\<close> splits the recording
  methods into their atomics, \<open>Latency\<close> the latency loop into its exchanges, \<open>Tickets\<close> a selection
  into its looks at the candidates. The list of turns, of events or of steps is an argument, so no
  fuel is chosen anywhere; where a loop ends after enough turns, how many are enough is proved.

  \<^bold>\<open>Not modelled.\<close> The bytes on the sockets and the HTTP protocol (\<open>hyper\<close>), the parsing of the
  arguments (\<open>clap\<close>), the set-up of the runtime and of logging (\<open>utils/logging.rs\<close>), what is logged,
  what the Prometheus exporter keeps of the gauges and of the histogram, and the text formats (TOML,
  JSON printing), which are parameters. None of them changes the shared state. Whether
  \<open>notify\<close> announces an edit is not known to the model: what holds of edits in general and what of
  announced ones is told apart in \<open>Watcher\<close>. A reload is left out
  of \<open>Traffic\<close>, since it refills the buckets of the routes (\<open>Reload\<close>). Weak memory orders are not modelled: the atomics of one origin are taken in one order.
\<close>

end
